(* ===== verification/Quic_Prelude.thy ===== *)
theory Quic_Prelude
  imports Main "HOL-Library.Word"
begin

text \<open>
  Shared vocabulary of the development: the C integer types of the QUIC stack at their widths,
  the small helpers every component uses (\<open>u64_min\<close>, \<open>u64_max\<close>, \<open>min_u32\<close>,
  \<open>ossl_quic_pn_max\<close>), the encryption levels and packet number spaces of
  \<open>include/internal/quic_types.h\<close>, and the lemmas that move 64-bit arithmetic to \<^typ>\<open>nat\<close>.

  \<open>size_t\<close> is the 64-bit type of the platform the container image builds for. A C function that
  returns 0 or 1 is a \<^typ>\<open>bool\<close>, a pointer that may be NULL is an \<open>option\<close>.
\<close>

section \<open>Integer types\<close>

type_synonym u8 = "8 word"
type_synonym u32 = "32 word"
type_synonym u64 = "64 word"
type_synonym QUIC_PN = u64

abbreviation UINT64_MAX :: u64 where
  "UINT64_MAX \<equiv> 18446744073709551615"

abbreviation SIZE_MAX :: u64 where
  "SIZE_MAX \<equiv> 18446744073709551615"

abbreviation QUIC_PN_INVALID :: QUIC_PN where
  "QUIC_PN_INVALID \<equiv> UINT64_MAX"

text \<open>Facts that turn word arithmetic into arithmetic on natural numbers.\<close>
named_theorems u64_nat

text \<open>Unfolding rules of the small helper functions.\<close>
named_theorems helper_simps

section \<open>Word arithmetic through natural numbers\<close>

lemma unat_u64_lt [simp]: "unat (x :: u64) < 18446744073709551616"
  using unsigned_less [of x, where 'a = nat] by simp

lemma unat_u64_le [simp]: "unat (x :: u64) \<le> 18446744073709551615"
  using unat_u64_lt [of x] by linarith

lemma u64_le_unat [u64_nat]: "(a :: u64) \<le> b \<longleftrightarrow> unat a \<le> unat b"
  by (rule word_le_nat_alt)

lemma u64_less_unat [u64_nat]: "(a :: u64) < b \<longleftrightarrow> unat a < unat b"
  by (rule word_less_nat_alt)

lemma u64_le_max [simp]: "(a :: u64) \<le> UINT64_MAX"
  by (simp add: u64_nat)

lemma u64_not_greater_max [simp]: "\<not> UINT64_MAX < (a :: u64)"
  by (simp add: not_less)

lemma unat_u64_max: "unat (max a b :: u64) = max (unat a) (unat b)"
  by (simp add: max_def u64_nat)

lemma u64_eq_unat: "(a :: u64) = b \<longleftrightarrow> unat a = unat b"
  by (rule word_unat_eq_iff)

lemma u64_unat_inj: "unat (a :: u64) = unat b \<Longrightarrow> a = b"
  by (simp add: word_unat_eq_iff)

lemma unat_u64_add:
  "unat (a :: u64) + unat b < 18446744073709551616 \<Longrightarrow> unat (a + b) = unat a + unat b"
  by (simp add: unat_word_ariths)

lemma unat_u64_add_mod: "unat ((a :: u64) + b) = (unat a + unat b) mod 18446744073709551616"
  by (simp add: unat_word_ariths)

lemma unat_u64_sub: "(b :: u64) \<le> a \<Longrightarrow> unat (a - b) = unat a - unat b"
  by (rule unat_sub)

lemma unat_u64_mult:
  "unat (a :: u64) * unat b < 18446744073709551616 \<Longrightarrow> unat (a * b) = unat a * unat b"
  by (simp add: unat_word_ariths)

lemma unat_u64_mult_mod: "unat ((a :: u64) * b) = (unat a * unat b) mod 18446744073709551616"
  by (simp add: unat_word_ariths)

lemma unat_u64_div [u64_nat]: "unat ((a :: u64) div b) = unat a div unat b"
  by (rule unat_div)

lemma unat_u64_mod [u64_nat]: "unat ((a :: u64) mod b) = unat a mod unat b"
  by (rule unat_mod)

lemma unat_u64_eq_0: "unat (a :: u64) = 0 \<longleftrightarrow> a = 0"
  by (rule unat_eq_0)

lemma unat_u64_of_nat: "n < 18446744073709551616 \<Longrightarrow> unat (of_nat n :: u64) = n"
  by (simp add: unat_of_nat take_bit_nat_def)

lemma unat_u64_add_of_nat:
  "unat (a :: u64) + n < 18446744073709551616 \<Longrightarrow> unat (a + of_nat n) = unat a + n"
  by (simp add: unat_u64_of_nat unat_u64_add)

lemma unat_u64_add_of_nat_le:
  assumes "unat (a :: u64) + n \<le> unat (b :: u64)"
  shows "unat (a + of_nat n) = unat a + n" "unat (of_nat n :: u64) = n"
proof -
  from assms have "unat a + n < 18446744073709551616"
    using unat_u64_lt [of b] order.strict_trans1 by blast
  then show "unat (a + of_nat n) = unat a + n" "unat (of_nat n :: u64) = n"
    by (simp_all add: unat_u64_add_of_nat unat_u64_of_nat)
qed

lemma unat_u64_succ:
  assumes "(a :: u64) < b"
  shows "unat (a + 1) = unat a + 1"
proof -
  from assms have "unat a < unat b"
    by (simp only: u64_less_unat)
  then have "unat a < 18446744073709551615"
    using unat_u64_le order_less_le_trans by blast
  then show ?thesis
    by (simp add: unat_u64_add)
qed

lemma unat_u64_pred: "(0 :: u64) < a \<Longrightarrow> unat (a - 1) = unat a - 1"
  by (subst unat_u64_sub) (auto simp: u64_nat)

lemma u64_succ_le_iff: "(a :: u64) < b \<Longrightarrow> a + 1 \<le> c \<longleftrightarrow> a < c"
  by (auto simp: u64_nat unat_u64_succ)

lemma u64_le_pred_iff: "(0 :: u64) < a \<Longrightarrow> x \<le> a - 1 \<longleftrightarrow> x < a"
  by (auto simp: u64_nat unat_u64_pred)

lemma u64_pred_less: "(0 :: u64) < a \<Longrightarrow> a - 1 < a"
  by (simp add: u64_nat unat_u64_pred)

lemma u64_less_succ: "(a :: u64) < b \<Longrightarrow> a < a + 1"
  by (simp add: u64_nat unat_u64_succ)

section \<open>Shared helper functions\<close>

definition u64_min :: "u64 \<Rightarrow> u64 \<Rightarrow> u64" where
  "u64_min x y = (if x < y then x else y)"

definition u64_max :: "u64 \<Rightarrow> u64 \<Rightarrow> u64" where
  "u64_max x y = (if x > y then x else y)"

definition min_u32 :: "u32 \<Rightarrow> u32 \<Rightarrow> u32" where
  "min_u32 x y = (if x < y then x else y)"

definition ossl_quic_pn_max :: "QUIC_PN \<Rightarrow> QUIC_PN \<Rightarrow> QUIC_PN" where
  "ossl_quic_pn_max a b = (if a > b then a else b)"

definition ossl_quic_pn_min :: "QUIC_PN \<Rightarrow> QUIC_PN \<Rightarrow> QUIC_PN" where
  "ossl_quic_pn_min a b = (if a < b then a else b)"

definition ossl_quic_pn_valid :: "QUIC_PN \<Rightarrow> bool" where
  "ossl_quic_pn_valid pn = (pn < push_bit 62 1)"

lemma u64_min_eq [helper_simps]: "u64_min x y = min x y"
  by (auto simp: u64_min_def min_def)

lemma u64_max_eq [helper_simps]: "u64_max x y = max x y"
  by (auto simp: u64_max_def max_def)

lemma min_u32_eq [helper_simps]: "min_u32 x y = min x y"
  by (auto simp: min_u32_def min_def)

lemma ossl_quic_pn_max_eq [helper_simps]: "ossl_quic_pn_max a b = max a b"
  by (auto simp: ossl_quic_pn_max_def max_def)

lemma ossl_quic_pn_min_eq [helper_simps]: "ossl_quic_pn_min a b = min a b"
  by (auto simp: ossl_quic_pn_min_def min_def)

section \<open>Encryption levels and packet number spaces\<close>

datatype enc_level = QUIC_ENC_LEVEL_INITIAL | QUIC_ENC_LEVEL_0RTT
  | QUIC_ENC_LEVEL_HANDSHAKE | QUIC_ENC_LEVEL_1RTT

datatype pn_space = QUIC_PN_SPACE_INITIAL | QUIC_PN_SPACE_HANDSHAKE | QUIC_PN_SPACE_APP

fun ossl_quic_enc_level_to_pn_space :: "enc_level \<Rightarrow> pn_space" where
  "ossl_quic_enc_level_to_pn_space QUIC_ENC_LEVEL_INITIAL = QUIC_PN_SPACE_INITIAL"
| "ossl_quic_enc_level_to_pn_space QUIC_ENC_LEVEL_HANDSHAKE = QUIC_PN_SPACE_HANDSHAKE"
| "ossl_quic_enc_level_to_pn_space QUIC_ENC_LEVEL_0RTT = QUIC_PN_SPACE_APP"
| "ossl_quic_enc_level_to_pn_space QUIC_ENC_LEVEL_1RTT = QUIC_PN_SPACE_APP"

text \<open>A C array indexed by packet number space is a function on \<^typ>\<open>pn_space\<close>.\<close>

definition pn_spaces :: "pn_space list" where
  "pn_spaces = [QUIC_PN_SPACE_INITIAL, QUIC_PN_SPACE_HANDSHAKE, QUIC_PN_SPACE_APP]"

lemma set_pn_spaces [simp]: "set pn_spaces = UNIV"
  by (auto simp: pn_spaces_def intro: pn_space.exhaust)

lemma distinct_pn_spaces [simp]: "distinct pn_spaces"
  by (simp add: pn_spaces_def)

lemma UNIV_pn_space: "UNIV = {QUIC_PN_SPACE_INITIAL, QUIC_PN_SPACE_HANDSHAKE, QUIC_PN_SPACE_APP}"
  by (auto intro: pn_space.exhaust)

text \<open>The encryption levels in the order the packetiser polls them.\<close>

definition enc_levels :: "enc_level list" where
  "enc_levels = [QUIC_ENC_LEVEL_INITIAL, QUIC_ENC_LEVEL_0RTT, QUIC_ENC_LEVEL_HANDSHAKE,
    QUIC_ENC_LEVEL_1RTT]"

lemma set_enc_levels [simp]: "set enc_levels = UNIV"
  by (auto simp: enc_levels_def intro: enc_level.exhaust)

end
