(* ===== verification/Ossl_Time.thy ===== *)
theory Ossl_Time
  imports Quic_Prelude
begin

text \<open>
  Overflow-checked unsigned arithmetic (\<open>include/internal/safe_math.h\<close>, instantiated for
  \<open>uint64_t\<close>) and the saturating arithmetic on \<open>OSSL_TIME\<close> built on it
  (\<open>include/internal/time.h\<close>). The out-parameter \<open>err\<close> is the second component of the result.
  \<open>OSSL_TIME\<close> is a struct with the single field \<open>t\<close>, so it is the 64-bit tick count itself.
\<close>

section \<open>Checked unsigned arithmetic\<close>

text \<open>The variants built on the compiler's overflow builtins.\<close>

definition safe_add_u64 :: "u64 \<Rightarrow> u64 \<Rightarrow> u64 \<times> bool" where
  "safe_add_u64 a b = (if unat a + unat b < 2 ^ 64 then (a + b, False) else (a + b, True))"

definition safe_mul_u64 :: "u64 \<Rightarrow> u64 \<Rightarrow> u64 \<times> bool" where
  "safe_mul_u64 a b = (if unat a * unat b < 2 ^ 64 then (a * b, False) else (a * b, True))"

text \<open>The portable variants, used where the compiler has no overflow builtins.\<close>

definition safe_add_u64_portable :: "u64 \<Rightarrow> u64 \<Rightarrow> u64 \<times> bool" where
  "safe_add_u64_portable a b = (a + b, b > UINT64_MAX - a)"

definition safe_mul_u64_portable :: "u64 \<Rightarrow> u64 \<Rightarrow> u64 \<times> bool" where
  "safe_mul_u64_portable a b = (a * b, b \<noteq> 0 \<and> a > UINT64_MAX div b)"

definition safe_sub_u64 :: "u64 \<Rightarrow> u64 \<Rightarrow> u64 \<times> bool" where
  "safe_sub_u64 a b = (a - b, b > a)"

definition safe_div_u64 :: "u64 \<Rightarrow> u64 \<Rightarrow> u64 \<times> bool" where
  "safe_div_u64 a b = (if b \<noteq> 0 then (a div b, False) else (UINT64_MAX, True))"

definition safe_muldiv_u64 :: "u64 \<Rightarrow> u64 \<Rightarrow> u64 \<Rightarrow> u64 \<times> bool" where
  "safe_muldiv_u64 a b c =
     (if c = 0 then (if a = 0 \<or> b = 0 then 0 else UINT64_MAX, True)
      else case safe_mul_u64 a b of (x, e2) \<Rightarrow>
        if \<not> e2 then (x div c, False)
        else let a' = (if b > a then b else a); b' = (if b > a then a else b);
                 (x, ex) = safe_mul_u64 (a' mod c) b';
                 (y, ey) = safe_mul_u64 (a' div c) b';
                 (z, ez) = safe_add_u64 y (x div c)
             in (z, ex \<or> ey \<or> ez))"

text \<open>The overflow tests on words, which evaluation uses.\<close>

lemma safe_add_u64_code [code]: "safe_add_u64 a b = (a + b, b > UINT64_MAX - a)"
proof -
  have "UINT64_MAX - a < b \<longleftrightarrow> \<not> unat a + unat b < 2 ^ 64"
    by (auto simp: u64_nat unat_u64_sub less_diff_conv2)
  then show ?thesis by (simp add: safe_add_u64_def)
qed

lemma safe_mul_u64_code [code]: "safe_mul_u64 a b = (a * b, b \<noteq> 0 \<and> a > UINT64_MAX div b)"
proof -
  have "unat a * unat b \<le> 18446744073709551615 \<longleftrightarrow> unat a \<le> 18446744073709551615 div unat b" if "0 < unat b"
    using less_eq_div_iff_mult_less_eq [OF that] by simp
  then have "b \<noteq> 0 \<and> UINT64_MAX div b < a \<longleftrightarrow> \<not> unat a * unat b < 2 ^ 64"
    by (cases "b = 0") (auto simp: u64_nat unat_gt_0 not_less)
  then show ?thesis by (simp add: safe_mul_u64_def)
qed

lemma safe_add_u64_ok: "safe_add_u64 a b = (r, False) \<Longrightarrow> unat r = unat a + unat b"
  by (auto simp: safe_add_u64_def unat_u64_add split: if_splits)

lemma safe_mul_u64_ok: "safe_mul_u64 a b = (r, False) \<Longrightarrow> unat r = unat a * unat b"
  by (auto simp: safe_mul_u64_def unat_u64_mult split: if_splits)

lemma nat_muldiv_split:
  "(a :: nat) * b div c = (a div c) * b + (a mod c) * b div c" if "0 < c"
proof -
  have "a * b = ((a div c) * b) * c + (a mod c) * b"
    by (metis add_mult_distrib div_mult_mod_eq mult.assoc mult.commute)
  then show ?thesis
    using that by (simp add: div_mult_self3)
qed

lemma safe_muldiv_u64_ok:
  assumes "safe_muldiv_u64 a b c = (r, False)"
  shows "unat r = unat a * unat b div unat c \<and> c \<noteq> 0"
proof (cases "safe_mul_u64 a b")
  case (Pair x e2)
  from assms have c: "c \<noteq> 0"
    by (auto simp: safe_muldiv_u64_def)
  then have cpos: "0 < unat c"
    by (simp add: unat_gt_0)
  show ?thesis
  proof (cases e2)
    case False
    with Pair have "unat x = unat a * unat b"
      by (auto dest: safe_mul_u64_ok)
    with assms Pair c False show ?thesis
      by (auto simp: safe_muldiv_u64_def u64_nat)
  next
    case True
    define a' where "a' = (if b > a then b else a)"
    define b' where "b' = (if b > a then a else b)"
    have ab: "unat a' * unat b' = unat a * unat b"
      by (simp add: a'_def b'_def)
    obtain x ex where x: "safe_mul_u64 (a' mod c) b' = (x, ex)" by fastforce
    obtain y ey where y: "safe_mul_u64 (a' div c) b' = (y, ey)" by fastforce
    obtain z ez where z: "safe_add_u64 y (x div c) = (z, ez)" by fastforce
    from assms Pair True c x y z have "r = z" "\<not> ex" "\<not> ey" "\<not> ez"
      by (auto simp: safe_muldiv_u64_def Let_def a'_def b'_def split: prod.splits)
    with x y z have "unat r = unat (a' div c) * unat b' + unat (a' mod c) * unat b' div unat c"
      by (auto dest!: safe_mul_u64_ok safe_add_u64_ok simp: u64_nat)
    then show ?thesis
      using nat_muldiv_split [OF cpos, of "unat a'" "unat b'"] ab c by (simp add: u64_nat)
  qed
qed

lemma safe_muldiv_u64_small:
  assumes "c \<noteq> 0" "unat a * unat b < 18446744073709551616"
  shows "safe_muldiv_u64 a b c = (a * b div c, False)"
  using assms by (simp add: safe_muldiv_u64_def safe_mul_u64_def)

section \<open>Times\<close>

type_synonym OSSL_TIME = u64

definition OSSL_TIME_SECOND :: u64 where
  "OSSL_TIME_SECOND = 1000000000"

definition OSSL_TIME_MS :: u64 where
  "OSSL_TIME_MS = OSSL_TIME_SECOND div 1000"

definition OSSL_TIME_US :: u64 where
  "OSSL_TIME_US = OSSL_TIME_MS div 1000"

definition ossl_ms2time :: "u64 \<Rightarrow> OSSL_TIME" where
  "ossl_ms2time ms = ms * OSSL_TIME_MS"

definition ossl_time_zero :: OSSL_TIME where
  "ossl_time_zero = 0"

definition ossl_time_infinite :: OSSL_TIME where
  "ossl_time_infinite = UINT64_MAX"

definition ossl_time_compare :: "OSSL_TIME \<Rightarrow> OSSL_TIME \<Rightarrow> int" where
  "ossl_time_compare a b = (if a > b then 1 else if a < b then - 1 else 0)"

definition ossl_time_is_zero :: "OSSL_TIME \<Rightarrow> bool" where
  "ossl_time_is_zero t = (ossl_time_compare t ossl_time_zero = 0)"

definition ossl_time_is_infinite :: "OSSL_TIME \<Rightarrow> bool" where
  "ossl_time_is_infinite t = (ossl_time_compare t ossl_time_infinite = 0)"

definition ossl_time_add :: "OSSL_TIME \<Rightarrow> OSSL_TIME \<Rightarrow> OSSL_TIME" where
  "ossl_time_add a b = (case safe_add_u64 a b of (r, err) \<Rightarrow> if err then ossl_time_infinite else r)"

definition ossl_time_subtract :: "OSSL_TIME \<Rightarrow> OSSL_TIME \<Rightarrow> OSSL_TIME" where
  "ossl_time_subtract a b = (case safe_sub_u64 a b of (r, err) \<Rightarrow> if err then ossl_time_zero else r)"

definition ossl_time_abs_difference :: "OSSL_TIME \<Rightarrow> OSSL_TIME \<Rightarrow> OSSL_TIME" where
  "ossl_time_abs_difference a b =
     (if a > b then ossl_time_subtract a b else ossl_time_subtract b a)"

definition ossl_time_multiply :: "OSSL_TIME \<Rightarrow> u64 \<Rightarrow> OSSL_TIME" where
  "ossl_time_multiply a b =
     (case safe_mul_u64 a b of (r, err) \<Rightarrow> if err then ossl_time_infinite else r)"

definition ossl_time_divide :: "OSSL_TIME \<Rightarrow> u64 \<Rightarrow> OSSL_TIME" where
  "ossl_time_divide a b = (case safe_div_u64 a b of (r, err) \<Rightarrow> if err then ossl_time_zero else r)"

definition ossl_time_muldiv :: "OSSL_TIME \<Rightarrow> u64 \<Rightarrow> u64 \<Rightarrow> OSSL_TIME" where
  "ossl_time_muldiv a b c =
     (case safe_muldiv_u64 a b c of (r, err) \<Rightarrow> if err then ossl_time_zero else r)"

definition ossl_time_max :: "OSSL_TIME \<Rightarrow> OSSL_TIME \<Rightarrow> OSSL_TIME" where
  "ossl_time_max a b = (if a > b then a else b)"

definition ossl_time_min :: "OSSL_TIME \<Rightarrow> OSSL_TIME \<Rightarrow> OSSL_TIME" where
  "ossl_time_min a b = (if a < b then a else b)"

text \<open>Rewrite rules that replace the time operations by order and arithmetic.\<close>
named_theorems time_simps

lemma ossl_time_compare_simps [time_simps]:
  "ossl_time_compare a b \<le> 0 \<longleftrightarrow> a \<le> b"
  "ossl_time_compare a b < 0 \<longleftrightarrow> a < b"
  "ossl_time_compare a b > 0 \<longleftrightarrow> a > b"
  "ossl_time_compare a b \<ge> 0 \<longleftrightarrow> a \<ge> b"
  "ossl_time_compare a b = 0 \<longleftrightarrow> a = b"
  "ossl_time_compare a b = - 1 \<longleftrightarrow> a < b"
  by (auto simp: ossl_time_compare_def)

lemma ossl_time_is_zero_eq [time_simps]: "ossl_time_is_zero t \<longleftrightarrow> t = 0"
  by (simp add: ossl_time_is_zero_def ossl_time_zero_def time_simps)

lemma ossl_time_is_infinite_eq [time_simps]: "ossl_time_is_infinite t \<longleftrightarrow> t = UINT64_MAX"
  by (simp add: ossl_time_is_infinite_def ossl_time_infinite_def time_simps)

lemma ossl_time_max_eq [time_simps]: "ossl_time_max a b = max a b"
  by (auto simp: ossl_time_max_def max_def)

lemma ossl_time_min_eq [time_simps]: "ossl_time_min a b = min a b"
  by (auto simp: ossl_time_min_def min_def)

lemma unat_ossl_time_add:
  "unat (ossl_time_add a b) = min (unat a + unat b) 18446744073709551615"
  by (simp add: ossl_time_add_def safe_add_u64_def ossl_time_infinite_def unat_u64_add)

lemma unat_ossl_time_subtract: "unat (ossl_time_subtract a b) = unat a - unat b"
  by (simp add: ossl_time_subtract_def safe_sub_u64_def ossl_time_zero_def unat_u64_sub u64_nat)

lemma unat_ossl_time_abs_difference:
  "unat (ossl_time_abs_difference a b) = max (unat a) (unat b) - min (unat a) (unat b)"
  by (simp add: ossl_time_abs_difference_def unat_ossl_time_subtract u64_nat)

lemma unat_ossl_time_multiply:
  "unat (ossl_time_multiply a b) = min (unat a * unat b) 18446744073709551615"
  by (simp add: ossl_time_multiply_def safe_mul_u64_def ossl_time_infinite_def unat_u64_mult)

lemma unat_ossl_time_divide: "unat (ossl_time_divide a b) = unat a div unat b"
  by (simp add: ossl_time_divide_def safe_div_u64_def ossl_time_zero_def u64_nat)

lemmas unat_time =
  unat_ossl_time_add unat_ossl_time_subtract unat_ossl_time_abs_difference
  unat_ossl_time_multiply unat_ossl_time_divide

lemma ossl_time_add_mono: "a \<le> a' \<Longrightarrow> ossl_time_add a d \<le> ossl_time_add a' d"
  by (auto simp: u64_le_unat unat_time)

lemma ossl_time_add_ge: "a \<le> ossl_time_add a d"
  by (simp add: u64_le_unat unat_time)

section \<open>Properties\<close>

text \<open>
  The arithmetic on times saturates: a sum or product that does not fit in 64 bits is the infinite
  time, a difference below zero is zero, and every other result is exact.
\<close>
theorem time_saturates:
  "unat (ossl_time_add a b) = min (unat a + unat b) (unat ossl_time_infinite) \<and>
   unat (ossl_time_multiply a k) = min (unat a * unat k) (unat ossl_time_infinite) \<and>
   unat (ossl_time_subtract a b) = unat a - unat b"
  by (simp add: unat_time ossl_time_infinite_def)

text \<open>
  The portable definitions of the checked addition and multiplication compute the same value and
  the same overflow flag as the ones built on compiler support.
\<close>
theorem safe_math_portable_equivalence:
  "safe_add_u64_portable a b = safe_add_u64 a b \<and> safe_mul_u64_portable a b = safe_mul_u64 a b"
  by (simp add: safe_add_u64_portable_def safe_add_u64_code safe_mul_u64_portable_def safe_mul_u64_code)

text \<open>
  \<open>ossl_time_muldiv\<close> returns zero where the exact result does not fit, although the operations on
  times are documented to return the largest value on overflow.
\<close>
theorem time_muldiv_overflow_is_zero:
  "ossl_time_muldiv ossl_time_infinite 2 1 = ossl_time_zero"
  by (simp add: ossl_time_muldiv_def safe_muldiv_u64_def safe_mul_u64_def safe_add_u64_def
      ossl_time_infinite_def Let_def)

end
