(* ===== verification/Quic_Fc.thy ===== *)
theory Quic_Fc
  imports Ossl_Time
begin

text \<open>
  Flow control, \<open>ssl/quic/quic_fc.c\<close>. Stream-level controllers point to the connection-level one, so
  the controllers live in a store indexed by address and \<open>parent\<close> is an address or NULL. The clock
  behind the \<open>now\<close> callback is an argument, read once per call. The \<open>assert\<close> statements of the code
  check what the lemmas below establish and are not part of the definitions.
\<close>

section \<open>The transmit side\<close>

record QUIC_TXFC =
  tx_parent :: "nat option"
  tx_swm :: u64
  tx_cwm :: u64
  tx_has_become_blocked :: bool

type_synonym txfc_store = "nat \<Rightarrow> QUIC_TXFC"

definition ossl_quic_txfc_init :: "txfc_store \<Rightarrow> nat \<Rightarrow> nat option \<Rightarrow> txfc_store \<times> bool" where
  "ossl_quic_txfc_init h txfc conn_txfc =
     (if (case conn_txfc of None \<Rightarrow> False | Some c \<Rightarrow> tx_parent (h c) \<noteq> None) then (h, False)
      else (h(txfc := \<lparr>tx_parent = conn_txfc, tx_swm = 0, tx_cwm = 0, tx_has_become_blocked = False\<rparr>),
            True))"

definition ossl_quic_txfc_get_parent :: "txfc_store \<Rightarrow> nat \<Rightarrow> nat option" where
  "ossl_quic_txfc_get_parent h txfc = tx_parent (h txfc)"

definition ossl_quic_txfc_bump_cwm :: "txfc_store \<Rightarrow> nat \<Rightarrow> u64 \<Rightarrow> txfc_store \<times> bool" where
  "ossl_quic_txfc_bump_cwm h txfc cwm =
     (if cwm \<le> tx_cwm (h txfc) then (h, False)
      else (h(txfc := (h txfc)\<lparr>tx_cwm := cwm\<rparr>), True))"

definition ossl_quic_txfc_get_credit_local :: "QUIC_TXFC \<Rightarrow> u64 \<Rightarrow> u64" where
  "ossl_quic_txfc_get_credit_local txfc consumed = tx_cwm txfc - (consumed + tx_swm txfc)"

definition ossl_quic_txfc_get_credit :: "txfc_store \<Rightarrow> nat \<Rightarrow> u64 \<Rightarrow> u64" where
  "ossl_quic_txfc_get_credit h txfc consumed =
     (let r = ossl_quic_txfc_get_credit_local (h txfc) 0
      in case tx_parent (h txfc) of
           None \<Rightarrow> r
         | Some p \<Rightarrow>
             let conn_r = ossl_quic_txfc_get_credit_local (h p) consumed
             in if conn_r < r then conn_r else r)"

definition ossl_quic_txfc_consume_credit_local :: "u64 \<Rightarrow> QUIC_TXFC \<Rightarrow> QUIC_TXFC \<times> bool" where
  "ossl_quic_txfc_consume_credit_local num_bytes txfc =
     (let credit = ossl_quic_txfc_get_credit_local txfc 0;
          ok = \<not> num_bytes > credit;
          num_bytes = (if num_bytes > credit then credit else num_bytes);
          txfc = (if num_bytes > 0 \<and> num_bytes = credit then txfc\<lparr>tx_has_become_blocked := True\<rparr>
                  else txfc)
      in (txfc\<lparr>tx_swm := tx_swm txfc + num_bytes\<rparr>, ok))"

definition ossl_quic_txfc_consume_credit :: "txfc_store \<Rightarrow> nat \<Rightarrow> u64 \<Rightarrow> txfc_store \<times> bool" where
  "ossl_quic_txfc_consume_credit h txfc num_bytes =
     (let (r, ok) = ossl_quic_txfc_consume_credit_local num_bytes (h txfc);
          h = h(txfc := r)
      in case tx_parent (h txfc) of
           None \<Rightarrow> (h, ok)
         | Some p \<Rightarrow>
             let (pr, pok) = ossl_quic_txfc_consume_credit_local num_bytes (h p)
             in (h(p := pr), if \<not> pok then False else ok))"

definition ossl_quic_txfc_has_become_blocked :: "txfc_store \<Rightarrow> nat \<Rightarrow> bool \<Rightarrow> txfc_store \<times> bool" where
  "ossl_quic_txfc_has_become_blocked h txfc clear =
     (if clear then h(txfc := (h txfc)\<lparr>tx_has_become_blocked := False\<rparr>) else h,
      tx_has_become_blocked (h txfc))"

definition ossl_quic_txfc_get_cwm :: "txfc_store \<Rightarrow> nat \<Rightarrow> u64" where
  "ossl_quic_txfc_get_cwm h txfc = tx_cwm (h txfc)"

definition ossl_quic_txfc_get_swm :: "txfc_store \<Rightarrow> nat \<Rightarrow> u64" where
  "ossl_quic_txfc_get_swm h txfc = tx_swm (h txfc)"

section \<open>The receive side\<close>

definition OSSL_QUIC_ERR_FLOW_CONTROL_ERROR :: u8 where
  "OSSL_QUIC_ERR_FLOW_CONTROL_ERROR = 3"

definition OSSL_QUIC_ERR_FINAL_SIZE_ERROR :: u8 where
  "OSSL_QUIC_ERR_FINAL_SIZE_ERROR = 6"

record QUIC_RXFC =
  rx_cwm :: u64
  rx_swm :: u64
  rx_rwm :: u64
  rx_esrwm :: u64
  rx_hwm :: u64
  cur_window_size :: u64
  max_window_size :: u64
  epoch_start :: OSSL_TIME
  rx_parent :: "nat option"
  error_code :: u8
  has_cwm_changed :: bool
  rx_is_fin :: bool
  standalone :: bool

type_synonym rxfc_store = "nat \<Rightarrow> QUIC_RXFC"

definition ossl_quic_rxfc_init ::
  "rxfc_store \<Rightarrow> nat \<Rightarrow> nat option \<Rightarrow> u64 \<Rightarrow> u64 \<Rightarrow> rxfc_store \<times> bool" where
  "ossl_quic_rxfc_init h rxfc conn_rxfc initial_window_size max_wnd =
     (if (case conn_rxfc of None \<Rightarrow> False | Some c \<Rightarrow> rx_parent (h c) \<noteq> None) then (h, False)
      else (h(rxfc := \<lparr>rx_cwm = initial_window_size, rx_swm = 0, rx_rwm = 0, rx_esrwm = 0, rx_hwm = 0,
              cur_window_size = initial_window_size, max_window_size = max_wnd,
              epoch_start = ossl_time_zero, rx_parent = conn_rxfc, error_code = 0,
              has_cwm_changed = False, rx_is_fin = False, standalone = False\<rparr>), True))"

definition ossl_quic_rxfc_init_standalone :: "rxfc_store \<Rightarrow> nat \<Rightarrow> u64 \<Rightarrow> rxfc_store \<times> bool" where
  "ossl_quic_rxfc_init_standalone h rxfc initial_window_size =
     (case ossl_quic_rxfc_init h rxfc None initial_window_size initial_window_size of
        (h, ok) \<Rightarrow> if \<not> ok then (h, False) else (h(rxfc := (h rxfc)\<lparr>standalone := True\<rparr>), True))"

definition ossl_quic_rxfc_get_parent :: "rxfc_store \<Rightarrow> nat \<Rightarrow> nat option" where
  "ossl_quic_rxfc_get_parent h rxfc = rx_parent (h rxfc)"

definition ossl_quic_rxfc_set_max_window_size :: "rxfc_store \<Rightarrow> nat \<Rightarrow> u64 \<Rightarrow> rxfc_store" where
  "ossl_quic_rxfc_set_max_window_size h rxfc sz = h(rxfc := (h rxfc)\<lparr>max_window_size := sz\<rparr>)"

definition rxfc_start_epoch :: "OSSL_TIME \<Rightarrow> QUIC_RXFC \<Rightarrow> QUIC_RXFC" where
  "rxfc_start_epoch now rxfc = rxfc\<lparr>epoch_start := now, rx_esrwm := rx_rwm rxfc\<rparr>"

definition on_rx_controlled_bytes :: "u64 \<Rightarrow> QUIC_RXFC \<Rightarrow> QUIC_RXFC \<times> bool" where
  "on_rx_controlled_bytes num_bytes rxfc =
     (let credit = rx_cwm rxfc - rx_swm rxfc
      in if num_bytes > credit
         then (rxfc\<lparr>error_code := OSSL_QUIC_ERR_FLOW_CONTROL_ERROR, rx_swm := rx_swm rxfc + credit\<rparr>,
               False)
         else (rxfc\<lparr>rx_swm := rx_swm rxfc + num_bytes\<rparr>, True))"

definition ossl_quic_rxfc_on_rx_stream_frame ::
  "rxfc_store \<Rightarrow> nat \<Rightarrow> u64 \<Rightarrow> bool \<Rightarrow> rxfc_store \<times> bool" where
  "ossl_quic_rxfc_on_rx_stream_frame h rxfc end' is_fin =
     (let r = h rxfc in
      if \<not> standalone r \<and> rx_parent r = None then (h, False)
      else if rx_is_fin r \<and> (is_fin \<and> rx_hwm r \<noteq> end' \<or> end' > rx_hwm r) then
        (h(rxfc := r\<lparr>error_code := OSSL_QUIC_ERR_FINAL_SIZE_ERROR\<rparr>), True)
      else
        let r = (if is_fin then r\<lparr>rx_is_fin := True\<rparr> else r) in
        if end' > rx_hwm r then
          let delta = end' - rx_hwm r;
              r = r\<lparr>rx_hwm := end'\<rparr>;
              h = h(rxfc := fst (on_rx_controlled_bytes delta r))
          in case rx_parent r of
               None \<Rightarrow> (h, True)
             | Some p \<Rightarrow> (h(p := fst (on_rx_controlled_bytes delta (h p))), True)
        else if end' < rx_hwm r \<and> is_fin then
          (h(rxfc := r\<lparr>error_code := OSSL_QUIC_ERR_FINAL_SIZE_ERROR\<rparr>), True)
        else (h(rxfc := r), True))"

definition WINDOW_THRESHOLD_NUM :: u64 where
  "WINDOW_THRESHOLD_NUM = 3"

definition WINDOW_THRESHOLD_DEN :: u64 where
  "WINDOW_THRESHOLD_DEN = 4"

definition rxfc_cwm_bump_desired :: "QUIC_RXFC \<Rightarrow> bool" where
  "rxfc_cwm_bump_desired rxfc =
     (let window_rem = rx_cwm rxfc - rx_rwm rxfc;
          (threshold, err) =
            safe_muldiv_u64 (cur_window_size rxfc) WINDOW_THRESHOLD_NUM WINDOW_THRESHOLD_DEN;
          threshold = (if err then cur_window_size rxfc div 2 else threshold)
      in \<not> rx_is_fin rxfc \<and> window_rem \<le> threshold)"

definition rxfc_should_bump_window_size :: "OSSL_TIME \<Rightarrow> QUIC_RXFC \<Rightarrow> OSSL_TIME \<Rightarrow> bool" where
  "rxfc_should_bump_window_size now rxfc rtt =
     (let b = rx_rwm rxfc - rx_esrwm rxfc
      in if b = 0 then False
         else
           let dt = ossl_time_subtract now (epoch_start rxfc);
               t_window = ossl_time_muldiv dt (cur_window_size rxfc) b
           in ossl_time_compare t_window (ossl_time_multiply rtt 4) < 0)"

definition rxfc_adjust_window_size :: "OSSL_TIME \<Rightarrow> QUIC_RXFC \<Rightarrow> u64 \<Rightarrow> OSSL_TIME \<Rightarrow> QUIC_RXFC" where
  "rxfc_adjust_window_size now rxfc min_window_size rtt =
     (let w = cur_window_size rxfc;
          w = (if rxfc_should_bump_window_size now rxfc rtt then w * 2 else w);
          w = (if w < min_window_size then min_window_size else w);
          w = (if w > max_window_size rxfc then max_window_size rxfc else w)
      in rxfc_start_epoch now (rxfc\<lparr>cur_window_size := w\<rparr>))"

definition rxfc_update_cwm :: "OSSL_TIME \<Rightarrow> QUIC_RXFC \<Rightarrow> u64 \<Rightarrow> OSSL_TIME \<Rightarrow> QUIC_RXFC" where
  "rxfc_update_cwm now rxfc min_window_size rtt =
     (if \<not> rxfc_cwm_bump_desired rxfc then rxfc
      else
        let rxfc = rxfc_adjust_window_size now rxfc min_window_size rtt;
            new_cwm = rx_rwm rxfc + cur_window_size rxfc
        in if new_cwm > rx_cwm rxfc then rxfc\<lparr>rx_cwm := new_cwm, has_cwm_changed := True\<rparr> else rxfc)"

definition rxfc_on_retire :: "OSSL_TIME \<Rightarrow> QUIC_RXFC \<Rightarrow> u64 \<Rightarrow> u64 \<Rightarrow> OSSL_TIME \<Rightarrow> QUIC_RXFC" where
  "rxfc_on_retire now rxfc num_bytes min_window_size rtt =
     (let rxfc = (if ossl_time_is_zero (epoch_start rxfc) then rxfc_start_epoch now rxfc else rxfc);
          rxfc = rxfc\<lparr>rx_rwm := rx_rwm rxfc + num_bytes\<rparr>
      in rxfc_update_cwm now rxfc min_window_size rtt)"

definition ossl_quic_rxfc_on_retire ::
  "OSSL_TIME \<Rightarrow> rxfc_store \<Rightarrow> nat \<Rightarrow> u64 \<Rightarrow> OSSL_TIME \<Rightarrow> rxfc_store \<times> bool" where
  "ossl_quic_rxfc_on_retire now h rxfc num_bytes rtt =
     (if rx_parent (h rxfc) = None \<and> \<not> standalone (h rxfc) then (h, False)
      else if num_bytes = 0 then (h, True)
      else if rx_rwm (h rxfc) + num_bytes > rx_swm (h rxfc) then (h, False)
      else
        let h = h(rxfc := rxfc_on_retire now (h rxfc) num_bytes 0 rtt)
        in case (if standalone (h rxfc) then None else rx_parent (h rxfc)) of
             None \<Rightarrow> (h, True)
           | Some p \<Rightarrow>
               (h(p := rxfc_on_retire now (h p) num_bytes (cur_window_size (h rxfc)) rtt), True))"

definition ossl_quic_rxfc_get_cwm :: "rxfc_store \<Rightarrow> nat \<Rightarrow> u64" where
  "ossl_quic_rxfc_get_cwm h rxfc = rx_cwm (h rxfc)"

definition ossl_quic_rxfc_get_swm :: "rxfc_store \<Rightarrow> nat \<Rightarrow> u64" where
  "ossl_quic_rxfc_get_swm h rxfc = rx_swm (h rxfc)"

definition ossl_quic_rxfc_get_rwm :: "rxfc_store \<Rightarrow> nat \<Rightarrow> u64" where
  "ossl_quic_rxfc_get_rwm h rxfc = rx_rwm (h rxfc)"

definition ossl_quic_rxfc_get_credit :: "rxfc_store \<Rightarrow> nat \<Rightarrow> u64" where
  "ossl_quic_rxfc_get_credit h rxfc = ossl_quic_rxfc_get_cwm h rxfc - ossl_quic_rxfc_get_swm h rxfc"

definition ossl_quic_rxfc_has_cwm_changed :: "rxfc_store \<Rightarrow> nat \<Rightarrow> bool \<Rightarrow> rxfc_store \<times> bool" where
  "ossl_quic_rxfc_has_cwm_changed h rxfc clear =
     (if clear then h(rxfc := (h rxfc)\<lparr>has_cwm_changed := False\<rparr>) else h, has_cwm_changed (h rxfc))"

definition ossl_quic_rxfc_get_error :: "rxfc_store \<Rightarrow> nat \<Rightarrow> bool \<Rightarrow> rxfc_store \<times> u8" where
  "ossl_quic_rxfc_get_error h rxfc clear =
     (if clear then h(rxfc := (h rxfc)\<lparr>error_code := 0\<rparr>) else h, error_code (h rxfc))"

definition ossl_quic_rxfc_get_final_size :: "rxfc_store \<Rightarrow> nat \<Rightarrow> u64 option" where
  "ossl_quic_rxfc_get_final_size h rxfc =
     (if \<not> rx_is_fin (h rxfc) then None else Some (rx_hwm (h rxfc)))"

section \<open>Credit accounts\<close>

text \<open>
  Both sides keep a spent watermark under a credit watermark. The locale states what taking credit
  promises; the local consumption of the transmit side and the receive accounting are its instances.
\<close>

locale credit_account =
  fixes used :: "'s \<Rightarrow> u64" and limit :: "'s \<Rightarrow> u64" and spend :: "u64 \<Rightarrow> 's \<Rightarrow> 's \<times> bool"
  assumes spend_used: "used s \<le> limit s \<Longrightarrow>
      unat (used (fst (spend n s))) = min (unat (used s) + unat n) (unat (limit s))"
    and spend_limit: "limit (fst (spend n s)) = limit s"
    and spend_ok: "used s \<le> limit s \<Longrightarrow> snd (spend n s) \<longleftrightarrow> unat (used s) + unat n \<le> unat (limit s)"
begin

lemma spend_le: "used s \<le> limit s \<Longrightarrow> used (fst (spend n s)) \<le> limit (fst (spend n s))"
  by (simp add: u64_le_unat spend_used spend_limit)

lemma spend_exact:
  "used s \<le> limit s \<Longrightarrow> snd (spend n s) \<Longrightarrow> unat (used (fst (spend n s))) = unat (used s) + unat n"
  by (simp add: spend_used spend_ok)

lemma spend_many:
  "used s \<le> limit s \<Longrightarrow>
   unat (used (fold (\<lambda>n s. fst (spend n s)) ns s)) = min (unat (used s) + sum_list (map unat ns)) (unat (limit s))"
proof (induction ns arbitrary: s)
  case (Cons n ns)
  with Cons.IH [of "fst (spend n s)"] spend_le [of s n] show ?case
    by (simp add: spend_limit spend_used)
qed (simp add: u64_nat)

end

lemma credit_local_unat:
  "tx_swm f \<le> tx_cwm f \<Longrightarrow> unat (ossl_quic_txfc_get_credit_local f 0) = unat (tx_cwm f) - unat (tx_swm f)"
  by (simp add: ossl_quic_txfc_get_credit_local_def unat_u64_sub)

lemma spend_arith:
  assumes "(swm :: u64) \<le> cwm"
  shows "\<not> n > cwm - swm \<longleftrightarrow> unat swm + unat n \<le> unat cwm"
    "unat (swm + (if n > cwm - swm then cwm - swm else n)) = min (unat swm + unat n) (unat cwm)"
proof -
  have le: "unat swm \<le> unat cwm" using assms by (simp add: u64_nat)
  have s: "unat (cwm - swm) = unat cwm - unat swm" using assms by (rule unat_u64_sub)
  have b: "unat cwm < 18446744073709551616" by simp
  show "\<not> n > cwm - swm \<longleftrightarrow> unat swm + unat n \<le> unat cwm"
    using s le by (auto simp: u64_less_unat)
  show "unat (swm + (if n > cwm - swm then cwm - swm else n)) = min (unat swm + unat n) (unat cwm)"
  proof (cases "unat swm + unat n \<le> unat cwm")
    case True
    from True b have "unat swm + unat n < 18446744073709551616" by (rule le_less_trans)
    with True s show ?thesis by (simp add: u64_less_unat unat_u64_add)
  next
    case False
    with s le show ?thesis by (auto simp: u64_less_unat)
  qed
qed

interpretation txa: credit_account tx_swm tx_cwm ossl_quic_txfc_consume_credit_local
proof
  fix f :: QUIC_TXFC and n :: u64
  show "tx_cwm (fst (ossl_quic_txfc_consume_credit_local n f)) = tx_cwm f"
    by (simp add: ossl_quic_txfc_consume_credit_local_def Let_def)
  assume le: "tx_swm f \<le> tx_cwm f"
  show "unat (tx_swm (fst (ossl_quic_txfc_consume_credit_local n f))) =
      min (unat (tx_swm f) + unat n) (unat (tx_cwm f))"
    unfolding spend_arith(2) [OF le, of n, symmetric]
    by (simp add: ossl_quic_txfc_consume_credit_local_def ossl_quic_txfc_get_credit_local_def Let_def)
  show "snd (ossl_quic_txfc_consume_credit_local n f) \<longleftrightarrow>
      unat (tx_swm f) + unat n \<le> unat (tx_cwm f)"
    using spend_arith(1) [OF le, of n]
    by (simp add: ossl_quic_txfc_consume_credit_local_def ossl_quic_txfc_get_credit_local_def Let_def)
qed

interpretation rxa: credit_account rx_swm rx_cwm on_rx_controlled_bytes
proof
  fix f :: QUIC_RXFC and n :: u64
  show "rx_cwm (fst (on_rx_controlled_bytes n f)) = rx_cwm f"
    by (simp add: on_rx_controlled_bytes_def Let_def)
  assume le: "rx_swm f \<le> rx_cwm f"
  show "unat (rx_swm (fst (on_rx_controlled_bytes n f))) =
      min (unat (rx_swm f) + unat n) (unat (rx_cwm f))"
    using spend_arith(2) [OF le, of n] by (auto simp: on_rx_controlled_bytes_def Let_def)
  show "snd (on_rx_controlled_bytes n f) \<longleftrightarrow> unat (rx_swm f) + unat n \<le> unat (rx_cwm f)"
    using spend_arith(1) [OF le, of n] by (auto simp: on_rx_controlled_bytes_def Let_def)
qed

section \<open>A connection and its streams: sending\<close>

lemma sum_fun_upd:
  fixes g :: "'b \<Rightarrow> nat"
  assumes "finite S" "s \<in> S"
  shows "(\<Sum>x\<in>S. g ((h(s := r)) x)) + g (h s) = (\<Sum>x\<in>S. g (h x)) + g r"
proof -
  have "(\<Sum>x\<in>S - {s}. g ((h(s := r)) x)) = (\<Sum>x\<in>S - {s}. g (h x))"
    by (rule sum.cong) auto
  with assms show ?thesis by (simp add: sum.remove)
qed

lemma sum_gap:
  fixes f g :: "'a \<Rightarrow> nat"
  assumes "finite S" "s \<in> S" "\<And>x. x \<in> S \<Longrightarrow> f x \<le> g x"
  shows "sum f S + g s \<le> f s + sum g S"
  using assms sum_mono [of "S - {s}" f g] by (simp add: sum.remove)

lemma sum_fun_upd_other:
  "c \<notin> S \<Longrightarrow> (\<Sum>x\<in>S. g ((h(c := r)) x)) = (\<Sum>x\<in>S. g (h x))"
  by (rule sum.cong) auto

definition tx_conn_inv :: "txfc_store \<Rightarrow> nat \<Rightarrow> nat set \<Rightarrow> bool" where
  "tx_conn_inv h c S \<longleftrightarrow> finite S \<and> c \<notin> S \<and> tx_parent (h c) = None \<and> tx_swm (h c) \<le> tx_cwm (h c) \<and>
     (\<forall>s\<in>S. tx_parent (h s) = Some c \<and> tx_swm (h s) \<le> tx_cwm (h s)) \<and>
     unat (tx_swm (h c)) = (\<Sum>s\<in>S. unat (tx_swm (h s)))"

datatype tx_op = Tx_Max nat u64 | Tx_Send nat u64

text \<open>A sender asks for the credit before it consumes it, as the packetiser does.\<close>

fun tx_step :: "txfc_store \<Rightarrow> tx_op \<Rightarrow> txfc_store" where
  "tx_step h (Tx_Max a cwm) = fst (ossl_quic_txfc_bump_cwm h a cwm)"
| "tx_step h (Tx_Send s n) =
     (if n \<le> ossl_quic_txfc_get_credit h s 0 then fst (ossl_quic_txfc_consume_credit h s n) else h)"

fun tx_op_ok :: "nat \<Rightarrow> nat set \<Rightarrow> tx_op \<Rightarrow> bool" where
  "tx_op_ok c S (Tx_Max a cwm) \<longleftrightarrow> a = c \<or> a \<in> S"
| "tx_op_ok c S (Tx_Send s n) \<longleftrightarrow> s \<in> S"

lemma consume_local_parent [simp]:
  "tx_parent (fst (ossl_quic_txfc_consume_credit_local n f)) = tx_parent f"
  by (simp add: ossl_quic_txfc_consume_credit_local_def Let_def)

lemma tx_credit_both:
  assumes "tx_conn_inv h c S" "s \<in> S"
  shows "n \<le> ossl_quic_txfc_get_credit h s 0 \<longleftrightarrow>
    unat (tx_swm (h s)) + unat n \<le> unat (tx_cwm (h s)) \<and>
    unat (tx_swm (h c)) + unat n \<le> unat (tx_cwm (h c))"
proof -
  from assms have p: "tx_parent (h s) = Some c" and le: "tx_swm (h s) \<le> tx_cwm (h s)"
    "tx_swm (h c) \<le> tx_cwm (h c)"
    by (auto simp: tx_conn_inv_def)
  then have le': "unat (tx_swm (h s)) \<le> unat (tx_cwm (h s))" "unat (tx_swm (h c)) \<le> unat (tx_cwm (h c))"
    by (simp_all add: u64_nat)
  show ?thesis
    using le le' by (auto simp: ossl_quic_txfc_get_credit_def Let_def p u64_le_unat u64_less_unat credit_local_unat)
qed

lemma tx_consume_eq:
  fixes n :: u64
  assumes "tx_conn_inv h c S" "s \<in> S"
  defines "loc \<equiv> ossl_quic_txfc_consume_credit_local n"
  shows "ossl_quic_txfc_consume_credit h s n =
    (h(s := fst (loc (h s)), c := fst (loc (h c))), snd (loc (h s)) \<and> snd (loc (h c)))"
  using assms
  by (auto simp: ossl_quic_txfc_consume_credit_def tx_conn_inv_def Let_def case_prod_beta)

lemma tx_consume_inv:
  assumes inv: "tx_conn_inv h c S" and s: "s \<in> S" and n: "n \<le> ossl_quic_txfc_get_credit h s 0"
  shows "tx_conn_inv (fst (ossl_quic_txfc_consume_credit h s n)) c S"
    "snd (ossl_quic_txfc_consume_credit h s n)"
proof -
  let ?loc = "ossl_quic_txfc_consume_credit_local n"
  from inv s have le: "tx_swm (h s) \<le> tx_cwm (h s)" "tx_swm (h c) \<le> tx_cwm (h c)" and c: "c \<notin> S" "finite S"
    by (auto simp: tx_conn_inv_def)
  note b = tx_credit_both [OF inv s, THEN iffD1, OF n]
  have ok: "snd (?loc (h s))" "snd (?loc (h c))"
    using b le by (simp_all add: txa.spend_ok)
  then show "snd (ossl_quic_txfc_consume_credit h s n)"
    by (simp add: tx_consume_eq [OF inv s])
  have "unat (tx_swm (fst (?loc (h c)))) = (\<Sum>x\<in>S. unat (tx_swm ((h(s := fst (?loc (h s)))) x)))"
    using sum_fun_upd [OF c(2) s, of "\<lambda>f. unat (tx_swm f)" h "fst (?loc (h s))"] inv
      txa.spend_exact [OF le(1) ok(1)] txa.spend_exact [OF le(2) ok(2)]
    by (simp add: tx_conn_inv_def)
  also have "\<dots> = (\<Sum>x\<in>S. unat (tx_swm ((h(s := fst (?loc (h s)), c := fst (?loc (h c)))) x)))"
    by (rule sum_fun_upd_other [OF c(1), symmetric])
  finally show "tx_conn_inv (fst (ossl_quic_txfc_consume_credit h s n)) c S"
    using inv s c le by (auto simp: tx_consume_eq [OF inv s] tx_conn_inv_def txa.spend_le)
qed

lemma tx_bump_inv:
  assumes inv: "tx_conn_inv h c S" and a: "a = c \<or> a \<in> S"
  shows "tx_conn_inv (fst (ossl_quic_txfc_bump_cwm h a cwm)) c S"
proof (cases "cwm \<le> tx_cwm (h a)")
  case False
  have "(\<Sum>x\<in>S. unat (tx_swm ((h(a := (h a)\<lparr>tx_cwm := cwm\<rparr>)) x))) = (\<Sum>x\<in>S. unat (tx_swm (h x)))"
    by (rule sum.cong) auto
  with False inv a show ?thesis
    by (auto simp: ossl_quic_txfc_bump_cwm_def tx_conn_inv_def intro: order.trans less_imp_le)
qed (use inv in \<open>simp add: ossl_quic_txfc_bump_cwm_def\<close>)

lemma tx_run_inv:
  "tx_conn_inv h c S \<Longrightarrow> list_all (tx_op_ok c S) ops \<Longrightarrow> tx_conn_inv (foldl tx_step h ops) c S"
proof (induction ops arbitrary: h)
  case (Cons x ops)
  then have "tx_conn_inv (tx_step h x) c S"
    by (cases x) (auto simp: tx_bump_inv tx_consume_inv)
  with Cons show ?case by simp
qed simp

section \<open>A connection and its streams: receiving\<close>

lemma controlled_bytes_frame [simp]:
  "rx_parent (fst (on_rx_controlled_bytes n f)) = rx_parent f"
  "standalone (fst (on_rx_controlled_bytes n f)) = standalone f"
  "rx_hwm (fst (on_rx_controlled_bytes n f)) = rx_hwm f"
  "rx_rwm (fst (on_rx_controlled_bytes n f)) = rx_rwm f"
  "max_window_size (fst (on_rx_controlled_bytes n f)) = max_window_size f"
  by (simp_all add: on_rx_controlled_bytes_def Let_def)

lemma controlled_bytes_error:
  "error_code (fst (on_rx_controlled_bytes n f)) =
     (if snd (on_rx_controlled_bytes n f) then error_code f else OSSL_QUIC_ERR_FLOW_CONTROL_ERROR)"
  by (simp add: on_rx_controlled_bytes_def Let_def)

lemma update_cwm_frame [simp]:
  "rx_parent (rxfc_update_cwm now f m rtt) = rx_parent f"
  "standalone (rxfc_update_cwm now f m rtt) = standalone f"
  "rx_hwm (rxfc_update_cwm now f m rtt) = rx_hwm f"
  "rx_swm (rxfc_update_cwm now f m rtt) = rx_swm f"
  "rx_rwm (rxfc_update_cwm now f m rtt) = rx_rwm f"
  "error_code (rxfc_update_cwm now f m rtt) = error_code f"
  "max_window_size (rxfc_update_cwm now f m rtt) = max_window_size f"
  by (simp_all add: rxfc_update_cwm_def rxfc_adjust_window_size_def rxfc_start_epoch_def Let_def)

lemma on_retire_frame [simp]:
  "rx_parent (rxfc_on_retire now f n m rtt) = rx_parent f"
  "standalone (rxfc_on_retire now f n m rtt) = standalone f"
  "rx_hwm (rxfc_on_retire now f n m rtt) = rx_hwm f"
  "rx_swm (rxfc_on_retire now f n m rtt) = rx_swm f"
  "rx_rwm (rxfc_on_retire now f n m rtt) = rx_rwm f + n"
  "error_code (rxfc_on_retire now f n m rtt) = error_code f"
  "max_window_size (rxfc_on_retire now f n m rtt) = max_window_size f"
  by (simp_all add: rxfc_on_retire_def rxfc_start_epoch_def Let_def)

lemma update_cwm_mono: "rx_cwm f \<le> rx_cwm (rxfc_update_cwm now f m rtt)"
proof -
  have "rx_cwm (rxfc_adjust_window_size now f m rtt) = rx_cwm f"
    by (simp add: rxfc_adjust_window_size_def rxfc_start_epoch_def Let_def)
  then show ?thesis by (simp add: rxfc_update_cwm_def Let_def less_imp_le)
qed

lemma on_retire_mono: "rx_cwm f \<le> rx_cwm (rxfc_on_retire now f n m rtt)"
proof -
  let ?g = "(if ossl_time_is_zero (epoch_start f) then rxfc_start_epoch now f else f)
    \<lparr>rx_rwm := rx_rwm f + n\<rparr>"
  have "rx_cwm ?g = rx_cwm f" by (simp add: rxfc_start_epoch_def)
  moreover have "rxfc_on_retire now f n m rtt = rxfc_update_cwm now ?g m rtt"
    by (simp add: rxfc_on_retire_def rxfc_start_epoch_def Let_def)
  ultimately show ?thesis using update_cwm_mono [of ?g now m rtt] by simp
qed

text \<open>The advertised limit stays within the window maximum of what has been retired.\<close>

definition rxfc_bounded :: "QUIC_RXFC \<Rightarrow> bool" where
  "rxfc_bounded f \<longleftrightarrow> rx_rwm f \<le> rx_swm f \<and> rx_swm f \<le> rx_cwm f \<and>
     unat (rx_cwm f) \<le> unat (rx_rwm f) + unat (max_window_size f)"

lemma adjust_window_max: "cur_window_size (rxfc_adjust_window_size now f m rtt) \<le> max_window_size f"
  by (auto simp: rxfc_adjust_window_size_def rxfc_start_epoch_def Let_def)

lemma update_cwm_max:
  "unat (rx_cwm f) \<le> unat (rx_rwm f) + unat (max_window_size f) \<Longrightarrow>
   unat (rx_cwm (rxfc_update_cwm now f m rtt)) \<le> unat (rx_rwm f) + unat (max_window_size f)"
proof -
  assume a: "unat (rx_cwm f) \<le> unat (rx_rwm f) + unat (max_window_size f)"
  let ?g = "rxfc_adjust_window_size now f m rtt"
  have "unat (rx_rwm f + cur_window_size ?g) \<le> unat (rx_rwm f) + unat (cur_window_size ?g)"
    by (simp add: unat_u64_add_mod)
  moreover have "unat (cur_window_size ?g) \<le> unat (max_window_size f)"
    using adjust_window_max [of now f m rtt] by (simp add: u64_nat)
  moreover have "rx_rwm ?g = rx_rwm f" "rx_cwm ?g = rx_cwm f"
    by (simp_all add: rxfc_adjust_window_size_def rxfc_start_epoch_def Let_def)
  ultimately show ?thesis using a by (auto simp: rxfc_update_cwm_def Let_def)
qed

lemma on_retire_bounded:
  assumes "rxfc_bounded f" "unat (rx_rwm f) + unat n \<le> unat (rx_swm f)"
  shows "rxfc_bounded (rxfc_on_retire now f n m rtt)" "unat (rx_rwm f + n) = unat (rx_rwm f) + unat n"
proof -
  have "unat (rx_rwm f) + unat n < 18446744073709551616"
    using assms(2) unat_u64_lt by (rule le_less_trans)
  then show n: "unat (rx_rwm f + n) = unat (rx_rwm f) + unat n" by (rule unat_u64_add)
  let ?g = "(if ossl_time_is_zero (epoch_start f) then rxfc_start_epoch now f else f)
    \<lparr>rx_rwm := rx_rwm f + n\<rparr>"
  have g: "rx_cwm ?g = rx_cwm f" "rx_rwm ?g = rx_rwm f + n" "max_window_size ?g = max_window_size f"
    by (simp_all add: rxfc_start_epoch_def)
  have "rxfc_on_retire now f n m rtt = rxfc_update_cwm now ?g m rtt"
    by (simp add: rxfc_on_retire_def rxfc_start_epoch_def Let_def)
  with update_cwm_max [of ?g now m rtt] assms
  have "unat (rx_cwm (rxfc_on_retire now f n m rtt)) \<le> unat (rx_rwm f + n) + unat (max_window_size f)"
    unfolding g by (simp add: rxfc_bounded_def n)
  with assms on_retire_mono [of f now n m rtt] show "rxfc_bounded (rxfc_on_retire now f n m rtt)"
    by (auto simp: rxfc_bounded_def u64_le_unat n)
qed

lemma controlled_bytes_bounded:
  "rxfc_bounded f \<Longrightarrow> rxfc_bounded (fst (on_rx_controlled_bytes n f))"
  using rxa.spend_le [of f n] rxa.spend_used [of f n]
  by (auto simp: rxfc_bounded_def rxa.spend_limit u64_le_unat)

definition rx_conn_inv :: "rxfc_store \<Rightarrow> nat \<Rightarrow> nat set \<Rightarrow> bool" where
  "rx_conn_inv h c S \<longleftrightarrow> finite S \<and> c \<notin> S \<and> rxfc_bounded (h c) \<and> error_code (h c) = 0 \<and>
     (\<forall>s\<in>S. rx_parent (h s) = Some c \<and> \<not> standalone (h s) \<and> rxfc_bounded (h s) \<and>
        rx_swm (h s) = rx_hwm (h s) \<and> unat (rx_hwm (h s)) < 2 ^ 62 \<and> error_code (h s) = 0) \<and>
     unat (rx_swm (h c)) = (\<Sum>s\<in>S. unat (rx_swm (h s))) \<and>
     unat (rx_rwm (h c)) = (\<Sum>s\<in>S. unat (rx_rwm (h s)))"

datatype rx_op = Rx_Frame nat u64 bool | Rx_Retire nat u64 OSSL_TIME OSSL_TIME

text \<open>One event on a stream; \<open>None\<close> once an error is raised, which makes the channel close.\<close>

fun rx_step :: "nat \<Rightarrow> rxfc_store \<Rightarrow> rx_op \<Rightarrow> rxfc_store option" where
  "rx_step c h (Rx_Frame s end' fin) =
     (let h' = fst (ossl_quic_rxfc_on_rx_stream_frame h s end' fin)
      in if error_code (h' s) \<noteq> 0 \<or> error_code (h' c) \<noteq> 0 then None else Some h')"
| "rx_step c h (Rx_Retire s n rtt now) = Some (fst (ossl_quic_rxfc_on_retire now h s n rtt))"

fun rx_run :: "nat \<Rightarrow> rxfc_store \<Rightarrow> rx_op list \<Rightarrow> rxfc_store option" where
  "rx_run c h [] = Some h"
| "rx_run c h (x # xs) = (case rx_step c h x of None \<Rightarrow> None | Some h' \<Rightarrow> rx_run c h' xs)"

text \<open>
  Events the wire format and the stream layer allow: offsets and lengths are below 2 to the 62.
\<close>

fun rx_op_ok :: "nat set \<Rightarrow> rx_op \<Rightarrow> bool" where
  "rx_op_ok S (Rx_Frame s end' fin) \<longleftrightarrow> s \<in> S \<and> unat end' < 2 ^ 62"
| "rx_op_ok S (Rx_Retire s n rtt now) \<longleftrightarrow> s \<in> S \<and> unat n < 2 ^ 62"

lemma err_nonzero [simp]: "OSSL_QUIC_ERR_FLOW_CONTROL_ERROR \<noteq> 0" "OSSL_QUIC_ERR_FINAL_SIZE_ERROR \<noteq> 0"
  by (simp_all add: OSSL_QUIC_ERR_FLOW_CONTROL_ERROR_def OSSL_QUIC_ERR_FINAL_SIZE_ERROR_def)

text \<open>A frame that raises no error either brings new bytes, within both credits, or none.\<close>

lemma stream_frame_cases:
  assumes inv: "rx_conn_inv h c S" and s: "s \<in> S"
    and res: "fst (ossl_quic_rxfc_on_rx_stream_frame h s end' fin) = h'"
    and ok: "error_code (h' s) = 0" "error_code (h' c) = 0"
  obtains (same) r where "r = (if fin then (h s)\<lparr>rx_is_fin := True\<rparr> else h s)" "h' = h(s := r)"
  | (new) r where "r = (if fin then (h s)\<lparr>rx_is_fin := True\<rparr> else h s)" "rx_hwm (h s) < end'"
    "h' = h(s := fst (on_rx_controlled_bytes (end' - rx_hwm (h s)) (r\<lparr>rx_hwm := end'\<rparr>)),
      c := fst (on_rx_controlled_bytes (end' - rx_hwm (h s)) (h c)))"
    "snd (on_rx_controlled_bytes (end' - rx_hwm (h s)) (r\<lparr>rx_hwm := end'\<rparr>))"
    "snd (on_rx_controlled_bytes (end' - rx_hwm (h s)) (h c))"
proof -
  have sc: "s \<noteq> c" "rx_parent (h s) = Some c" "\<not> standalone (h s)"
    using inv s by (auto simp: rx_conn_inv_def)
  let ?r = "if fin then (h s)\<lparr>rx_is_fin := True\<rparr> else h s"
  show thesis
  proof (cases "rx_hwm (h s) < end'")
    case True
    with res sc ok have "\<not> rx_is_fin (h s)"
      by (auto simp: ossl_quic_rxfc_on_rx_stream_frame_def Let_def)
    with True res sc have "h' = h(s := fst (on_rx_controlled_bytes (end' - rx_hwm (h s)) (?r\<lparr>rx_hwm := end'\<rparr>)),
      c := fst (on_rx_controlled_bytes (end' - rx_hwm (h s)) (h c)))"
      by (auto simp: ossl_quic_rxfc_on_rx_stream_frame_def Let_def)
    with True ok sc show thesis
      by (intro new [of ?r]) (auto simp: controlled_bytes_error split: if_splits)
  next
    case False
    with res sc ok show thesis
      by (intro same [of ?r]) (auto simp: ossl_quic_rxfc_on_rx_stream_frame_def Let_def split: if_splits)
  qed
qed

text \<open>Both sums over the streams follow when one stream and the connection move together.\<close>

lemma rx_conn_invI:
  assumes inv: "rx_conn_inv h c S" and s: "s \<in> S"
    and r: "rx_parent r = Some c" "\<not> standalone r" "rxfc_bounded r" "rx_swm r = rx_hwm r" "error_code r = 0"
      "unat (rx_hwm r) < 2 ^ 62"
    and rc: "rxfc_bounded rc" "error_code rc = 0"
    and swm: "unat (rx_swm r) + unat (rx_swm (h c)) = unat (rx_swm (h s)) + unat (rx_swm rc)"
    and rwm: "unat (rx_rwm r) + unat (rx_rwm (h c)) = unat (rx_rwm (h s)) + unat (rx_rwm rc)"
  shows "rx_conn_inv (h(s := r, c := rc)) c S"
proof -
  from inv have fin: "finite S" and c: "c \<notin> S"
    and sums: "unat (rx_swm (h c)) = (\<Sum>s\<in>S. unat (rx_swm (h s)))"
      "unat (rx_rwm (h c)) = (\<Sum>s\<in>S. unat (rx_rwm (h s)))"
    by (auto simp: rx_conn_inv_def)
  have sum: "(\<Sum>x\<in>S. f ((h(s := r, c := rc)) x)) + f (h s) = (\<Sum>x\<in>S. f (h x)) + f r"
    for f :: "QUIC_RXFC \<Rightarrow> nat"
    unfolding sum_fun_upd_other [OF c] by (rule sum_fun_upd [OF fin s])
  have "unat (rx_swm rc) = (\<Sum>x\<in>S. unat (rx_swm ((h(s := r, c := rc)) x)))"
    using sum [of "\<lambda>f. unat (rx_swm f)"] sums swm by linarith
  moreover have "unat (rx_rwm rc) = (\<Sum>x\<in>S. unat (rx_rwm ((h(s := r, c := rc)) x)))"
    using sum [of "\<lambda>f. unat (rx_rwm f)"] sums rwm by linarith
  ultimately show ?thesis
    using inv r rc c by (auto simp: rx_conn_inv_def)
qed

lemma rx_frame_inv:
  assumes inv: "rx_conn_inv h c S" and s: "s \<in> S" and e: "unat end' < 2 ^ 62"
    and step: "rx_step c h (Rx_Frame s end' fin) = Some h'"
  shows "rx_conn_inv h' c S"
proof -
  from step have res: "fst (ossl_quic_rxfc_on_rx_stream_frame h s end' fin) = h'"
    and ok: "error_code (h' s) = 0" "error_code (h' c) = 0"
    by (auto simp: Let_def split: if_splits)
  from inv s have b: "rxfc_bounded (h s)" "rxfc_bounded (h c)" "c \<notin> S" "error_code (h c) = 0"
    "error_code (h s) = 0" "rx_parent (h s) = Some c" "\<not> standalone (h s)" "rx_swm (h s) = rx_hwm (h s)"
    "unat (rx_hwm (h s)) < 2 ^ 62"
    by (auto simp: rx_conn_inv_def)
  show ?thesis
    using inv s res ok
  proof (cases rule: stream_frame_cases)
    case (same r)
    have "h(s := r, c := h c) = h(s := r)" using b(3) s by (intro ext) auto
    moreover have "rx_conn_inv (h(s := r, c := h c)) c S"
      using b same(1) by (intro rx_conn_invI [OF inv s]) (auto simp: rxfc_bounded_def)
    ultimately show ?thesis using same(2) by simp
  next
    case (new r)
    let ?d = "end' - rx_hwm (h s)" and ?r = "r\<lparr>rx_hwm := end'\<rparr>"
    have r: "rxfc_bounded ?r" "error_code ?r = 0" "rx_parent ?r = Some c" "\<not> standalone ?r"
      "rx_swm ?r = rx_swm (h s)" "rx_rwm ?r = rx_rwm (h s)"
      using b new(1) by (auto simp: rxfc_bounded_def)
    have "rx_swm ?r \<le> rx_cwm ?r" "rx_swm (h c) \<le> rx_cwm (h c)" using r(1) b(2) by (auto simp: rxfc_bounded_def)
    then have sw: "unat (rx_swm (fst (on_rx_controlled_bytes ?d ?r))) = unat (rx_swm (h s)) + unat ?d"
      "unat (rx_swm (fst (on_rx_controlled_bytes ?d (h c)))) = unat (rx_swm (h c)) + unat ?d"
      using new(4,5) rxa.spend_exact [of ?r ?d] rxa.spend_exact [of "h c" ?d] r(5) by auto
    have "unat ?d = unat end' - unat (rx_hwm (h s))" "unat (rx_hwm (h s)) \<le> unat end'"
      using new(2) by (simp_all add: unat_u64_sub less_imp_le u64_nat)
    with sw(1) b(8) have "unat (rx_swm (fst (on_rx_controlled_bytes ?d ?r))) = unat end'" by simp
    then have "rx_swm (fst (on_rx_controlled_bytes ?d ?r)) = end'" by (rule u64_unat_inj)
    then show ?thesis
      unfolding new(3) using r b new(4,5) sw e
      by (intro rx_conn_invI [OF inv s])
        (auto simp: controlled_bytes_bounded controlled_bytes_error)
  qed
qed

lemma rx_retire_inv:
  assumes inv: "rx_conn_inv h c S" and s: "s \<in> S" and n: "unat n < 2 ^ 62"
  shows "rx_conn_inv (fst (ossl_quic_rxfc_on_retire now h s n rtt)) c S"
proof (cases "n = 0 \<or> rx_rwm (h s) + n > rx_swm (h s)")
  case True
  with inv s show ?thesis by (auto simp: ossl_quic_rxfc_on_retire_def rx_conn_inv_def)
next
  case False
  from inv s have b: "rxfc_bounded (h s)" "rxfc_bounded (h c)" "c \<noteq> s" "rx_parent (h s) = Some c"
    "\<not> standalone (h s)" "rx_swm (h s) = rx_hwm (h s)" "unat (rx_hwm (h s)) < 2 ^ 62"
    "error_code (h c) = 0" "error_code (h s) = 0"
    by (auto simp: rx_conn_inv_def)
  have rw: "unat (rx_rwm (h s)) \<le> unat (rx_swm (h s))" using b(1) by (simp add: rxfc_bounded_def u64_nat)
  with b(6,7) n have "unat (rx_rwm (h s) + n) = unat (rx_rwm (h s)) + unat n"
    by (intro unat_u64_add) simp
  with False have st: "unat (rx_rwm (h s)) + unat n \<le> unat (rx_swm (h s))"
    by (simp add: u64_nat)
  have "unat (rx_rwm (h c)) + unat (rx_swm (h s)) \<le> unat (rx_rwm (h s)) + unat (rx_swm (h c))"
  proof -
    have "unat (rx_rwm (h x)) \<le> unat (rx_swm (h x))" if "x \<in> S" for x
      using inv that unfolding rx_conn_inv_def rxfc_bounded_def u64_le_unat by blast
    with sum_gap [of S s "\<lambda>x. unat (rx_rwm (h x))" "\<lambda>x. unat (rx_swm (h x))"] inv s
    show ?thesis unfolding rx_conn_inv_def by presburger
  qed
  with st have ct: "unat (rx_rwm (h c)) + unat n \<le> unat (rx_swm (h c))" by linarith
  let ?r = "rxfc_on_retire now (h s) n 0 rtt"
  let ?rc = "rxfc_on_retire now (h c) n (cur_window_size ?r) rtt"
  have "fst (ossl_quic_rxfc_on_retire now h s n rtt) = h(s := ?r, c := ?rc)"
    using False b by (simp add: ossl_quic_rxfc_on_retire_def Let_def)
  moreover have "rx_conn_inv (h(s := ?r, c := ?rc)) c S"
    using b on_retire_bounded [OF b(1) st] on_retire_bounded [OF b(2) ct]
    by (intro rx_conn_invI [OF inv s]) auto
  ultimately show ?thesis by simp
qed

lemma rx_run_inv:
  "rx_conn_inv h c S \<Longrightarrow> list_all (rx_op_ok S) ops \<Longrightarrow> rx_run c h ops = Some h' \<Longrightarrow> rx_conn_inv h' c S"
proof (induction ops arbitrary: h)
  case (Cons x ops)
  then obtain h1 where h1: "rx_step c h x = Some h1" "rx_run c h1 ops = Some h'"
    by (auto split: option.splits)
  have "rx_conn_inv h1 c S"
    using Cons.prems h1(1) by (cases x) (auto simp: rx_retire_inv simp del: rx_step.simps(1) dest: rx_frame_inv)
  with Cons h1(2) show ?case by simp
qed simp

section \<open>Opening a connection with its streams\<close>

lemma foldl_init_store:
  assumes "\<And>h s. P (h c) \<Longrightarrow> step h s = h(s := v)" "c \<notin> set ss" "P (h c)"
  shows "foldl step h ss = (\<lambda>a. if a \<in> set ss then v else h a)"
  using assms(2,3)
proof (induction ss arbitrary: h)
  case (Cons s ss)
  with Cons.IH [of "h(s := v)"] assms(1) [of h s] show ?case by (auto simp del: fun_upd_apply) auto
qed simp

definition tx_open :: "txfc_store \<Rightarrow> nat \<Rightarrow> nat list \<Rightarrow> txfc_store" where
  "tx_open h c ss =
     foldl (\<lambda>h s. fst (ossl_quic_txfc_init h s (Some c))) (fst (ossl_quic_txfc_init h c None)) ss"

lemma tx_open_inv: "c \<notin> set ss \<Longrightarrow> tx_conn_inv (tx_open h c ss) c (set ss)"
  by (subst tx_open_def, subst foldl_init_store [where P = "\<lambda>f. tx_parent f = None"])
    (auto simp: tx_conn_inv_def ossl_quic_txfc_init_def)

definition rx_open :: "rxfc_store \<Rightarrow> nat \<Rightarrow> u64 \<Rightarrow> u64 \<Rightarrow> nat list \<Rightarrow> u64 \<Rightarrow> u64 \<Rightarrow> rxfc_store" where
  "rx_open h c cw cmax ss w wmax =
     foldl (\<lambda>h s. fst (ossl_quic_rxfc_init h s (Some c) w wmax))
       (fst (ossl_quic_rxfc_init h c None cw cmax)) ss"

definition rxfc_fresh :: "nat option \<Rightarrow> u64 \<Rightarrow> u64 \<Rightarrow> QUIC_RXFC" where
  "rxfc_fresh p w wmax = \<lparr>rx_cwm = w, rx_swm = 0, rx_rwm = 0, rx_esrwm = 0, rx_hwm = 0,
     cur_window_size = w, max_window_size = wmax, epoch_start = ossl_time_zero, rx_parent = p,
     error_code = 0, has_cwm_changed = False, rx_is_fin = False, standalone = False\<rparr>"

lemma rx_open_inv:
  assumes "c \<notin> set ss" "cw \<le> cmax" "w \<le> wmax"
  shows "rx_conn_inv (rx_open h c cw cmax ss w wmax) c (set ss)"
proof -
  have "rx_open h c cw cmax ss w wmax = (\<lambda>a. if a \<in> set ss then rxfc_fresh (Some c) w wmax
      else (h(c := rxfc_fresh None cw cmax)) a)"
    unfolding rx_open_def using assms(1)
    by (subst foldl_init_store [where P = "\<lambda>f. rx_parent f = None"])
      (auto simp: ossl_quic_rxfc_init_def rxfc_fresh_def)
  with assms show ?thesis
    by (auto simp: rx_conn_inv_def rxfc_fresh_def rxfc_bounded_def u64_le_unat)
qed

section \<open>Properties\<close>

text \<open>
  C21: send-side accounting. From fresh controllers, after any interleaving of limit updates and of
  sends that stay within the credit the controller reports, no stream and not the connection has
  sent past its limit, and the connection's sent watermark is the sum of its streams' watermarks.
\<close>

theorem txfc_connection_accounting:
  fixes h :: txfc_store and ops :: "tx_op list"
  assumes "c \<notin> set ss" "list_all (tx_op_ok c (set ss)) ops"
  defines "h' \<equiv> foldl tx_step (tx_open h c ss) ops"
  shows "(\<forall>a. a = c \<or> a \<in> set ss \<longrightarrow> tx_swm (h' a) \<le> tx_cwm (h' a)) \<and>
    unat (tx_swm (h' c)) = (\<Sum>s\<in>set ss. unat (tx_swm (h' s)))"
  using tx_run_inv [OF tx_open_inv [OF assms(1)] assms(2), of h]
  by (auto simp: h'_def tx_conn_inv_def)

definition tx_none :: txfc_store where
  "tx_none = (\<lambda>_. \<lparr>tx_parent = None, tx_swm = 0, tx_cwm = 0, tx_has_become_blocked = False\<rparr>)"

theorem txfc_connection_accounting_witness:
  "unat (tx_swm (foldl tx_step (tx_open tx_none 0 [1, 2])
     [Tx_Max 0 100, Tx_Max 1 50, Tx_Max 2 80, Tx_Send 1 30, Tx_Send 2 70] 0)) =
   (\<Sum>s\<in>{1, 2}. unat (tx_swm (foldl tx_step (tx_open tx_none 0 [1, 2])
     [Tx_Max 0 100, Tx_Max 1 50, Tx_Max 2 80, Tx_Send 1 30, Tx_Send 2 70] s)))"
  using txfc_connection_accounting [of 0 "[1, 2]"
    "[Tx_Max 0 100, Tx_Max 1 50, Tx_Max 2 80, Tx_Send 1 30, Tx_Send 2 70]" tx_none]
  by (simp del: tx_step.simps)

text \<open>
  C22: what consuming credit does on every branch. It succeeds exactly when the amount is within the
  reported credit; otherwise the stream and the connection are clamped to their limits.
\<close>

theorem txfc_consume_outcome:
  fixes h :: txfc_store and n :: u64
  assumes "tx_conn_inv h c S" "s \<in> S"
  defines "h' \<equiv> fst (ossl_quic_txfc_consume_credit h s n)"
  shows "(snd (ossl_quic_txfc_consume_credit h s n) \<longleftrightarrow> n \<le> ossl_quic_txfc_get_credit h s 0) \<and>
    (\<forall>a\<in>{s, c}. unat (tx_swm (h' a)) = min (unat (tx_swm (h a)) + unat n) (unat (tx_cwm (h a))))"
proof -
  from assms have "tx_swm (h s) \<le> tx_cwm (h s)" "tx_swm (h c) \<le> tx_cwm (h c)" "c \<noteq> s"
    by (auto simp: tx_conn_inv_def)
  then show ?thesis
    by (simp add: h'_def tx_consume_eq [OF assms(1,2)] tx_credit_both [OF assms(1,2)] txa.spend_ok
        txa.spend_used)
qed

theorem txfc_consume_outcome_witness:
  "snd (ossl_quic_txfc_consume_credit (tx_open tx_none 0 [1]) 1 0) \<longleftrightarrow>
     0 \<le> ossl_quic_txfc_get_credit (tx_open tx_none 0 [1]) 1 0"
  using txfc_consume_outcome [OF tx_open_inv [of 0 "[1]" tx_none], of 1 0] by simp

text \<open>
  C23: receive-side accounting. From fresh controllers, as long as no error has been raised, the
  connection's received and retired watermarks are the sums of its streams'. Every stream's
  received watermark is the highest offset seen, and no more than \<open>max_window_size\<close> bytes are
  received and not yet retired, on a stream or on the connection.
\<close>

theorem rxfc_connection_accounting:
  assumes "c \<notin> set ss" "cw \<le> cmax" "w \<le> wmax" "list_all (rx_op_ok (set ss)) ops"
    "rx_run c (rx_open h c cw cmax ss w wmax) ops = Some h'"
  shows "unat (rx_swm (h' c)) = (\<Sum>s\<in>set ss. unat (rx_hwm (h' s))) \<and>
    unat (rx_rwm (h' c)) = (\<Sum>s\<in>set ss. unat (rx_rwm (h' s))) \<and>
    (\<forall>a. a = c \<or> a \<in> set ss \<longrightarrow>
       rx_swm (h' a) \<le> rx_cwm (h' a) \<and>
       unat (rx_swm (h' a)) - unat (rx_rwm (h' a)) \<le> unat (max_window_size (h' a)))"
proof -
  have inv: "rx_conn_inv h' c (set ss)"
    using rx_run_inv [OF rx_open_inv [OF assms(1-3)] assms(4,5)] .
  have "(\<Sum>s\<in>set ss. unat (rx_hwm (h' s))) = (\<Sum>s\<in>set ss. unat (rx_swm (h' s)))"
    using inv by (intro sum.cong) (auto simp: rx_conn_inv_def)
  with inv show ?thesis
    by (auto simp: rx_conn_inv_def rxfc_bounded_def u64_le_unat)
qed

definition rx_none :: rxfc_store where
  "rx_none = (\<lambda>_. rxfc_fresh None 0 0)"

theorem rxfc_connection_accounting_witness:
  "\<exists>h'. rx_run 0 (rx_open rx_none 0 100 200 [1] 50 60) [Rx_Frame 1 30 True, Rx_Retire 1 20 5 7] = Some h' \<and>
    unat (rx_swm (h' 0)) = unat (rx_hwm (h' 1))"
proof -
  have "rx_open rx_none 0 100 200 [1] 50 60 =
      rx_none(0 := rxfc_fresh None 100 200, 1 := rxfc_fresh (Some 0) 50 60)"
    by (simp add: rx_open_def ossl_quic_rxfc_init_def rx_none_def rxfc_fresh_def)
  then obtain h' where h': "rx_run 0 (rx_open rx_none 0 100 200 [1] 50 60)
      [Rx_Frame 1 30 True, Rx_Retire 1 20 5 7] = Some h'"
    by (simp add: ossl_quic_rxfc_on_rx_stream_frame_def on_rx_controlled_bytes_def rxfc_fresh_def)
  from rxfc_connection_accounting [of 0 "[1]", OF _ _ _ _ h'] h' show ?thesis by simp
qed

text \<open>
  C24: violations by the peer are detected exactly. A stream frame raises an error if and only if it
  contradicts the final size or carries the stream past its limit or the connection past its limit.
\<close>

theorem rxfc_violation_detected:
  assumes "rx_conn_inv h c S" "s \<in> S"
  shows "rx_step c h (Rx_Frame s end' fin) = None \<longleftrightarrow>
    (rx_is_fin (h s) \<and> end' > rx_hwm (h s)) \<or> (rx_is_fin (h s) \<and> fin \<and> end' \<noteq> rx_hwm (h s)) \<or>
    (fin \<and> end' < rx_hwm (h s)) \<or>
    unat end' > unat (rx_cwm (h s)) \<or>
    unat (rx_swm (h c)) + (unat end' - unat (rx_hwm (h s))) > unat (rx_cwm (h c))"
proof -
  from assms have b: "rx_parent (h s) = Some c" "\<not> standalone (h s)" "c \<noteq> s" "error_code (h s) = 0"
    "error_code (h c) = 0" "rx_swm (h s) = rx_hwm (h s)" and le: "rx_swm (h s) \<le> rx_cwm (h s)"
    "rx_swm (h c) \<le> rx_cwm (h c)"
    by (auto simp: rx_conn_inv_def rxfc_bounded_def)
  from le b(6) have le': "unat (rx_hwm (h s)) \<le> unat (rx_cwm (h s))" "unat (rx_swm (h c)) \<le> unat (rx_cwm (h c))"
    by (simp_all add: u64_nat)
  show ?thesis
  proof (cases "rx_hwm (h s) < end'")
    case True
    let ?d = "end' - rx_hwm (h s)"
    let ?r = "(if fin then (h s)\<lparr>rx_is_fin := True\<rparr> else h s)\<lparr>rx_hwm := end'\<rparr>"
    have d: "unat ?d = unat end' - unat (rx_hwm (h s))" "unat (rx_hwm (h s)) \<le> unat end'"
      using True by (simp_all add: unat_u64_sub less_imp_le u64_nat)
    have ok: "snd (on_rx_controlled_bytes ?d ?r) \<longleftrightarrow> unat end' \<le> unat (rx_cwm (h s))"
      "snd (on_rx_controlled_bytes ?d (h c)) \<longleftrightarrow> unat (rx_swm (h c)) + unat ?d \<le> unat (rx_cwm (h c))"
      using rxa.spend_ok [of ?r ?d] rxa.spend_ok [of "h c" ?d] le d b(6) by simp_all
    show ?thesis
    proof (cases "rx_is_fin (h s)")
      case False
      with True b have "fst (ossl_quic_rxfc_on_rx_stream_frame h s end' fin) =
          h(s := fst (on_rx_controlled_bytes ?d ?r), c := fst (on_rx_controlled_bytes ?d (h c)))"
        by (simp add: ossl_quic_rxfc_on_rx_stream_frame_def Let_def)
      with False True b ok d show ?thesis by (auto simp: controlled_bytes_error)
    qed (use True b in \<open>simp add: ossl_quic_rxfc_on_rx_stream_frame_def Let_def\<close>)
  next
    case False
    then have "unat end' \<le> unat (rx_hwm (h s))" by (simp add: u64_nat)
    with False b le' show ?thesis
      by (auto simp: ossl_quic_rxfc_on_rx_stream_frame_def Let_def)
  qed
qed

theorem rxfc_violation_detected_witness:
  "rx_step 0 (rx_open rx_none 0 100 200 [1] 50 60) (Rx_Frame 1 51 False) = None \<longleftrightarrow> (51 :: nat) > 50"
  using rxfc_violation_detected [OF rx_open_inv [of 0 "[1]" 100 200 50 60 rx_none], of 1 51 False]
  by (simp add: rx_open_def ossl_quic_rxfc_init_def rx_none_def rxfc_fresh_def del: rx_step.simps)

end
