(* ===== verification/Uint_Set.thy ===== *)
theory Uint_Set
  imports Quic_Prelude
begin

text \<open>
  Integer sets kept as ranges: \<open>ssl/quic/uint_set.c\<close>. The doubly linked list is a list of ranges in
  list order. A walk from the tail towards the head is a recursion over a reversed prefix whose
  head is the node the C variable \<open>z\<close> points to; the nodes already passed form the suffix.

  The allocator is the argument \<open>mem_ok\<close>: whether \<open>OPENSSL_malloc\<close> succeeds in the call. No operation
  allocates more than one node. \<open>ossl_uint_set_remove\<close> does not check the node it allocates, so its
  result is \<open>None\<close> where the code dereferences NULL.
\<close>

section \<open>The code\<close>

record UINT_RANGE =
  r_start :: u64
  r_end :: u64

type_synonym UINT_SET = "UINT_RANGE list"

definition ossl_uint_set_init :: UINT_SET where
  "ossl_uint_set_init = []"

text \<open>
  Destroying a set frees its nodes and leaves the list header as it is. The model keeps the ranges;
  the code must not look at a set after this call.
\<close>

definition ossl_uint_set_destroy :: "UINT_SET \<Rightarrow> UINT_SET" where
  "ossl_uint_set_destroy s = s"

definition uint_range_overlaps :: "UINT_RANGE \<Rightarrow> UINT_RANGE \<Rightarrow> bool" where
  "uint_range_overlaps a b \<longleftrightarrow>
     u64_min (r_end a) (r_end b) \<ge> u64_max (r_start a) (r_start b)"

definition create_set_item :: "bool \<Rightarrow> u64 \<Rightarrow> u64 \<Rightarrow> UINT_RANGE option" where
  "create_set_item mem_ok s e = (if mem_ok then Some \<lparr>r_start = s, r_end = e\<rparr> else None)"

text \<open>\<open>pre\<close> holds the nodes before \<open>x\<close>, nearest first, and \<open>sfx\<close> the nodes after it.\<close>

definition uint_set_merge_adjacent ::
  "UINT_RANGE list \<Rightarrow> UINT_RANGE \<Rightarrow> UINT_RANGE list \<Rightarrow> UINT_SET" where
  "uint_set_merge_adjacent pre x sfx =
     (case pre of
        [] \<Rightarrow> x # sfx
      | xprev # pre' \<Rightarrow>
          if r_start x - 1 \<noteq> r_end xprev then rev pre @ x # sfx
          else rev pre' @ x\<lparr>r_start := r_start xprev\<rparr> # sfx)"

text \<open>The inner loop of the overlap case: the earliest range that overlaps, and what precedes it.\<close>

fun earliest_overlap ::
  "UINT_RANGE list \<Rightarrow> UINT_RANGE \<Rightarrow> UINT_RANGE \<Rightarrow> UINT_RANGE \<times> UINT_RANGE list" where
  "earliest_overlap [] z rg = (z, [])"
| "earliest_overlap (zprev # pre) z rg =
     (if uint_range_overlaps zprev rg then earliest_overlap pre zprev rg
      else (z, zprev # pre))"

fun insert_walk ::
  "bool \<Rightarrow> UINT_RANGE list \<Rightarrow> UINT_RANGE list \<Rightarrow> UINT_RANGE \<Rightarrow> UINT_SET \<times> bool" where
  "insert_walk mem_ok [] sfx rg = (sfx, True)"
| "insert_walk mem_ok (z # pre) sfx rg =
     (let start = r_start rg; end' = r_end rg in
      if r_start z \<le> start \<and> r_end z \<ge> end' then (rev pre @ z # sfx, True)
      else if uint_range_overlaps z rg then
        (case earliest_overlap pre z rg of (z', pre') \<Rightarrow>
          (rev pre' @ z\<lparr>r_end := u64_max end' (r_end z), r_start := u64_min start (r_start z')\<rparr> # sfx,
           True))
      else if end' < r_start z \<and> (pre = [] \<or> start > r_end (hd pre)) then
        (if r_start z = end' + 1 then
           (uint_set_merge_adjacent pre (z\<lparr>r_start := start\<rparr>) sfx, True)
         else if pre \<noteq> [] \<and> r_end (hd pre) + 1 = start then
           (uint_set_merge_adjacent ((hd pre)\<lparr>r_end := end'\<rparr> # tl pre) z sfx, True)
         else case create_set_item mem_ok start end' of
             None \<Rightarrow> (rev pre @ z # sfx, False)
           | Some x \<Rightarrow> (rev pre @ x # z # sfx, True))
      else insert_walk mem_ok pre (z # sfx) rg)"

definition ossl_uint_set_insert :: "bool \<Rightarrow> UINT_SET \<Rightarrow> UINT_RANGE \<Rightarrow> UINT_SET \<times> bool" where
  "ossl_uint_set_insert mem_ok s rg =
     (let start = r_start rg; end' = r_end rg in
      if \<not> start \<le> end' then (s, False)
      else if s = [] then
        (case create_set_item mem_ok start end' of
           None \<Rightarrow> (s, False)
         | Some x \<Rightarrow> ([x], True))
      else let z = last s; f = hd s in
        if start > r_end z then
          (if r_end z + 1 = start then (butlast s @ [z\<lparr>r_end := end'\<rparr>], True)
           else case create_set_item mem_ok start end' of
               None \<Rightarrow> (s, False)
             | Some x \<Rightarrow> (s @ [x], True))
        else if start \<le> r_start f \<and> end' \<ge> r_end z then
          ([f\<lparr>r_start := start, r_end := end'\<rparr>], True)
        else if end' < r_start f then insert_walk mem_ok [f] (tl s) rg
        else insert_walk mem_ok (rev s) [] rg)"

fun remove_walk :: "bool \<Rightarrow> UINT_RANGE list \<Rightarrow> UINT_RANGE list \<Rightarrow> UINT_RANGE \<Rightarrow> UINT_SET option" where
  "remove_walk mem_ok [] sfx rg = Some sfx"
| "remove_walk mem_ok (z # pre) sfx rg =
     (let start = r_start rg; end' = r_end rg in
      if start > r_end z then Some (rev pre @ z # sfx)
      else if start \<le> r_start z \<and> end' \<ge> r_end z then remove_walk mem_ok pre sfx rg
      else if start \<le> r_start z \<and> end' \<ge> r_start z then
        remove_walk mem_ok pre (z\<lparr>r_start := end' + 1\<rparr> # sfx) rg
      else if end' \<ge> r_end z then Some (rev pre @ z\<lparr>r_end := start - 1\<rparr> # sfx)
      else if start > r_start z \<and> end' < r_end z then
        (case create_set_item mem_ok (end' + 1) (r_end z) of
           None \<Rightarrow> None
         | Some y \<Rightarrow> Some (rev pre @ z\<lparr>r_end := start - 1\<rparr> # y # sfx))
      else remove_walk mem_ok pre (z # sfx) rg)"

definition ossl_uint_set_remove :: "bool \<Rightarrow> UINT_SET \<Rightarrow> UINT_RANGE \<Rightarrow> (UINT_SET \<times> bool) option" where
  "ossl_uint_set_remove mem_ok s rg =
     (if \<not> r_start rg \<le> r_end rg then Some (s, False)
      else map_option (\<lambda>s'. (s', True)) (remove_walk mem_ok (rev s) [] rg))"

fun query_walk :: "UINT_RANGE list \<Rightarrow> u64 \<Rightarrow> bool" where
  "query_walk [] v = False"
| "query_walk (x # pre) v =
     (if r_start x \<le> v \<and> r_end x \<ge> v then True
      else if r_end x < v then False
      else query_walk pre v)"

definition ossl_uint_set_query :: "UINT_SET \<Rightarrow> u64 \<Rightarrow> bool" where
  "ossl_uint_set_query s v = (if s = [] then False else query_walk (rev s) v)"

section \<open>What a list of ranges denotes\<close>

definition range_set :: "UINT_RANGE \<Rightarrow> u64 set" where
  "range_set r = {r_start r..r_end r}"

definition uint_set_members :: "UINT_SET \<Rightarrow> u64 set" where
  "uint_set_members s = \<Union> (range_set ` set s)"

text \<open>The invariants of the source comment, the one about bordering ranges apart.\<close>

definition uint_set_inv :: "UINT_SET \<Rightarrow> bool" where
  "uint_set_inv s \<longleftrightarrow>
     list_all (\<lambda>r. r_start r \<le> r_end r) s \<and> sorted_wrt (\<lambda>a b. r_end a < r_start b) s"

text \<open>The invariant about bordering ranges.\<close>

definition uint_set_gaps :: "UINT_SET \<Rightarrow> bool" where
  "uint_set_gaps s \<longleftrightarrow> successively (\<lambda>a b. r_end a + 1 \<noteq> r_start b) s"

lemma uint_set_members_simps [simp]:
  "uint_set_members [] = {}"
  "uint_set_members (r # s) = range_set r \<union> uint_set_members s"
  "uint_set_members (s @ t) = uint_set_members s \<union> uint_set_members t"
  "uint_set_members (rev s) = uint_set_members s"
  by (auto simp: uint_set_members_def)

lemma in_range_set: "v \<in> range_set r \<longleftrightarrow> r_start r \<le> v \<and> v \<le> r_end r"
  by (simp add: range_set_def)

lemma in_uint_set_members: "v \<in> uint_set_members s \<longleftrightarrow> (\<exists>r\<in>set s. r_start r \<le> v \<and> v \<le> r_end r)"
  by (auto simp: uint_set_members_def range_set_def)

lemma uint_set_inv_simps [simp]:
  "uint_set_inv []"
  "uint_set_inv (r # s) \<longleftrightarrow>
     r_start r \<le> r_end r \<and> (\<forall>x\<in>set s. r_end r < r_start x) \<and> uint_set_inv s"
  "uint_set_inv (s @ t) \<longleftrightarrow>
     uint_set_inv s \<and> uint_set_inv t \<and> (\<forall>x\<in>set s. \<forall>y\<in>set t. r_end x < r_start y)"
  by (auto simp: uint_set_inv_def sorted_wrt_append list_all_iff)

section \<open>Insertion\<close>

lemma uint_range_overlaps_iff [helper_simps]:
  "uint_range_overlaps a b \<longleftrightarrow>
     r_start a \<le> r_end a \<and> r_start b \<le> r_end b \<and> r_start a \<le> r_end b \<and> r_start b \<le> r_end a"
  by (auto simp: uint_range_overlaps_def helper_simps)

lemma earliest_overlap_split:
  "earliest_overlap pre z rg = (z', pre') \<Longrightarrow>
   \<exists>mid. pre = mid @ pre' \<and> (\<forall>x\<in>set mid. uint_range_overlaps x rg) \<and> z' = last (z # mid) \<and>
     (pre' \<noteq> [] \<longrightarrow> \<not> uint_range_overlaps (hd pre') rg)"
proof (induction pre z rg arbitrary: z' pre' rule: earliest_overlap.induct)
  case (2 zprev pre z rg)
  show ?case
  proof (cases "uint_range_overlaps zprev rg")
    case True
    with "2.prems" "2.IH" [OF True, of z' pre'] obtain mid where
      "pre = mid @ pre'" "\<forall>x\<in>set mid. uint_range_overlaps x rg" "z' = last (zprev # mid)"
      "pre' \<noteq> [] \<longrightarrow> \<not> uint_range_overlaps (hd pre') rg"
      by auto
    with True show ?thesis by (intro exI [of _ "zprev # mid"]) auto
  qed (use "2.prems" in auto)
qed auto

lemma overlap_hull:
  assumes inv: "uint_set_inv (rev mid @ [z])"
    and ov: "\<forall>x\<in>set (z # mid). uint_range_overlaps x rg"
  shows "{min (r_start rg) (r_start (last (z # mid)))..max (r_end rg) (r_end z)} =
    range_set rg \<union> uint_set_members (rev mid @ [z])" (is "{?lo..?hi} = _")
proof -
  let ?z' = "last (z # mid)"
  have z': "?z' \<in> set (z # mid)" by (rule last_in_set) simp
  have lo: "r_start ?z' \<le> r_start x" if "x \<in> set (z # mid)" for x
    using inv that by (cases mid rule: rev_cases) (force simp: less_imp_le intro: order.trans)+
  have hi: "r_end x \<le> r_end z" if "x \<in> set (z # mid)" for x
    using inv that by (force simp: less_imp_le intro: order.trans)
  have ovl: "r_start x \<le> r_end rg \<and> r_start rg \<le> r_end x" if "x \<in> set (z # mid)" for x
    using ov that by (auto simp: helper_simps)
  have "v \<in> {?lo..?hi} \<longleftrightarrow> v \<in> range_set rg \<or> (\<exists>x\<in>set (z # mid). v \<in> range_set x)" for v
    using ovl [OF z'] ovl [of z] z' lo hi
    by (auto simp: in_range_set min_le_iff_disj le_max_iff_disj simp del: last.simps list.set
        intro: order.trans)
       (metis list.set_intros(1) linear order.trans)+
  then show ?thesis
    by (auto simp: uint_set_members_def)
qed


text \<open>
  What an insertion owes its caller: on success the union, on failure, which needs an allocation to
  fail, the set as it was.
\<close>

definition insert_spec :: "bool \<Rightarrow> UINT_SET \<Rightarrow> UINT_RANGE \<Rightarrow> UINT_SET \<times> bool \<Rightarrow> bool" where
  "insert_spec mem_ok s rg res \<longleftrightarrow>
     (if snd res then uint_set_inv (fst res) \<and>
        uint_set_members (fst res) = uint_set_members s \<union> range_set rg
      else \<not> mem_ok \<and> fst res = s)"

lemma insert_overlap:
  assumes inv: "uint_set_inv (rev pre @ z # sfx)"
    and sfx: "\<forall>x\<in>set sfx. r_end rg < r_start x"
    and ov: "uint_range_overlaps z rg"
    and eo: "earliest_overlap pre z rg = (z', pre')"
  defines "n \<equiv> z\<lparr>r_end := u64_max (r_end rg) (r_end z), r_start := u64_min (r_start rg) (r_start z')\<rparr>"
  shows "insert_spec mem_ok (rev pre @ z # sfx) rg (rev pre' @ n # sfx, True)"
proof -
  from earliest_overlap_split [OF eo] obtain mid where mid: "pre = mid @ pre'"
    "\<forall>x\<in>set mid. uint_range_overlaps x rg" "z' = last (z # mid)"
    and no: "pre' \<noteq> [] \<longrightarrow> \<not> uint_range_overlaps (hd pre') rg" by blast
  have hull: "range_set n = range_set rg \<union> uint_set_members (rev mid @ [z])"
    using overlap_hull [of mid z rg] inv mid ov
    by (auto simp: n_def range_set_def helper_simps)
  have z': "z' \<in> set (z # mid)" unfolding mid(3) by (rule last_in_set) simp
  have ovz': "uint_range_overlaps z' rg" using z' mid(2) ov by auto
  have below: "r_end x < r_start z'" if "x \<in> set pre'" for x
    using inv z' that by (auto simp: mid(1))
  have "r_end x < r_start rg" if x: "x \<in> set pre'" for x
  proof -
    from x obtain h t where pre': "pre' = h # t" by (cases pre') auto
    have "r_end x \<le> r_end h" "r_start h \<le> r_end h"
      using inv x by (auto simp: mid(1) pre' intro: order.trans less_imp_le)
    moreover have "r_end h < r_start rg"
      using no ovz' below [of h] \<open>r_start h \<le> r_end h\<close>
      by (auto simp: pre' helper_simps not_le dest: order.strict_trans1)
    ultimately show ?thesis by simp
  qed
  with below ovz' ov sfx inv show ?thesis
    using hull by (auto simp: insert_spec_def n_def mid(1) helper_simps min_le_iff_disj le_max_iff_disj)
qed

lemma bordering_union:
  fixes s e t :: u64
  assumes "s \<le> e" "e < e + 1" "e + 1 \<le> t"
  shows "{s..e} \<union> {e + 1..t} = {s..t}"
proof -
  from assms(2) have e: "unat (e + 1) = unat e + 1" by (rule unat_u64_succ)
  have "\<forall>v. v \<le> e \<or> e + 1 \<le> v"
    unfolding u64_le_unat e by (auto simp: not_le)
  with assms show ?thesis by (auto intro: order.trans less_imp_le)
qed

lemma merge_adjacent_spec:
  assumes "uint_set_inv (rev pre @ x # sfx)"
  shows "uint_set_inv (uint_set_merge_adjacent pre x sfx)"
    "uint_set_members (uint_set_merge_adjacent pre x sfx) = uint_set_members (rev pre @ x # sfx)"
proof -
  have *: "{r_start p..r_end p} \<union> {r_start x..r_end x} = {r_start p..r_end x}"
    if "pre = p # pre'" "r_start x - 1 = r_end p" for p pre'
    using that assms bordering_union [of "r_start p" "r_end p" "r_end x"]
    by (auto simp: that(2) [symmetric])
  show "uint_set_inv (uint_set_merge_adjacent pre x sfx)"
    using assms by (auto simp: uint_set_merge_adjacent_def split: list.split
      intro: order.strict_trans1 order.trans less_imp_le)
  show "uint_set_members (uint_set_merge_adjacent pre x sfx) = uint_set_members (rev pre @ x # sfx)"
    using * by (auto simp: uint_set_merge_adjacent_def range_set_def split: list.split)
qed

lemma insert_walk_dwarfed:
  "r_start z \<le> r_start rg \<Longrightarrow> r_end rg \<le> r_end z \<Longrightarrow>
   insert_walk mem_ok (z # pre) sfx rg = (rev pre @ z # sfx, True)"
  by simp

lemma insert_walk_gap:
  assumes "r_start rg \<le> r_end rg" "r_end rg < r_start z" "pre = [] \<or> r_start rg > r_end (hd pre)"
  shows "insert_walk mem_ok (z # pre) sfx rg =
    (if r_start z = r_end rg + 1 then
       (uint_set_merge_adjacent pre (z\<lparr>r_start := r_start rg\<rparr>) sfx, True)
     else if pre \<noteq> [] \<and> r_end (hd pre) + 1 = r_start rg then
       (uint_set_merge_adjacent ((hd pre)\<lparr>r_end := r_end rg\<rparr> # tl pre) z sfx, True)
     else case create_set_item mem_ok (r_start rg) (r_end rg) of
         None \<Rightarrow> (rev pre @ z # sfx, False)
       | Some x \<Rightarrow> (rev pre @ x # z # sfx, True))"
proof -
  from assms have "\<not> (r_start z \<le> r_start rg \<and> r_end z \<ge> r_end rg)" "\<not> uint_range_overlaps z rg"
    by (auto simp: helper_simps)
  with assms show ?thesis
    by (subst insert_walk.simps) (simp only: Let_def if_True if_False simp_thms)
qed

lemma insert_walk_next:
  assumes "r_start rg \<le> r_end rg" "r_end rg < r_start z" "r_start rg \<le> r_end p"
  shows "insert_walk mem_ok (z # p # pre) sfx rg = insert_walk mem_ok (p # pre) (z # sfx) rg"
proof -
  from assms have "\<not> (r_start z \<le> r_start rg \<and> r_end z \<ge> r_end rg)" "\<not> uint_range_overlaps z rg"
    "\<not> r_end p < r_start rg"
    by (auto simp: helper_simps)
  with assms show ?thesis
    by (subst insert_walk.simps) (simp only: Let_def if_True if_False simp_thms list.sel list.distinct)
qed

lemma insert_gap:
  assumes inv: "uint_set_inv (rev pre @ z # sfx)" and le: "r_start rg \<le> r_end rg"
    and gap: "r_end rg < r_start z" "pre = [] \<or> r_start rg > r_end (hd pre)"
  shows "insert_spec mem_ok (rev pre @ z # sfx) rg
    (if r_start z = r_end rg + 1 then
       (uint_set_merge_adjacent pre (z\<lparr>r_start := r_start rg\<rparr>) sfx, True)
     else if pre \<noteq> [] \<and> r_end (hd pre) + 1 = r_start rg then
       (uint_set_merge_adjacent ((hd pre)\<lparr>r_end := r_end rg\<rparr> # tl pre) z sfx, True)
     else case create_set_item mem_ok (r_start rg) (r_end rg) of
         None \<Rightarrow> (rev pre @ z # sfx, False)
       | Some x \<Rightarrow> (rev pre @ x # z # sfx, True))"
proof -
  have pre: "r_end x < r_start rg" if "x \<in> set pre" for x
    using that inv gap(2) by (cases pre) (auto intro: order.strict_trans order.strict_trans1)
  consider "r_start z = r_end rg + 1"
    | p pre' where "r_start z \<noteq> r_end rg + 1" "pre = p # pre'" "r_end p + 1 = r_start rg"
    | "r_start z \<noteq> r_end rg + 1" "\<not> (pre \<noteq> [] \<and> r_end (hd pre) + 1 = r_start rg)"
    by (cases pre) auto
  then show ?thesis
  proof cases
    case 1
    let ?z = "z\<lparr>r_start := r_start rg\<rparr>"
    have "uint_set_inv (rev pre @ ?z # sfx)"
      using inv pre le gap(1) by (auto intro: order.trans less_imp_le)
    moreover have "range_set ?z = range_set rg \<union> range_set z"
      using bordering_union [of "r_start rg" "r_end rg" "r_end z"] 1 le gap(1) inv
      by (auto simp: range_set_def)
    ultimately show ?thesis
      using 1 by (auto simp: insert_spec_def merge_adjacent_spec)
  next
    case 2
    let ?p = "p\<lparr>r_end := r_end rg\<rparr>"
    have "r_start p \<le> r_end p" "r_end p < r_start rg"
      using inv pre by (auto simp: 2(2))
    with le have "r_start p \<le> r_end rg" by order
    then have "uint_set_inv (rev (?p # pre') @ z # sfx)"
      using inv gap(1) by (auto simp: 2(2) intro: order.strict_trans)
    moreover have "range_set ?p = range_set rg \<union> range_set p"
      using bordering_union [of "r_start p" "r_end p" "r_end rg"] le gap(2) inv 2
      by (auto simp: range_set_def)
    ultimately show ?thesis
      using 2 merge_adjacent_spec [of "?p # pre'" z sfx] by (auto simp: insert_spec_def)
  next
    case 3
    then show ?thesis
      using inv pre le gap(1)
      by (auto simp: insert_spec_def create_set_item_def range_set_def intro: order.strict_trans)
  qed
qed

text \<open>The walk either stops at \<open>z\<close> or the range lies wholly before \<open>z\<close> and reaches its predecessor.\<close>

lemma insert_walk_stops:
  assumes "r_start rg \<le> r_end rg" "uint_set_inv (rev pre @ z # sfx)" "r_start rg \<le> r_end z"
    "\<forall>x\<in>set sfx. r_end rg < r_start x"
    and stop: "r_end rg < r_start z \<longrightarrow> pre = [] \<or> r_end (hd pre) < r_start rg"
  shows "insert_spec mem_ok (rev pre @ z # sfx) rg (insert_walk mem_ok (z # pre) sfx rg)"
proof -
  consider "r_start z \<le> r_start rg" "r_end rg \<le> r_end z"
    | "uint_range_overlaps z rg" "\<not> (r_start z \<le> r_start rg \<and> r_end rg \<le> r_end z)"
    | "r_end rg < r_start z" "\<not> uint_range_overlaps z rg"
    using assms by (force simp: helper_simps)
  then show ?thesis
  proof cases
    case 1
    with assms show ?thesis by (auto simp: insert_spec_def range_set_def)
  next
    case 2
    obtain z' pre' where "earliest_overlap pre z rg = (z', pre')" by fastforce
    with 2 insert_overlap [OF assms(2,4), of z' pre' mem_ok] show ?thesis
      by (auto simp: Let_def)
  next
    case 3
    with stop have gap: "pre = [] \<or> r_start rg > r_end (hd pre)" by simp
    with insert_gap [OF assms(2,1) 3(1) gap, of mem_ok] insert_walk_gap [OF assms(1) 3(1) gap]
    show ?thesis by simp
  qed
qed

lemma insert_walk_spec:
  "r_start rg \<le> r_end rg \<Longrightarrow> uint_set_inv (rev pre @ z # sfx) \<Longrightarrow> r_start rg \<le> r_end z \<Longrightarrow>
   \<forall>x\<in>set sfx. r_end rg < r_start x \<Longrightarrow>
   insert_spec mem_ok (rev pre @ z # sfx) rg (insert_walk mem_ok (z # pre) sfx rg)"
proof (induction pre arbitrary: z sfx)
  case Nil
  then show ?case by (intro insert_walk_stops) (simp_all del: insert_walk.simps)
next
  case (Cons p pre)
  show ?case
  proof (cases "r_end rg < r_start z \<and> r_start rg \<le> r_end p")
    case True
    with Cons.prems Cons.IH [of p "z # sfx"] insert_walk_next [OF Cons.prems(1)] show ?thesis
      by (simp del: insert_walk.simps)
  qed (intro insert_walk_stops, use Cons.prems in \<open>auto simp del: insert_walk.simps\<close>)
qed

lemma hd_last_inv:
  assumes "uint_set_inv s" "x \<in> set s"
  shows "r_start (hd s) \<le> r_start x" "r_end x \<le> r_end (last s)"
proof -
  from assms show "r_start (hd s) \<le> r_start x"
    by (cases s) (auto intro: order.trans less_imp_le)
  from assms show "r_end x \<le> r_end (last s)"
    by (cases s rule: rev_cases) (auto intro: order.trans less_imp_le)
qed

lemma insert_append:
  assumes inv: "uint_set_inv (b @ [z])" and le: "r_start rg \<le> r_end rg" and gt: "r_start rg > r_end z"
  shows "insert_spec mem_ok (b @ [z]) rg
    (if r_end z + 1 = r_start rg then (b @ [z\<lparr>r_end := r_end rg\<rparr>], True)
     else case create_set_item mem_ok (r_start rg) (r_end rg) of
         None \<Rightarrow> (b @ [z], False)
       | Some x \<Rightarrow> ((b @ [z]) @ [x], True))"
proof (cases "r_end z + 1 = r_start rg")
  case True
  have z: "r_start z \<le> r_end z" using inv by simp
  with le gt have "r_start z \<le> r_end rg" by order
  moreover have "range_set (z\<lparr>r_end := r_end rg\<rparr>) = range_set z \<union> range_set rg"
    using bordering_union [of "r_start z" "r_end z" "r_end rg"] z gt le
    by (simp add: range_set_def True)
  ultimately show ?thesis
    using True inv by (simp add: insert_spec_def Un_assoc)
next
  case False
  have "x \<in> set (b @ [z]) \<Longrightarrow> r_end x < r_start rg" for x
    using hd_last_inv(2) [OF inv, of x] gt by simp
  with False inv le show ?thesis
    by (simp add: insert_spec_def create_set_item_def range_set_def Un_assoc)
qed

lemma members_bounds:
  assumes "uint_set_inv s" "v \<in> uint_set_members s"
  shows "r_start (hd s) \<le> v" "v \<le> r_end (last s)"
proof -
  from assms(2) obtain x where x: "x \<in> set s" "r_start x \<le> v" "v \<le> r_end x"
    by (auto simp: in_uint_set_members)
  from hd_last_inv [OF assms(1) x(1)] x(2,3) show "r_start (hd s) \<le> v" "v \<le> r_end (last s)"
    by order+
qed

lemma insert_correct:
  assumes inv: "uint_set_inv s" and le: "r_start rg \<le> r_end rg"
  shows "insert_spec mem_ok s rg (ossl_uint_set_insert mem_ok s rg)"
proof (cases "s = []")
  case True
  with le show ?thesis
    by (auto simp: insert_spec_def ossl_uint_set_insert_def create_set_item_def range_set_def)
next
  case False
  then obtain b z where bz: "s = b @ [z]" by (cases s rule: rev_cases) auto
  obtain f t where ft: "s = f # t" using False by (cases s) auto
  have ends: "last s = z" "butlast s = b" "hd s = f" "tl s = t"
    by (simp add: bz, simp add: bz, simp_all add: ft)
  note ins = ossl_uint_set_insert_def Let_def ends
  consider "r_start rg > r_end z"
    | "\<not> r_start rg > r_end z" "r_start rg \<le> r_start f" "r_end rg \<ge> r_end z"
    | "\<not> r_start rg > r_end z" "\<not> (r_start rg \<le> r_start f \<and> r_end rg \<ge> r_end z)"
      "r_end rg < r_start f"
    | "\<not> r_start rg > r_end z" "\<not> (r_start rg \<le> r_start f \<and> r_end rg \<ge> r_end z)"
      "\<not> r_end rg < r_start f"
    by auto
  then show ?thesis
  proof cases
    case 1
    with insert_append [of b z rg mem_ok] inv le False show ?thesis
      by (simp add: ins bz split: if_splits)
  next
    case 2
    have "uint_set_members s \<subseteq> range_set rg"
    proof
      fix v assume "v \<in> uint_set_members s"
      from members_bounds [OF inv this] 2(2,3) show "v \<in> range_set rg"
        unfolding ends in_range_set by (meson order.trans)
    qed
    moreover have "ossl_uint_set_insert mem_ok s rg =
        ([f\<lparr>r_start := r_start rg, r_end := r_end rg\<rparr>], True)"
      using 2 le False by (simp add: ins)
    ultimately show ?thesis
      using le by (auto simp: insert_spec_def range_set_def)
  next
    case 3
    from 3 inv le have "insert_spec mem_ok (rev [] @ f # t) rg (insert_walk mem_ok [f] t rg)"
      by (intro insert_walk_spec) (auto simp: ft intro: order.trans less_imp_le order.strict_trans)
    moreover have "ossl_uint_set_insert mem_ok s rg = insert_walk mem_ok [f] t rg"
      using 3 le False by (simp add: ins del: insert_walk.simps)
    ultimately show ?thesis by (simp add: ft del: insert_walk.simps)
  next
    case 4
    have "ossl_uint_set_insert mem_ok s rg = insert_walk mem_ok (rev s) [] rg"
      using 4 le False by (auto simp: ins simp del: insert_walk.simps)
    with 4 inv le insert_walk_spec [of rg "rev b" z "[]" mem_ok] show ?thesis
      by (simp add: bz del: insert_walk.simps)
  qed
qed

section \<open>Removal and queries\<close>

definition remove_spec :: "bool \<Rightarrow> UINT_SET \<Rightarrow> UINT_RANGE \<Rightarrow> UINT_SET option \<Rightarrow> bool" where
  "remove_spec mem_ok s rg res \<longleftrightarrow>
     (case res of None \<Rightarrow> \<not> mem_ok
      | Some s' \<Rightarrow> uint_set_inv s' \<and> uint_set_members s' = uint_set_members s - range_set rg)"

lemma members_apart:
  "\<forall>x\<in>set s. r_end x < r_start rg \<Longrightarrow> uint_set_members s \<inter> range_set rg = {}"
  "\<forall>x\<in>set s. r_end rg < r_start x \<Longrightarrow> uint_set_members s \<inter> range_set rg = {}"
  by (fastforce simp: in_uint_set_members in_range_set)+

text \<open>Shrinking a node at its end, with the nodes \<open>mid\<close> put in its place after the cut.\<close>

lemma remove_cut:
  assumes inv: "uint_set_inv (rev pre @ z # sfx)" "uint_set_inv (mid @ sfx)"
    and lt: "r_start z < r_start rg" and le: "r_start rg \<le> r_end rg"
    and z: "range_set z - range_set rg = {r_start z..r_start rg - 1} \<union> uint_set_members mid"
    and sfx: "\<forall>x\<in>set (mid @ sfx). r_end rg < r_start x"
  shows "remove_spec mem_ok (rev pre @ z # sfx) rg
    (Some (rev pre @ z\<lparr>r_end := r_start rg - 1\<rparr> # mid @ sfx))"
proof -
  from lt have pos: "0 < r_start rg" by (auto simp: u64_nat)
  note pred = u64_le_pred_iff [OF pos] u64_pred_less [OF pos]
  have pre: "\<forall>x\<in>set pre. r_end x < r_start rg"
    using inv(1) lt by (auto intro: order.strict_trans)
  have after: "r_start rg - 1 < r_start x" "y \<in> set pre \<Longrightarrow> r_end y < r_start x"
    if "x \<in> set (mid @ sfx)" for x y
  proof -
    from sfx that have x: "r_end rg < r_start x" by blast
    with pred(2) le show "r_start rg - 1 < r_start x" by order
    assume "y \<in> set pre"
    with pre have "r_end y < r_start rg" by blast
    with x le show "r_end y < r_start x" by order
  qed
  with inv after lt have "uint_set_inv (rev pre @ z\<lparr>r_end := r_start rg - 1\<rparr> # mid @ sfx)"
    by (auto simp: pred)
  moreover have "range_set (z\<lparr>r_end := r_start rg - 1\<rparr>) = {r_start z..r_start rg - 1}"
    by (simp add: range_set_def)
  ultimately show ?thesis
    using members_apart(1) [OF pre] members_apart(2) [of sfx rg] sfx z
    by (auto simp: remove_spec_def)
qed

lemma remove_shift:
  "remove_spec mem_ok (rev pre @ sfx') rg res \<Longrightarrow>
   range_set z \<union> uint_set_members sfx - range_set rg = uint_set_members sfx' - range_set rg \<Longrightarrow>
   remove_spec mem_ok (rev (z # pre) @ sfx) rg res"
  by (auto simp: remove_spec_def split: option.splits)

lemma cut_end:
  assumes "r_start z < r_start rg" "r_start rg \<le> r_end z" "r_end z \<le> r_end rg"
  shows "range_set z - range_set rg = {r_start z..r_start rg - 1}"
proof -
  from assms(1) have "0 < r_start rg" by (auto simp: u64_nat)
  with assms show ?thesis by (auto simp: range_set_def u64_le_pred_iff)
qed

lemma cut_middle:
  assumes "r_start z < r_start rg" "r_start rg \<le> r_end rg" "r_end rg < r_end z"
  shows "range_set z - range_set rg =
    {r_start z..r_start rg - 1} \<union> uint_set_members [\<lparr>r_start = r_end rg + 1, r_end = r_end z\<rparr>]"
proof -
  from assms(1) have "0 < r_start rg" by (auto simp: u64_nat)
  with assms show ?thesis
    by (auto simp: range_set_def u64_le_pred_iff u64_succ_le_iff [OF assms(3)])
qed

lemma remove_walk_spec:
  assumes le: "r_start rg \<le> r_end rg"
  shows "uint_set_inv (rev pre @ sfx) \<Longrightarrow> \<forall>x\<in>set sfx. r_end rg < r_start x \<Longrightarrow>
   remove_spec mem_ok (rev pre @ sfx) rg (remove_walk mem_ok pre sfx rg)"
proof (induction pre arbitrary: sfx)
  case Nil
  then show ?case using members_apart(2) [of sfx rg] by (auto simp: remove_spec_def)
next
  case (Cons z pre)
  consider "r_end z < r_start rg"
    | "r_start rg \<le> r_start z" "r_end z \<le> r_end rg"
    | "r_start rg \<le> r_start z" "r_start z \<le> r_end rg" "r_end rg < r_end z"
    | "r_start z < r_start rg" "r_start rg \<le> r_end z" "r_end z \<le> r_end rg"
    | "r_start z < r_start rg" "r_end rg < r_end z"
    | "r_end rg < r_start z"
    using Cons.prems by force
  then show ?case
  proof cases
    case 1
    then have "\<forall>x\<in>set (z # pre). r_end x < r_start rg"
      using Cons.prems(1) by (auto intro: order.strict_trans order.strict_trans1)
    with 1 Cons.prems members_apart(1) [of "z # pre" rg] members_apart(2) [of sfx rg] show ?thesis
      by (auto simp: remove_spec_def Let_def)
  next
    case 2
    with Cons.prems Cons.IH [of sfx] show ?thesis
      by (intro remove_shift [of _ _ sfx]) (auto simp: Let_def range_set_def)
  next
    case 3
    let ?z = "z\<lparr>r_start := r_end rg + 1\<rparr>"
    note succ = u64_succ_le_iff [OF 3(3)] u64_less_succ [OF 3(3)]
    from 3 have walk: "remove_walk mem_ok (z # pre) sfx rg = remove_walk mem_ok pre (?z # sfx) rg"
      by (auto simp: Let_def)
    have "uint_set_inv (rev pre @ ?z # sfx)"
      using Cons.prems(1) 3 succ by (auto intro: order.strict_trans order.strict_trans1)
    with Cons.IH [of "?z # sfx"] Cons.prems(2) 3 succ show ?thesis
      unfolding walk by (intro remove_shift [of _ _ "?z # sfx"]) (auto simp: range_set_def succ)
  next
    case 4
    with Cons.prems le remove_cut [of pre z sfx "[]" rg mem_ok] cut_end [OF 4] show ?thesis
      by (auto simp: Let_def)
  next
    case 5
    let ?y = "\<lparr>r_start = r_end rg + 1, r_end = r_end z\<rparr>"
    note succ = u64_succ_le_iff [OF 5(2)] u64_less_succ [OF 5(2)]
    from 5 Cons.prems le remove_cut [of pre z sfx "[?y]" rg mem_ok] cut_middle [OF 5(1) le 5(2)]
    show ?thesis
      by (auto simp: Let_def create_set_item_def remove_spec_def succ)
  next
    case 6
    then have walk: "remove_walk mem_ok (z # pre) sfx rg = remove_walk mem_ok pre (z # sfx) rg"
      using le Cons.prems(1) by (auto simp: Let_def)
    from 6 Cons.prems Cons.IH [of "z # sfx"] show ?thesis
      unfolding walk by simp
  qed
qed

lemma remove_correct:
  assumes "uint_set_inv s" "r_start rg \<le> r_end rg"
  shows "case ossl_uint_set_remove mem_ok s rg of
      None \<Rightarrow> \<not> mem_ok
    | Some (s', ok) \<Rightarrow> ok \<and> uint_set_inv s' \<and> uint_set_members s' = uint_set_members s - range_set rg"
  using remove_walk_spec [of rg "rev s" "[]" mem_ok] assms
  by (auto simp: ossl_uint_set_remove_def remove_spec_def split: option.splits)

lemma query_walk_members: "uint_set_inv (rev pre) \<Longrightarrow> query_walk pre v \<longleftrightarrow> v \<in> uint_set_members pre"
proof (induction pre)
  case (Cons x pre)
  then have "v \<notin> uint_set_members pre" if "r_end x < v"
    using that by (auto simp: in_uint_set_members dest!: bspec intro: order.trans)
  with Cons show ?case by (auto simp: in_range_set)
qed simp

lemma query_members: "uint_set_inv s \<Longrightarrow> ossl_uint_set_query s v \<longleftrightarrow> v \<in> uint_set_members s"
  using query_walk_members [of "rev s" v] by (simp add: ossl_uint_set_query_def)

section \<open>Bordering ranges\<close>

lemma uint_set_gaps_simps [simp]:
  "uint_set_gaps []" "uint_set_gaps [r]"
  "uint_set_gaps (r # t) \<longleftrightarrow> t = [] \<or> r_end r + 1 \<noteq> r_start (hd t) \<and> uint_set_gaps t"
  "uint_set_gaps (s @ t) \<longleftrightarrow>
     uint_set_gaps s \<and> uint_set_gaps t \<and> (s = [] \<or> t = [] \<or> r_end (last s) + 1 \<noteq> r_start (hd t))"
  by (auto simp: uint_set_gaps_def successively_append_iff successively_Cons)

lemma merge_adjacent_gaps:
  assumes "uint_set_gaps (rev pre)" "uint_set_gaps (x # sfx)"
  shows "uint_set_gaps (uint_set_merge_adjacent pre x sfx)"
proof (cases pre)
  case Nil
  with assms show ?thesis by (simp add: uint_set_merge_adjacent_def)
next
  case (Cons p pre')
  have "r_end p + 1 \<noteq> r_start x" if "r_start x - 1 \<noteq> r_end p"
    using that by (metis add_diff_cancel_right')
  with assms Cons show ?thesis
    by (cases pre') (auto simp: uint_set_merge_adjacent_def)
qed

lemma insert_gap_gaps:
  assumes gaps: "uint_set_gaps (rev pre @ z # sfx)"
  shows "uint_set_gaps (fst
    (if r_start z = r_end rg + 1 then
       (uint_set_merge_adjacent pre (z\<lparr>r_start := r_start rg\<rparr>) sfx, True)
     else if pre \<noteq> [] \<and> r_end (hd pre) + 1 = r_start rg then
       (uint_set_merge_adjacent ((hd pre)\<lparr>r_end := r_end rg\<rparr> # tl pre) z sfx, True)
     else case create_set_item mem_ok (r_start rg) (r_end rg) of
         None \<Rightarrow> (rev pre @ z # sfx, False)
       | Some x \<Rightarrow> (rev pre @ x # z # sfx, True)))"
proof -
  have "uint_set_gaps (rev pre)" "uint_set_gaps (z # sfx)" "uint_set_gaps (z\<lparr>r_start := s\<rparr> # sfx)" for s
    using gaps by auto
  moreover have "uint_set_gaps (rev ((hd pre)\<lparr>r_end := e\<rparr> # tl pre))" if "pre \<noteq> []" for e
    using gaps that by (cases pre) auto
  ultimately show ?thesis
    using gaps merge_adjacent_gaps
    by (auto simp: create_set_item_def last_rev simp del: rev.simps)
qed

lemma disjoint_before:
  assumes "r_start rg \<le> r_end rg" "r_start z \<le> r_end z" "range_set rg \<inter> range_set z = {}" "r_start rg \<le> r_end z"
  shows "r_end rg < r_start z"
proof (rule ccontr)
  assume "\<not> r_end rg < r_start z"
  then have "max (r_start rg) (r_start z) \<in> range_set rg \<inter> range_set z"
    using assms(1,2,4) by (auto simp: in_range_set)
  with assms(3) show False by blast
qed

lemma insert_walk_single_gaps:
  assumes "r_start rg = r_end rg"
  shows "uint_set_gaps (rev pre @ z # sfx) \<Longrightarrow> r_start rg \<le> r_end z \<Longrightarrow>
    uint_set_gaps (fst (insert_walk mem_ok (z # pre) sfx rg))"
proof (induction pre arbitrary: z sfx)
  case Nil
  show ?case
  proof (cases "r_end rg < r_start z")
    case True
    with Nil insert_gap_gaps [of "[]" z sfx rg mem_ok] show ?thesis
      by (subst insert_walk_gap) (simp_all add: assms)
  qed (use Nil assms in \<open>simp add: insert_walk_dwarfed del: insert_walk.simps\<close>)
next
  case (Cons p pre)
  consider "r_start z \<le> r_end rg" | "r_end rg < r_start z" "r_end p < r_start rg"
    | "r_end rg < r_start z" "r_start rg \<le> r_end p"
    by force
  then show ?case
  proof cases
    case 1
    with Cons.prems assms show ?thesis
      by (simp add: insert_walk_dwarfed del: insert_walk.simps)
  next
    case 2
    with insert_gap_gaps [OF Cons.prems(1), of rg mem_ok] show ?thesis
      by (subst insert_walk_gap) (simp_all add: assms)
  next
    case 3
    with Cons.prems Cons.IH [of p "z # sfx"] show ?thesis
      by (subst insert_walk_next) (simp_all add: assms del: insert_walk.simps)
  qed
qed

lemma insert_single_gaps:
  assumes "uint_set_inv s" "uint_set_gaps s" "r_start rg = r_end rg"
  shows "uint_set_gaps (fst (ossl_uint_set_insert mem_ok s rg))"
proof (cases "s = []")
  case True
  with assms show ?thesis by (auto simp: ossl_uint_set_insert_def create_set_item_def Let_def)
next
  case False
  then obtain b z where bz: "s = b @ [z]" by (cases s rule: rev_cases) auto
  obtain f t where ft: "s = f # t" using False by (cases s) auto
  have w1: "uint_set_gaps (fst (insert_walk mem_ok [f] t rg))" if "r_end rg < r_start f"
    using insert_walk_single_gaps [of rg "[]" f t mem_ok] assms that
    by (auto simp: ft simp del: insert_walk.simps)
  have w2: "uint_set_gaps (fst (insert_walk mem_ok (rev s) [] rg))" if "\<not> r_start rg > r_end z"
    using insert_walk_single_gaps [of rg "rev b" z "[]" mem_ok] assms that
    by (auto simp: bz simp del: insert_walk.simps)
  have ends: "last s = z" "butlast s = b" "hd s = f" "tl s = t"
    by (simp add: bz, simp add: bz, simp_all add: ft)
  have "uint_set_gaps (b @ [z\<lparr>r_end := r_end rg\<rparr>])"
    using assms(2) by (auto simp: bz)
  moreover have "uint_set_gaps (s @ [\<lparr>r_start = r_start rg, r_end = r_end rg\<rparr>])"
    if "r_end z + 1 \<noteq> r_start rg"
    using assms(2) that by (simp add: ends)
  ultimately show ?thesis
    using w1 w2 assms(2) False
    by (auto simp: ossl_uint_set_insert_def create_set_item_def Let_def ends
      simp del: insert_walk.simps uint_set_gaps_simps(4))
qed

text \<open>An insertion that adds only new elements leaves no bordering ranges either.\<close>

lemma insert_walk_disjoint_gaps:
  assumes rg: "r_start rg \<le> r_end rg"
  shows "uint_set_gaps (rev pre @ z # sfx) \<Longrightarrow> uint_set_inv (rev pre @ z # sfx) \<Longrightarrow> r_start rg \<le> r_end z \<Longrightarrow>
    range_set rg \<inter> uint_set_members (rev pre @ z # sfx) = {} \<Longrightarrow>
    uint_set_gaps (fst (insert_walk mem_ok (z # pre) sfx rg))"
proof (induction pre arbitrary: z sfx)
  case Nil
  have "r_end rg < r_start z" using disjoint_before [of rg z] Nil rg by auto
  with Nil insert_gap_gaps [of "[]" z sfx rg mem_ok] rg show ?case
    by (subst insert_walk_gap) simp_all
next
  case (Cons p pre)
  have lt: "r_end rg < r_start z" using disjoint_before [of rg z] Cons.prems rg by auto
  show ?case
  proof (cases "r_end p < r_start rg")
    case True
    with insert_gap_gaps [OF Cons.prems(1), of rg mem_ok] lt rg show ?thesis
      by (subst insert_walk_gap) simp_all
  next
    case False
    with Cons.prems Cons.IH [of p "z # sfx"] lt rg show ?thesis
      by (subst insert_walk_next) (auto simp del: insert_walk.simps)
  qed
qed

lemma insert_disjoint_gaps:
  assumes inv: "uint_set_inv s" "uint_set_gaps s" and rg: "r_start rg \<le> r_end rg"
    and dis: "range_set rg \<inter> uint_set_members s = {}"
  shows "uint_set_gaps (fst (ossl_uint_set_insert mem_ok s rg))"
proof (cases "s = []")
  case True
  then show ?thesis by (auto simp: ossl_uint_set_insert_def create_set_item_def Let_def)
next
  case False
  then obtain b z where bz: "s = b @ [z]" by (cases s rule: rev_cases) auto
  obtain f t where ft: "s = f # t" using False by (cases s) auto
  have w1: "uint_set_gaps (fst (insert_walk mem_ok [f] t rg))" if "r_end rg < r_start f"
    using insert_walk_disjoint_gaps [of rg "[]" f t mem_ok] inv rg dis that
    by (auto simp: ft simp del: insert_walk.simps)
  have w2: "uint_set_gaps (fst (insert_walk mem_ok (rev s) [] rg))" if "\<not> r_start rg > r_end z"
    using insert_walk_disjoint_gaps [of rg "rev b" z "[]" mem_ok] inv rg dis that
    by (auto simp: bz simp del: insert_walk.simps)
  have ends: "last s = z" "butlast s = b" "hd s = f" "tl s = t"
    by (simp add: bz, simp add: bz, simp_all add: ft)
  have "uint_set_gaps (b @ [z\<lparr>r_end := r_end rg\<rparr>])"
    using inv(2) by (auto simp: bz)
  moreover have "uint_set_gaps (s @ [\<lparr>r_start = r_start rg, r_end = r_end rg\<rparr>])"
    if "r_end z + 1 \<noteq> r_start rg"
    using inv(2) that by (simp add: ends)
  ultimately show ?thesis
    using w1 w2 inv(2) False
    by (auto simp: ossl_uint_set_insert_def create_set_item_def Let_def ends
      simp del: insert_walk.simps uint_set_gaps_simps(4))
qed

text \<open>Without bordering ranges the first range is as long as the members allow.\<close>

lemma first_range_maximal:
  assumes inv: "uint_set_inv (r # t)" "uint_set_gaps (r # t)"
    and x: "r_start r \<le> x" "{r_start r..x} \<subseteq> uint_set_members (r # t)"
  shows "x \<le> r_end r"
proof (rule ccontr)
  assume "\<not> x \<le> r_end r"
  then have lt: "r_end r < x" by simp
  then have s: "unat (r_end r + 1) = unat (r_end r) + 1" by (rule unat_u64_succ)
  then have "r_end r + 1 \<in> {r_start r..x}"
    using lt inv(1) by (auto simp: u64_nat)
  then have "r_end r + 1 \<in> uint_set_members (r # t)" using x(2) by blast
  moreover have "r_end r + 1 \<notin> range_set r" using s by (simp add: in_range_set u64_nat)
  ultimately obtain y where y: "y \<in> set t" "r_start y \<le> r_end r + 1"
    by (auto simp: in_uint_set_members)
  then obtain h t' where t: "t = h # t'" by (cases t) auto
  have "r_end r < r_start h" "r_start h \<le> r_start y"
    using inv(1) y(1) hd_last_inv(1) [of t y] by (auto simp: t)
  then have "r_start h = r_end r + 1"
    using y(2) s by (intro u64_unat_inj) (simp add: u64_nat)
  then show False using inv(2) by (simp add: t)
qed

text \<open>A removal needs an allocation only to split a range.\<close>

lemma remove_walk_None:
  "remove_walk mem_ok pre sfx rg = None \<Longrightarrow> \<exists>z\<in>set pre. r_start z < r_start rg \<and> r_end rg < r_end z"
  by (induction mem_ok pre sfx rg rule: remove_walk.induct) (auto simp: Let_def split: if_splits option.splits)

lemma remove_range_prefix:
  assumes inv: "uint_set_inv s" and z: "z \<in> set s" and rg: "r_start rg = r_start z" "r_start rg \<le> r_end rg" "r_end rg \<le> r_end z"
  shows "\<exists>s'. ossl_uint_set_remove mem_ok s rg = Some (s', True) \<and> uint_set_inv s' \<and>
    uint_set_members s' = uint_set_members s - range_set rg"
proof -
  have "remove_walk mem_ok (rev s) [] rg \<noteq> None"
  proof
    assume "remove_walk mem_ok (rev s) [] rg = None"
    then obtain y where y: "y \<in> set s" "r_start y < r_start rg" "r_end rg < r_end y"
      by (auto dest: remove_walk_None)
    then have "y \<noteq> z" using rg(1) by auto
    then show False
      using split_list [OF z] y inv rg by (fastforce dest: order.strict_trans less_imp_not_less)
  qed
  then show ?thesis
    using remove_correct [OF inv rg(2), of mem_ok] rg(2) by (auto simp: ossl_uint_set_remove_def split: option.splits)
qed

section \<open>The interface\<close>

datatype set_op = Insert UINT_RANGE | Remove UINT_RANGE

fun op_range :: "set_op \<Rightarrow> UINT_RANGE" where
  "op_range (Insert rg) = rg"
| "op_range (Remove rg) = rg"

text \<open>A sequence of calls; \<open>None\<close> when one of them fails.\<close>

fun run_set_ops ::
  "(UINT_RANGE \<Rightarrow> 's \<Rightarrow> 's \<times> bool) \<Rightarrow> (UINT_RANGE \<Rightarrow> 's \<Rightarrow> ('s \<times> bool) option) \<Rightarrow>
   set_op list \<Rightarrow> 's \<Rightarrow> 's option" where
  "run_set_ops ins del [] s = Some s"
| "run_set_ops ins del (Insert rg # ops) s =
     (case ins rg s of (s', ok) \<Rightarrow> if ok then run_set_ops ins del ops s' else None)"
| "run_set_ops ins del (Remove rg # ops) s =
     (case del rg s of None \<Rightarrow> None
      | Some (s', ok) \<Rightarrow> if ok then run_set_ops ins del ops s' else None)"

text \<open>The abstract set after a sequence of calls.\<close>

fun spec_set_ops :: "set_op list \<Rightarrow> u64 set \<Rightarrow> u64 set" where
  "spec_set_ops [] A = A"
| "spec_set_ops (Insert rg # ops) A = spec_set_ops ops (A \<union> range_set rg)"
| "spec_set_ops (Remove rg # ops) A = spec_set_ops ops (A - range_set rg)"

locale int_set =
  fixes empty :: 's
    and ins :: "bool \<Rightarrow> 's \<Rightarrow> UINT_RANGE \<Rightarrow> 's \<times> bool"
    and del :: "bool \<Rightarrow> 's \<Rightarrow> UINT_RANGE \<Rightarrow> ('s \<times> bool) option"
    and isin :: "'s \<Rightarrow> u64 \<Rightarrow> bool"
    and members :: "'s \<Rightarrow> u64 set"
    and inv :: "'s \<Rightarrow> bool"
  assumes empty: "inv empty" "members empty = {}"
    and isin: "inv s \<Longrightarrow> isin s v \<longleftrightarrow> v \<in> members s"
    and ins_mem: "inv s \<Longrightarrow> r_start rg \<le> r_end rg \<Longrightarrow> snd (ins True s rg)"
    and ins_ok: "inv s \<Longrightarrow> r_start rg \<le> r_end rg \<Longrightarrow> snd (ins m s rg) \<Longrightarrow>
      inv (fst (ins m s rg)) \<and> members (fst (ins m s rg)) = members s \<union> range_set rg"
    and ins_fail: "inv s \<Longrightarrow> r_start rg \<le> r_end rg \<Longrightarrow> \<not> snd (ins m s rg) \<Longrightarrow> fst (ins m s rg) = s"
    and del_mem: "inv s \<Longrightarrow> r_start rg \<le> r_end rg \<Longrightarrow> del True s rg \<noteq> None"
    and del_ok: "inv s \<Longrightarrow> r_start rg \<le> r_end rg \<Longrightarrow> del m s rg = Some (s', ok) \<Longrightarrow>
      ok \<and> inv s' \<and> members s' = members s - range_set rg"
begin

lemma ins_inv: "inv s \<Longrightarrow> r_start rg \<le> r_end rg \<Longrightarrow> inv (fst (ins m s rg))"
  using ins_ok ins_fail by (cases "snd (ins m s rg)") auto

lemma ins_grows: "inv s \<Longrightarrow> r_start rg \<le> r_end rg \<Longrightarrow> members s \<subseteq> members (fst (ins m s rg))"
  using ins_ok ins_fail by (cases "snd (ins m s rg)") auto

lemma run_set_ops_refines:
  assumes "inv s" "list_all (\<lambda>opn. r_start (op_range opn) \<le> r_end (op_range opn)) ops"
  shows "\<exists>s'. run_set_ops (\<lambda>rg s. ins True s rg) (\<lambda>rg s. del True s rg) ops s = Some s' \<and> inv s' \<and>
    members s' = spec_set_ops ops (members s)"
  using assms
proof (induction ops arbitrary: s)
  case (Cons opn ops)
  show ?case
  proof (cases opn)
    case (Insert rg)
    with Cons.prems ins_mem [of s rg] ins_ok [of s rg True] Cons.IH [of "fst (ins True s rg)"]
    show ?thesis by (auto simp: case_prod_beta)
  next
    case (Remove rg)
    with Cons.prems del_mem [of s rg] obtain s' ok where "del True s rg = Some (s', ok)" by fastforce
    with Remove Cons.prems del_ok [of s rg True s' ok] Cons.IH [of s'] show ?thesis by auto
  qed
qed simp

end

interpretation us: int_set ossl_uint_set_init ossl_uint_set_insert ossl_uint_set_remove
  ossl_uint_set_query uint_set_members uint_set_inv
proof
  fix s s' :: UINT_SET and rg :: UINT_RANGE and v :: u64 and m ok :: bool
  assume s: "uint_set_inv s"
  show "ossl_uint_set_query s v \<longleftrightarrow> v \<in> uint_set_members s"
    using s by (rule query_members)
  assume le: "r_start rg \<le> r_end rg"
  note ins = insert_correct [OF s le]
  show "snd (ossl_uint_set_insert True s rg)"
    using ins [of True] by (simp add: insert_spec_def split: if_splits)
  show "snd (ossl_uint_set_insert m s rg) \<Longrightarrow> uint_set_inv (fst (ossl_uint_set_insert m s rg)) \<and>
      uint_set_members (fst (ossl_uint_set_insert m s rg)) = uint_set_members s \<union> range_set rg"
    using ins [of m] by (simp add: insert_spec_def)
  show "\<not> snd (ossl_uint_set_insert m s rg) \<Longrightarrow> fst (ossl_uint_set_insert m s rg) = s"
    using ins [of m] unfolding insert_spec_def by (metis (no_types))
  show "ossl_uint_set_remove True s rg \<noteq> None"
    using remove_correct [OF s le, of True] by (auto split: option.splits)
  show "ossl_uint_set_remove m s rg = Some (s', ok) \<Longrightarrow>
      ok \<and> uint_set_inv s' \<and> uint_set_members s' = uint_set_members s - range_set rg"
    using remove_correct [OF s le, of m] by (auto split: option.splits)
qed (simp_all add: ossl_uint_set_init_def)

section \<open>Properties\<close>

text \<open>
  C19: whatever sequence of range insertions and removals is applied to a fresh set while memory is
  available, every call succeeds, the stored list stays sorted, disjoint and free of empty ranges,
  and a query answers membership in the mathematical set the same calls build.
\<close>

theorem uint_set_refines_sets:
  assumes "list_all (\<lambda>opn. r_start (op_range opn) \<le> r_end (op_range opn)) ops"
  shows "\<exists>s. run_set_ops (\<lambda>rg s. ossl_uint_set_insert True s rg)
      (\<lambda>rg s. ossl_uint_set_remove True s rg) ops ossl_uint_set_init = Some s \<and> uint_set_inv s \<and>
    (\<forall>v. ossl_uint_set_query s v \<longleftrightarrow> v \<in> spec_set_ops ops {})"
  using us.run_set_ops_refines [OF us.empty(1) assms] by (auto simp: us.isin us.empty(2))

theorem uint_set_refines_sets_witness:
  "\<exists>s. run_set_ops (\<lambda>rg s. ossl_uint_set_insert True s rg) (\<lambda>rg s. ossl_uint_set_remove True s rg)
      [Insert \<lparr>r_start = 1, r_end = 2\<rparr>, Insert \<lparr>r_start = 5, r_end = 6\<rparr>,
       Insert \<lparr>r_start = 2, r_end = 9\<rparr>, Remove \<lparr>r_start = 3, r_end = 4\<rparr>] ossl_uint_set_init = Some s \<and>
    uint_set_inv s \<and> ossl_uint_set_query s 2 \<and> \<not> ossl_uint_set_query s 4"
  using uint_set_refines_sets [of "[Insert \<lparr>r_start = 1, r_end = 2\<rparr>, Insert \<lparr>r_start = 5, r_end = 6\<rparr>,
       Insert \<lparr>r_start = 2, r_end = 9\<rparr>, Remove \<lparr>r_start = 3, r_end = 4\<rparr>]"]
  by (force simp: range_set_def)

text \<open>
  C20: the outcome of one insertion on every branch. A reversed range is refused. Otherwise success
  adds exactly the range, and failure, possible only when the allocation fails, changes nothing; the
  invariant survives in all cases.
\<close>

theorem uint_set_insert_outcome:
  assumes "uint_set_inv s"
  shows "case ossl_uint_set_insert mem_ok s rg of (s', ok) \<Rightarrow>
    uint_set_inv s' \<and>
    (if ok then r_start rg \<le> r_end rg \<and> uint_set_members s' = uint_set_members s \<union> range_set rg
     else s' = s \<and> (r_end rg < r_start rg \<or> \<not> mem_ok))"
proof (cases "r_start rg \<le> r_end rg")
  case True
  obtain s' ok where "ossl_uint_set_insert mem_ok s rg = (s', ok)" by fastforce
  with insert_correct [OF assms True, of mem_ok] assms True show ?thesis
    by (cases ok) (simp_all add: insert_spec_def)
next
  case False
  with assms show ?thesis by (auto simp: ossl_uint_set_insert_def)
qed

theorem uint_set_insert_outcome_witness:
  "case ossl_uint_set_insert True [\<lparr>r_start = 1, r_end = 2\<rparr>] \<lparr>r_start = 3, r_end = 7\<rparr> of (s', ok) \<Rightarrow>
     ok \<and> uint_set_members s' = {1..7}"
  using uint_set_insert_outcome [of "[\<lparr>r_start = 1, r_end = 2\<rparr>]" "\<lparr>r_start = 3, r_end = 7\<rparr>" True]
  by (simp add: ossl_uint_set_insert_def range_set_def)

text \<open>
  Inserting a single integer, the only insertion the ACK manager makes, keeps the documented
  invariant that no two neighbouring ranges border one another.
\<close>

theorem uint_set_single_keeps_gaps:
  assumes "uint_set_inv s" "uint_set_gaps s"
  shows "uint_set_gaps (fst (ossl_uint_set_insert mem_ok s \<lparr>r_start = v, r_end = v\<rparr>))"
  using assms by (rule insert_single_gaps) simp

theorem uint_set_single_keeps_gaps_witness:
  "uint_set_gaps (fst (ossl_uint_set_insert True
     [\<lparr>r_start = 1, r_end = 2\<rparr>, \<lparr>r_start = 4, r_end = 6\<rparr>] \<lparr>r_start = 3, r_end = 3\<rparr>))"
  using uint_set_single_keeps_gaps [of "[\<lparr>r_start = 1, r_end = 2\<rparr>, \<lparr>r_start = 4, r_end = 6\<rparr>]" True 3]
  by simp


end
