(* ===== verification/Ackm_History.thy ===== *)
theory Ackm_History
  imports Ossl_Time Uint_Set
begin

text \<open>
  The two packet histories of the ACK manager, the first part of \<open>ssl/quic/quic_ackm.c\<close>: packets
  sent and not yet resolved, and packet numbers received and not yet provably acknowledged.

  A transmitted packet is a value; its callbacks are represented by the events the manager logs
  (theory \<open>Quic_Ackm\<close>) and its list links by its place in a list. The hash table is a map from
  packet numbers. Removing a range that starts at zero or coincides with a stored range never
  allocates, so the calls of this file to \<open>ossl_uint_set_remove\<close> always return.
\<close>

section \<open>Transmitted packets\<close>

record OSSL_ACKM_TX_PKT =
  pkt_num :: QUIC_PN
  num_bytes :: u64
  tx_time :: OSSL_TIME
  largest_acked :: QUIC_PN
  pkt_space :: pn_space
  is_inflight :: bool
  is_ack_eliciting :: bool
  is_pto_probe :: bool
  is_mtu_probe :: bool

record tx_pkt_history_st =
  packets :: "OSSL_ACKM_TX_PKT list"
  pn_map :: "QUIC_PN \<rightharpoonup> OSSL_ACKM_TX_PKT"
  tx_watermark :: u64
  highest_sent :: u64

definition tx_pkt_history_init :: tx_pkt_history_st where
  "tx_pkt_history_init =
     \<lparr>packets = [], pn_map = Map.empty, tx_watermark = 0, highest_sent = 0\<rparr>"

definition tx_pkt_history_destroy :: "tx_pkt_history_st \<Rightarrow> tx_pkt_history_st" where
  "tx_pkt_history_destroy h = h\<lparr>pn_map := Map.empty, packets := []\<rparr>"

definition tx_pkt_history_add_actual ::
  "tx_pkt_history_st \<Rightarrow> OSSL_ACKM_TX_PKT \<Rightarrow> tx_pkt_history_st \<times> bool" where
  "tx_pkt_history_add_actual h pkt =
     (if pn_map h (pkt_num pkt) \<noteq> None then (h, False)
      else (h\<lparr>pn_map := (pn_map h)(pkt_num pkt \<mapsto> pkt), packets := packets h @ [pkt]\<rparr>, True))"

definition tx_pkt_history_add ::
  "tx_pkt_history_st \<Rightarrow> OSSL_ACKM_TX_PKT \<Rightarrow> tx_pkt_history_st \<times> bool" where
  "tx_pkt_history_add h pkt =
     (if \<not> pkt_num pkt \<ge> tx_watermark h then (h, False)
      else case tx_pkt_history_add_actual h pkt of (h, ok) \<Rightarrow>
        if \<not> ok then (h, False)
        else (h\<lparr>tx_watermark := pkt_num pkt + 1, highest_sent := pkt_num pkt\<rparr>, True))"

definition tx_pkt_history_by_pkt_num :: "tx_pkt_history_st \<Rightarrow> u64 \<Rightarrow> OSSL_ACKM_TX_PKT option" where
  "tx_pkt_history_by_pkt_num h pn = pn_map h pn"

definition tx_pkt_history_remove :: "tx_pkt_history_st \<Rightarrow> u64 \<Rightarrow> tx_pkt_history_st \<times> bool" where
  "tx_pkt_history_remove h pn =
     (case tx_pkt_history_by_pkt_num h pn of
        None \<Rightarrow> (h, False)
      | Some pkt \<Rightarrow> (h\<lparr>packets := remove1 pkt (packets h), pn_map := (pn_map h)(pn := None)\<rparr>, True))"

section \<open>Received packet numbers\<close>

record rx_pkt_history_st =
  pn_set :: UINT_SET
  rx_watermark :: QUIC_PN

definition rx_pkt_history_init :: rx_pkt_history_st where
  "rx_pkt_history_init = \<lparr>pn_set = ossl_uint_set_init, rx_watermark = 0\<rparr>"

definition rx_pkt_history_destroy :: "rx_pkt_history_st \<Rightarrow> rx_pkt_history_st" where
  "rx_pkt_history_destroy h = h\<lparr>pn_set := ossl_uint_set_destroy (pn_set h)\<rparr>"

definition rx_pkt_history_bump_watermark ::
  "rx_pkt_history_st \<Rightarrow> QUIC_PN \<Rightarrow> rx_pkt_history_st \<times> bool" where
  "rx_pkt_history_bump_watermark h wm =
     (if wm \<le> rx_watermark h then (h, True)
      else case ossl_uint_set_remove True (pn_set h) \<lparr>r_start = 0, r_end = wm - 1\<rparr> of
          Some (s, True) \<Rightarrow> (h\<lparr>pn_set := s, rx_watermark := wm\<rparr>, True)
        | _ \<Rightarrow> (h, False))"

definition MAX_RX_ACK_RANGES :: nat where
  "MAX_RX_ACK_RANGES = 32"

text \<open>The loop takes one range per iteration, so the length of the list bounds its iterations.\<close>

fun trim_loop :: "nat \<Rightarrow> UINT_SET \<Rightarrow> QUIC_PN \<Rightarrow> UINT_SET \<times> QUIC_PN" where
  "trim_loop 0 s highest = (s, highest)"
| "trim_loop (Suc fuel) s highest =
     (if length s > MAX_RX_ACK_RANGES then
        let r = hd s;
            highest = (if highest = QUIC_PN_INVALID then r_end r
                       else ossl_quic_pn_max highest (r_end r))
        in case ossl_uint_set_remove True s r of
             None \<Rightarrow> (s, highest)
           | Some (s', _) \<Rightarrow> trim_loop fuel s' highest
      else (s, highest))"

definition rx_pkt_history_trim_range_count :: "rx_pkt_history_st \<Rightarrow> rx_pkt_history_st" where
  "rx_pkt_history_trim_range_count h =
     (case trim_loop (length (pn_set h)) (pn_set h) QUIC_PN_INVALID of (s, highest) \<Rightarrow>
        let h = h\<lparr>pn_set := s\<rparr>
        in if highest \<noteq> QUIC_PN_INVALID then fst (rx_pkt_history_bump_watermark h (highest + 1)) else h)"

definition rx_pkt_history_add_pn ::
  "bool \<Rightarrow> rx_pkt_history_st \<Rightarrow> QUIC_PN \<Rightarrow> rx_pkt_history_st \<times> bool" where
  "rx_pkt_history_add_pn mem_ok h pn =
     (if pn < rx_watermark h then (h, True)
      else case ossl_uint_set_insert mem_ok (pn_set h) \<lparr>r_start = pn, r_end = pn\<rparr> of (s, ok) \<Rightarrow>
        if \<not> ok then (h\<lparr>pn_set := s\<rparr>, False)
        else (rx_pkt_history_trim_range_count (h\<lparr>pn_set := s\<rparr>), True))"

section \<open>The history of sent packets is a sorted list and its index\<close>

definition tx_hist_inv :: "tx_pkt_history_st \<Rightarrow> bool" where
  "tx_hist_inv h \<longleftrightarrow> sorted_wrt (\<lambda>p q. pkt_num p < pkt_num q) (packets h) \<and>
     (\<forall>p\<in>set (packets h). pkt_num p < tx_watermark h) \<and>
     (\<forall>pn. pn_map h pn = find (\<lambda>p. pkt_num p = pn) (packets h))"

lemma sorted_pn_distinct:
  "sorted_wrt (\<lambda>p q. pkt_num p < pkt_num q) ps \<Longrightarrow> distinct (map pkt_num ps)"
  by (induction ps) auto

lemma find_pn_append:
  "find P (xs @ ys) = (case find P xs of None \<Rightarrow> find P ys | Some x \<Rightarrow> Some x)"
  by (induction xs) auto

lemma find_pn_Some:
  assumes "sorted_wrt (\<lambda>p q. pkt_num p < pkt_num q) ps"
  shows "find (\<lambda>p. pkt_num p = pn) ps = Some p \<longleftrightarrow> p \<in> set ps \<and> pkt_num p = pn"
  using assms by (induction ps) auto

lemma find_pn_None: "find (\<lambda>p. pkt_num p = pn) ps = None \<longleftrightarrow> (\<forall>p\<in>set ps. pkt_num p \<noteq> pn)"
  by (induction ps) auto

lemma by_pkt_num_Some:
  "tx_hist_inv h \<Longrightarrow> tx_pkt_history_by_pkt_num h pn = Some p \<longleftrightarrow> p \<in> set (packets h) \<and> pkt_num p = pn"
  by (simp add: tx_hist_inv_def tx_pkt_history_by_pkt_num_def find_pn_Some)

lemma by_pkt_num_None:
  "tx_hist_inv h \<Longrightarrow> tx_pkt_history_by_pkt_num h pn = None \<longleftrightarrow> (\<forall>p\<in>set (packets h). pkt_num p \<noteq> pn)"
  by (simp add: tx_hist_inv_def tx_pkt_history_by_pkt_num_def find_pn_None)

lemma tx_hist_init_inv [simp]: "tx_hist_inv tx_pkt_history_init"
  by (simp add: tx_hist_inv_def tx_pkt_history_init_def)

lemma tx_hist_destroy_inv [simp]: "tx_hist_inv (tx_pkt_history_destroy h)"
  by (simp add: tx_hist_inv_def tx_pkt_history_destroy_def)

text \<open>The new watermark must not wrap; packet numbers stay below 2 to the 62.\<close>

lemma tx_hist_add_inv:
  assumes "tx_hist_inv h" "ossl_quic_pn_valid (pkt_num pkt)"
  shows "tx_hist_inv (fst (tx_pkt_history_add h pkt))"
proof (cases "snd (tx_pkt_history_add h pkt)")
  case True
  have succ: "pkt_num pkt < pkt_num pkt + 1"
    using assms(2) by (intro u64_less_succ [of _ "push_bit 62 1"]) (simp add: ossl_quic_pn_valid_def)
  have below: "pkt_num p < pkt_num pkt" if "p \<in> set (packets h)" for p
    using True assms(1) that
    by (auto simp: tx_pkt_history_add_def tx_hist_inv_def split: prod.splits if_splits)
  then have new: "find (\<lambda>p. pkt_num p = pkt_num pkt) (packets h) = None"
    unfolding find_pn_None by fastforce
  have "\<forall>pn. ((pn_map h)(pkt_num pkt \<mapsto> pkt)) pn = find (\<lambda>p. pkt_num p = pn) (packets h @ [pkt])"
    using assms(1) by (auto simp: tx_hist_inv_def find_pn_append new split: option.split)
  with True assms(1) succ below show ?thesis
    by (auto simp: tx_pkt_history_add_def tx_pkt_history_add_actual_def tx_hist_inv_def sorted_wrt_append
        intro: order.strict_trans split: prod.splits if_splits)
next
  case False
  with assms(1) show ?thesis
    by (auto simp: tx_pkt_history_add_def tx_pkt_history_add_actual_def split: prod.splits if_splits)
qed

lemma tx_hist_add_ok:
  assumes "tx_hist_inv h"
  shows "snd (tx_pkt_history_add h pkt) \<longleftrightarrow> tx_watermark h \<le> pkt_num pkt"
    "packets (fst (tx_pkt_history_add h pkt)) =
      packets h @ (if tx_watermark h \<le> pkt_num pkt then [pkt] else [])"
proof -
  have "pn_map h (pkt_num pkt) = None" if "tx_watermark h \<le> pkt_num pkt"
    using assms that by (auto simp: tx_hist_inv_def find_pn_None)
  then show "snd (tx_pkt_history_add h pkt) \<longleftrightarrow> tx_watermark h \<le> pkt_num pkt"
    "packets (fst (tx_pkt_history_add h pkt)) =
      packets h @ (if tx_watermark h \<le> pkt_num pkt then [pkt] else [])"
    by (auto simp: tx_pkt_history_add_def tx_pkt_history_add_actual_def)
qed

lemma remove1_sorted_pn:
  "sorted_wrt (\<lambda>p q. pkt_num p < pkt_num q) ps \<Longrightarrow> p \<in> set ps \<Longrightarrow>
   remove1 p ps = filter (\<lambda>q. pkt_num q \<noteq> pkt_num p) ps"
proof (induction ps)
  case (Cons q ps)
  then show ?case
    by (cases "p = q") (auto intro!: filter_True [symmetric] dest: order.strict_implies_not_eq)
qed simp

lemma sorted_wrt_filter_pn:
  "sorted_wrt R ps \<Longrightarrow> sorted_wrt R (filter P ps)"
  by (induction ps) auto

lemma find_filter_pn:
  "find (\<lambda>p. pkt_num p = pn) (filter (\<lambda>q. pkt_num q \<noteq> x) ps) =
     (if pn = x then None else find (\<lambda>p. pkt_num p = pn) ps)"
  by (induction ps) auto

lemma tx_hist_remove_packets:
  assumes "tx_hist_inv h"
  shows "packets (fst (tx_pkt_history_remove h pn)) = filter (\<lambda>q. pkt_num q \<noteq> pn) (packets h)"
proof (cases "tx_pkt_history_by_pkt_num h pn")
  case None
  with by_pkt_num_None [OF assms] have "\<forall>p\<in>set (packets h). pkt_num p \<noteq> pn" by simp
  with None show ?thesis by (simp add: tx_pkt_history_remove_def)
next
  case (Some p)
  with by_pkt_num_Some [OF assms] have "p \<in> set (packets h)" "pkt_num p = pn" by auto
  with Some assms show ?thesis
    by (auto simp: tx_pkt_history_remove_def tx_hist_inv_def remove1_sorted_pn)
qed

lemma tx_hist_remove_inv:
  assumes "tx_hist_inv h"
  shows "tx_hist_inv (fst (tx_pkt_history_remove h pn))"
proof -
  have "pn_map (fst (tx_pkt_history_remove h pn)) x =
      find (\<lambda>p. pkt_num p = x) (filter (\<lambda>q. pkt_num q \<noteq> pn) (packets h))" for x
    using assms
    by (auto simp: tx_pkt_history_remove_def tx_hist_inv_def find_filter_pn tx_pkt_history_by_pkt_num_def
        split: option.splits)
  moreover have "tx_watermark (fst (tx_pkt_history_remove h pn)) = tx_watermark h"
    by (simp add: tx_pkt_history_remove_def split: option.split)
  ultimately show ?thesis
    using assms tx_hist_remove_packets [OF assms, of pn]
    by (auto simp: tx_hist_inv_def sorted_wrt_filter_pn)
qed

section \<open>Removals that never allocate\<close>

text \<open>Removing everything up to \<open>e\<close> drops whole ranges and shortens at most one.\<close>

definition prefix_cut :: "u64 \<Rightarrow> UINT_SET \<Rightarrow> UINT_SET" where
  "prefix_cut e s = map (\<lambda>r. if r_start r \<le> e then r\<lparr>r_start := e + 1\<rparr> else r)
     (filter (\<lambda>r. \<not> r_end r \<le> e) s)"

lemma prefix_cut_simps [simp]:
  "prefix_cut e [] = []"
  "prefix_cut e (r # s) =
     (if r_end r \<le> e then [] else [if r_start r \<le> e then r\<lparr>r_start := e + 1\<rparr> else r]) @ prefix_cut e s"
  "prefix_cut e (s @ t) = prefix_cut e s @ prefix_cut e t"
  by (auto simp: prefix_cut_def)

lemma remove_walk_prefix:
  "\<forall>r\<in>set pre. r_start r \<le> r_end r \<Longrightarrow>
   remove_walk mem_ok pre sfx \<lparr>r_start = 0, r_end = e\<rparr> = Some (prefix_cut e (rev pre) @ sfx)"
proof (induction pre arbitrary: sfx)
  case (Cons z pre)
  have "\<not> e \<ge> r_end z" if "\<not> e \<ge> r_start z"
    using Cons.prems that by auto
  with Cons show ?case by (auto simp: Let_def)
qed simp

lemma remove_prefix:
  "uint_set_inv s \<Longrightarrow>
   ossl_uint_set_remove mem_ok s \<lparr>r_start = 0, r_end = e\<rparr> = Some (prefix_cut e s, True)"
  using remove_walk_prefix [of "rev s" mem_ok "[]" e]
  by (simp add: ossl_uint_set_remove_def uint_set_inv_def list_all_iff)

lemma prefix_cut_above:
  "uint_set_inv s \<Longrightarrow> \<forall>r\<in>set s. e < r_start r \<Longrightarrow> prefix_cut e s = s"
proof (induction s)
  case (Cons r s)
  then have "\<not> r_end r \<le> e" "\<not> r_start r \<le> e" by (auto simp: not_le)
  with Cons show ?case by auto
qed simp

lemma prefix_cut_gaps:
  "uint_set_inv s \<Longrightarrow> uint_set_gaps s \<Longrightarrow> uint_set_gaps (prefix_cut e s)"
proof (induction s)
  case (Cons r s)
  show ?case
  proof (cases "r_end r \<le> e")
    case False
    with Cons.prems have "prefix_cut e s = s"
      by (intro prefix_cut_above) (auto simp: not_le intro: order.strict_trans)
    with Cons.prems False show ?thesis by auto
  qed (use Cons in \<open>auto split: if_splits\<close>)
qed simp

lemma remove_walk_head:
  "r_start r \<le> r_end r \<Longrightarrow> \<forall>x\<in>set pre. r_end r < r_start x \<and> r_start x \<le> r_end x \<Longrightarrow>
   remove_walk mem_ok (pre @ [r]) sfx r = Some (rev pre @ sfx)"
proof (induction pre arbitrary: sfx)
  case (Cons z pre)
  from Cons.prems have "\<not> r_start r > r_end z" "\<not> r_end r \<ge> r_end z" "\<not> r_end r \<ge> r_start z"
    "\<not> r_start r > r_start z"
    by (auto simp: not_le not_less intro: order.trans less_imp_le order.strict_trans1)
  with Cons show ?case by (auto simp: Let_def)
qed (simp add: Let_def)

lemma remove_head:
  "uint_set_inv (r # s) \<Longrightarrow> ossl_uint_set_remove mem_ok (r # s) r = Some (s, True)"
  using remove_walk_head [of r "rev s" mem_ok "[]"]
  by (simp add: ossl_uint_set_remove_def uint_set_inv_def list_all_iff)

section \<open>The history of received packet numbers\<close>

definition rx_hist_inv :: "rx_pkt_history_st \<Rightarrow> bool" where
  "rx_hist_inv h \<longleftrightarrow> uint_set_inv (pn_set h) \<and> uint_set_gaps (pn_set h) \<and>
     length (pn_set h) \<le> MAX_RX_ACK_RANGES \<and>
     (\<forall>pn\<in>uint_set_members (pn_set h). rx_watermark h \<le> pn \<and> ossl_quic_pn_valid pn)"

text \<open>The numbers already processed or written off.\<close>

definition rx_settled :: "rx_pkt_history_st \<Rightarrow> QUIC_PN set" where
  "rx_settled h = {pn. pn < rx_watermark h} \<union> uint_set_members (pn_set h)"

lemma rx_hist_init_inv [simp]: "rx_hist_inv rx_pkt_history_init"
  by (simp add: rx_hist_inv_def rx_pkt_history_init_def ossl_uint_set_init_def MAX_RX_ACK_RANGES_def)

lemma rx_hist_init_settled [simp]: "rx_settled rx_pkt_history_init = {}"
  by (auto simp: rx_settled_def rx_pkt_history_init_def ossl_uint_set_init_def)

lemma bump_watermark_eq:
  "uint_set_inv (pn_set h) \<Longrightarrow> rx_pkt_history_bump_watermark h wm =
     (if wm \<le> rx_watermark h then h
      else h\<lparr>pn_set := prefix_cut (wm - 1) (pn_set h), rx_watermark := wm\<rparr>, True)"
  by (simp add: rx_pkt_history_bump_watermark_def remove_prefix)

lemma prefix_cut_spec:
  assumes "uint_set_inv s"
  shows "uint_set_inv (prefix_cut e s)" "uint_set_members (prefix_cut e s) = uint_set_members s - {..e}"
proof -
  have r0: "range_set \<lparr>r_start = 0, r_end = e\<rparr> = {..e}" by (auto simp: range_set_def)
  from us.del_ok [OF assms, of "\<lparr>r_start = 0, r_end = e\<rparr>" True] remove_prefix [OF assms]
  show "uint_set_inv (prefix_cut e s)" "uint_set_members (prefix_cut e s) = uint_set_members s - {..e}"
    by (auto simp: r0)
qed

lemma bump_watermark_inv:
  assumes "rx_hist_inv h"
  shows "rx_hist_inv (fst (rx_pkt_history_bump_watermark h wm))"
    "rx_settled (fst (rx_pkt_history_bump_watermark h wm)) = rx_settled h \<union> {pn. pn < wm}"
    "rx_watermark (fst (rx_pkt_history_bump_watermark h wm)) = max (rx_watermark h) wm"
proof -
  from assms have s: "uint_set_inv (pn_set h)" "uint_set_gaps (pn_set h)"
    "length (pn_set h) \<le> MAX_RX_ACK_RANGES"
    by (auto simp: rx_hist_inv_def)
  have pos: "0 < wm" if "\<not> wm \<le> rx_watermark h" using that by (auto simp: u64_nat)
  have "length (prefix_cut (wm - 1) (pn_set h)) \<le> length (pn_set h)"
    by (simp add: prefix_cut_def)
  with s assms show "rx_hist_inv (fst (rx_pkt_history_bump_watermark h wm))"
    using pos by (auto simp: bump_watermark_eq rx_hist_inv_def prefix_cut_spec prefix_cut_gaps
        u64_le_pred_iff not_less)
  show "rx_settled (fst (rx_pkt_history_bump_watermark h wm)) = rx_settled h \<union> {pn. pn < wm}"
    using s pos by (auto simp: bump_watermark_eq rx_settled_def prefix_cut_spec u64_le_pred_iff
        intro: order.strict_trans2)
  show "rx_watermark (fst (rx_pkt_history_bump_watermark h wm)) = max (rx_watermark h) wm"
    using s by (auto simp: bump_watermark_eq max_def)
qed

lemma pn_valid_not_invalid: "ossl_quic_pn_valid pn \<Longrightarrow> pn \<noteq> QUIC_PN_INVALID \<and> pn < pn + 1"
proof -
  assume "ossl_quic_pn_valid pn"
  then have v: "pn < push_bit 62 1" by (simp add: ossl_quic_pn_valid_def)
  moreover have "\<not> QUIC_PN_INVALID < push_bit 62 1" by simp
  ultimately show ?thesis using u64_less_succ [OF v] by auto
qed

definition trimmed :: "UINT_SET \<Rightarrow> QUIC_PN \<Rightarrow> UINT_SET \<times> QUIC_PN \<Rightarrow> bool" where
  "trimmed s hi res \<longleftrightarrow> (case res of (s', hi') \<Rightarrow>
     uint_set_inv s' \<and> uint_set_gaps s' \<and> uint_set_members s' \<subseteq> uint_set_members s \<and>
     (hi \<noteq> QUIC_PN_INVALID \<longrightarrow> hi \<le> hi') \<and>
     (s' = s \<and> hi' = hi \<or> ossl_quic_pn_valid hi' \<and> uint_set_members s \<subseteq> uint_set_members s' \<union> {..hi'}))"

lemma trim_loop_spec:
  "uint_set_inv s \<Longrightarrow> uint_set_gaps s \<Longrightarrow> \<forall>pn\<in>uint_set_members s. ossl_quic_pn_valid pn \<Longrightarrow>
   hi = QUIC_PN_INVALID \<or> ossl_quic_pn_valid hi \<Longrightarrow>
   trimmed s hi (trim_loop fuel s hi)"
proof (induction fuel arbitrary: s hi)
  case (Suc fuel)
  show ?case
  proof (cases "length s > MAX_RX_ACK_RANGES")
    case True
    then obtain r t where s: "s = r # t" by (cases s) auto
    let ?hi = "if hi = QUIC_PN_INVALID then r_end r else ossl_quic_pn_max hi (r_end r)"
    have end_valid: "ossl_quic_pn_valid (r_end r)"
      using Suc.prems(1,3) by (auto simp: s in_range_set)
    then have hi: "ossl_quic_pn_valid ?hi" "r_end r \<le> ?hi" "hi \<noteq> QUIC_PN_INVALID \<Longrightarrow> hi \<le> ?hi"
      using Suc.prems(4) by (auto simp: helper_simps max_def)
    have "trimmed t ?hi (trim_loop fuel t ?hi)"
      using Suc.prems hi(1) by (intro Suc.IH) (auto simp: s)
    moreover obtain s' hi' where res: "trim_loop fuel t ?hi = (s', hi')" by fastforce
    ultimately have IH: "uint_set_inv s'" "uint_set_gaps s'" "uint_set_members s' \<subseteq> uint_set_members t"
      "?hi \<le> hi'" "ossl_quic_pn_valid hi'" "uint_set_members t \<subseteq> uint_set_members s' \<union> {..hi'}"
      using hi(1) pn_valid_not_invalid [OF hi(1)] by (auto simp: trimmed_def)
    have "range_set r \<subseteq> {..hi'}"
      using hi(2) IH(4) by (auto simp: in_range_set intro: order.trans)
    moreover have "hi \<noteq> QUIC_PN_INVALID \<Longrightarrow> hi \<le> hi'"
      using hi(3) IH(4) by (blast intro: order.trans)
    moreover have "trim_loop (Suc fuel) s hi = (s', hi')"
      using True Suc.prems(1) res by (simp add: s remove_head Let_def)
    ultimately show ?thesis
      using IH by (auto simp: trimmed_def s simp del: trim_loop.simps)
  qed (use Suc.prems in \<open>auto simp: trimmed_def\<close>)
qed (auto simp: trimmed_def)

lemma trim_loop_length:
  "uint_set_inv s \<Longrightarrow> length s \<le> fuel + MAX_RX_ACK_RANGES \<Longrightarrow>
   length (fst (trim_loop fuel s hi)) \<le> MAX_RX_ACK_RANGES"
proof (induction fuel arbitrary: s hi)
  case (Suc fuel)
  then show ?case
    by (cases s) (auto simp: remove_head Let_def)
qed simp

lemma trim_range_count_spec:
  assumes "uint_set_inv (pn_set h)" "uint_set_gaps (pn_set h)"
    "\<forall>pn\<in>uint_set_members (pn_set h). rx_watermark h \<le> pn \<and> ossl_quic_pn_valid pn"
  shows "rx_hist_inv (rx_pkt_history_trim_range_count h)"
    "rx_settled h \<subseteq> rx_settled (rx_pkt_history_trim_range_count h)"
    "rx_watermark h \<le> rx_watermark (rx_pkt_history_trim_range_count h)"
proof -
  obtain s hi where res: "trim_loop (length (pn_set h)) (pn_set h) QUIC_PN_INVALID = (s, hi)"
    by fastforce
  from assms have t: "trimmed (pn_set h) QUIC_PN_INVALID (s, hi)"
    using trim_loop_spec [of "pn_set h" QUIC_PN_INVALID "length (pn_set h)"] by (auto simp: res)
  have len: "length s \<le> MAX_RX_ACK_RANGES"
    using trim_loop_length [OF assms(1), of "length (pn_set h)" QUIC_PN_INVALID] by (simp add: res)
  let ?h = "h\<lparr>pn_set := s\<rparr>"
  have h: "rx_hist_inv ?h"
    using t len assms(3) by (auto simp: rx_hist_inv_def trimmed_def)
  have eq: "rx_pkt_history_trim_range_count h =
      (if hi \<noteq> QUIC_PN_INVALID then fst (rx_pkt_history_bump_watermark ?h (hi + 1)) else ?h)"
    by (simp add: rx_pkt_history_trim_range_count_def res)
  show "rx_hist_inv (rx_pkt_history_trim_range_count h)"
    unfolding eq using h bump_watermark_inv(1) [OF h] by simp
  show "rx_watermark h \<le> rx_watermark (rx_pkt_history_trim_range_count h)"
    unfolding eq using bump_watermark_inv(3) [OF h] by simp
  show "rx_settled h \<subseteq> rx_settled (rx_pkt_history_trim_range_count h)"
  proof (cases "hi = QUIC_PN_INVALID")
    case True
    with t have "s = pn_set h" by (auto simp: trimmed_def dest: pn_valid_not_invalid)
    with True show ?thesis by (simp add: eq)
  next
    case False
    with t have "ossl_quic_pn_valid hi" "uint_set_members (pn_set h) \<subseteq> uint_set_members s \<union> {..hi}"
      by (auto simp: trimmed_def)
    moreover have "{..hi} \<subseteq> {pn. pn < hi + 1}"
      using pn_valid_not_invalid [OF \<open>ossl_quic_pn_valid hi\<close>] by (auto intro: order.strict_trans1)
    ultimately show ?thesis
      using False bump_watermark_inv(2) [OF h, of "hi + 1"] by (auto simp: eq rx_settled_def)
  qed
qed

lemma add_pn_cases:
  assumes inv: "rx_hist_inv h" and pn: "ossl_quic_pn_valid pn"
  obtains (below) "pn < rx_watermark h" "rx_pkt_history_add_pn mem_ok h pn = (h, True)"
  | (fail) "\<not> mem_ok" "rx_pkt_history_add_pn mem_ok h pn = (h, False)"
  | (new) s where "rx_pkt_history_add_pn mem_ok h pn = (rx_pkt_history_trim_range_count (h\<lparr>pn_set := s\<rparr>), True)"
    "uint_set_inv s" "uint_set_gaps s" "uint_set_members s = insert pn (uint_set_members (pn_set h))"
    "rx_watermark h \<le> pn"
proof -
  let ?rg = "\<lparr>r_start = pn, r_end = pn\<rparr>"
  obtain s ok where ins: "ossl_uint_set_insert mem_ok (pn_set h) ?rg = (s, ok)" by fastforce
  from inv have us: "uint_set_inv (pn_set h)" "uint_set_gaps (pn_set h)" by (auto simp: rx_hist_inv_def)
  have rg: "range_set ?rg = {pn}" by (auto simp: range_set_def)
  consider "pn < rx_watermark h" | "\<not> pn < rx_watermark h" "\<not> ok" | "\<not> pn < rx_watermark h" "ok"
    by blast
  then show thesis
  proof cases
    case 1
    then show thesis by (intro below) (auto simp: rx_pkt_history_add_pn_def)
  next
    case 2
    with us.ins_fail [OF us(1), of ?rg mem_ok] us.ins_mem [OF us(1), of ?rg] ins show thesis
      by (cases mem_ok) (auto intro!: fail simp: rx_pkt_history_add_pn_def)
  next
    case 3
    with us.ins_ok [OF us(1), of ?rg mem_ok] insert_single_gaps [OF us, of ?rg mem_ok] ins show thesis
      by (intro new [of s]) (auto simp: rx_pkt_history_add_pn_def rg)
  qed
qed

lemma add_pn_spec:
  fixes mem_ok :: bool
  assumes inv: "rx_hist_inv h" and pn: "ossl_quic_pn_valid pn"
  defines "res \<equiv> rx_pkt_history_add_pn mem_ok h pn"
  shows "rx_hist_inv (fst res) \<and> rx_settled h \<subseteq> rx_settled (fst res) \<and>
    rx_watermark h \<le> rx_watermark (fst res) \<and>
    (if snd res then pn \<in> rx_settled (fst res) else \<not> mem_ok \<and> fst res = h)"
  using inv pn
proof (cases rule: add_pn_cases [where mem_ok = mem_ok])
  case (new s)
  let ?h = "h\<lparr>pn_set := s\<rparr>"
  have "\<forall>x\<in>uint_set_members (pn_set ?h). rx_watermark ?h \<le> x \<and> ossl_quic_pn_valid x"
    using inv pn new(4,5) by (auto simp: rx_hist_inv_def)
  with new trim_range_count_spec [of ?h]
  have "rx_hist_inv (fst res)" "rx_settled ?h \<subseteq> rx_settled (fst res)" "rx_watermark h \<le> rx_watermark (fst res)"
    "snd res"
    by (auto simp: res_def)
  moreover have "insert pn (rx_settled h) \<subseteq> rx_settled ?h"
    using new(4) by (auto simp: rx_settled_def)
  ultimately show ?thesis by auto
qed (use inv in \<open>auto simp: res_def rx_settled_def\<close>)

end
