(* ===== verification/Quic_Statm.thy ===== *)
theory Quic_Statm
  imports Ossl_Time
begin

text \<open>
  The statistics manager, \<open>ssl/quic/quic_statm.c\<close>: the round-trip time estimator of RFC 9002 that the
  ACK manager feeds and reads.
\<close>

record OSSL_STATM =
  smoothed_rtt :: OSSL_TIME
  latest_rtt :: OSSL_TIME
  min_rtt :: OSSL_TIME
  rtt_variance :: OSSL_TIME
  have_first_sample :: bool

record OSSL_RTT_INFO =
  ri_smoothed_rtt :: OSSL_TIME
  ri_latest_rtt :: OSSL_TIME
  ri_rtt_variance :: OSSL_TIME
  ri_min_rtt :: OSSL_TIME

definition K_INITIAL_RTT :: OSSL_TIME where
  "K_INITIAL_RTT = ossl_ms2time 333"

definition ossl_statm_update_rtt :: "OSSL_STATM \<Rightarrow> OSSL_TIME \<Rightarrow> OSSL_TIME \<Rightarrow> OSSL_STATM" where
  "ossl_statm_update_rtt statm ack_delay override_latest_rtt =
     (let latest = (if ossl_time_is_zero override_latest_rtt then latest_rtt statm
                    else override_latest_rtt);
          statm = (if ossl_time_is_zero override_latest_rtt then statm
                   else statm\<lparr>latest_rtt := latest\<rparr>)
      in if \<not> have_first_sample statm then
           statm\<lparr>min_rtt := latest, smoothed_rtt := latest,
             rtt_variance := ossl_time_divide latest 2, have_first_sample := True\<rparr>
         else
           let statm = (if ossl_time_compare latest (min_rtt statm) < 0
                        then statm\<lparr>min_rtt := latest\<rparr> else statm);
               adjusted_rtt =
                 (if ossl_time_compare latest (ossl_time_add (min_rtt statm) ack_delay) \<ge> 0
                  then ossl_time_subtract latest ack_delay else latest);
               statm = statm\<lparr>rtt_variance :=
                 ossl_time_divide (ossl_time_add (ossl_time_multiply (rtt_variance statm) 3)
                   (ossl_time_abs_difference (smoothed_rtt statm) adjusted_rtt)) 4\<rparr>
           in statm\<lparr>smoothed_rtt :=
                ossl_time_divide (ossl_time_add (ossl_time_multiply (smoothed_rtt statm) 7)
                  adjusted_rtt) 8\<rparr>)"

definition ossl_statm_init :: OSSL_STATM where
  "ossl_statm_init =
     \<lparr>smoothed_rtt = K_INITIAL_RTT, latest_rtt = ossl_time_zero, min_rtt = ossl_time_infinite,
      rtt_variance = ossl_time_divide K_INITIAL_RTT 2, have_first_sample = False\<rparr>"

definition ossl_statm_get_rtt_info :: "OSSL_STATM \<Rightarrow> OSSL_RTT_INFO" where
  "ossl_statm_get_rtt_info statm =
     \<lparr>ri_smoothed_rtt = smoothed_rtt statm, ri_latest_rtt = latest_rtt statm,
      ri_rtt_variance = rtt_variance statm, ri_min_rtt = min_rtt statm\<rparr>"

section \<open>One update\<close>

text \<open>
  The bound under which the weighted sums do not saturate: 2 to the 60 nanoseconds, over 36 years.
\<close>

abbreviation RTT_BOUND :: nat where
  "RTT_BOUND \<equiv> 1152921504606846976"

lemma update_rtt_first:
  "r \<noteq> 0 \<Longrightarrow> \<not> have_first_sample st \<Longrightarrow>
   ossl_statm_update_rtt st d r = st\<lparr>latest_rtt := r, min_rtt := r, smoothed_rtt := r,
     rtt_variance := ossl_time_divide r 2, have_first_sample := True\<rparr>"
  by (simp add: ossl_statm_update_rtt_def time_simps Let_def)

lemma update_rtt_min:
  "r \<noteq> 0 \<Longrightarrow> have_first_sample st \<Longrightarrow> min_rtt (ossl_statm_update_rtt st d r) = min (min_rtt st) r"
  by (auto simp: ossl_statm_update_rtt_def time_simps Let_def min_def)

lemma update_rtt_latest: "r \<noteq> 0 \<Longrightarrow> latest_rtt (ossl_statm_update_rtt st d r) = r"
  by (simp add: ossl_statm_update_rtt_def time_simps Let_def)

lemma update_rtt_have [simp]: "have_first_sample (ossl_statm_update_rtt st d r)"
  by (simp add: ossl_statm_update_rtt_def Let_def)

text \<open>The smoothed value is an average of the old one and a sample corrected within [min, latest].\<close>

lemma update_rtt_smoothed:
  assumes "r \<noteq> 0" "have_first_sample st" "unat (smoothed_rtt st) \<le> RTT_BOUND" "unat r \<le> RTT_BOUND"
  shows "\<exists>a. min (unat (min_rtt st)) (unat r) \<le> a \<and> a \<le> unat r \<and>
    unat (smoothed_rtt (ossl_statm_update_rtt st d r)) = (7 * unat (smoothed_rtt st) + a) div 8"
proof -
  define m where "m = min (min_rtt st) r"
  define a where "a = (if ossl_time_compare r (ossl_time_add m d) \<ge> 0
    then ossl_time_subtract r d else r)"
  have m: "unat m = min (unat (min_rtt st)) (unat r)"
    by (simp add: m_def min_def u64_nat)
  have a: "unat m \<le> unat a" "unat a \<le> unat r"
    using m assms(4) by (auto simp: a_def time_simps u64_le_unat unat_time min_def split: if_splits)
  have "smoothed_rtt (ossl_statm_update_rtt st d r) =
      ossl_time_divide (ossl_time_add (ossl_time_multiply (smoothed_rtt st) 7) a) 8"
    using assms(1,2) by (auto simp: ossl_statm_update_rtt_def time_simps Let_def a_def m_def min_def)
  then have "unat (smoothed_rtt (ossl_statm_update_rtt st d r)) =
      (7 * unat (smoothed_rtt st) + unat a) div 8"
    using assms(3,4) a(2) by (simp add: unat_time min_def mult.commute)
  with a m show ?thesis by (intro exI [of _ "unat a"]) simp
qed

section \<open>Histories of samples\<close>

text \<open>The estimator between its smallest and largest sample.\<close>

definition statm_within :: "nat \<Rightarrow> nat \<Rightarrow> OSSL_STATM \<Rightarrow> bool" where
  "statm_within lo hi st \<longleftrightarrow> have_first_sample st \<and> unat (min_rtt st) = lo \<and>
     lo \<le> unat (smoothed_rtt st) \<and> unat (smoothed_rtt st) \<le> hi"

lemma statm_within_update:
  assumes "statm_within lo hi st" "r \<noteq> 0" "unat r \<le> RTT_BOUND" "hi \<le> RTT_BOUND"
  shows "statm_within (min lo (unat r)) (max hi (unat r)) (ossl_statm_update_rtt st d r)"
proof -
  from assms have have1: "have_first_sample st" and s: "unat (smoothed_rtt st) \<le> RTT_BOUND"
    by (auto simp: statm_within_def)
  from update_rtt_smoothed [OF assms(2) have1 s assms(3), of d] obtain a where
    "min (unat (min_rtt st)) (unat r) \<le> a" "a \<le> unat r"
    "unat (smoothed_rtt (ossl_statm_update_rtt st d r)) = (7 * unat (smoothed_rtt st) + a) div 8"
    by blast
  moreover have "unat (min_rtt (ossl_statm_update_rtt st d r)) = min lo (unat r)"
    using update_rtt_min [OF assms(2) have1, of d] assms(1)
    by (auto simp: statm_within_def min_def u64_nat)
  ultimately show ?thesis
    using assms(1) by (auto simp: statm_within_def)
qed

definition statm_samples :: "OSSL_STATM \<Rightarrow> (OSSL_TIME \<times> OSSL_TIME) list \<Rightarrow> OSSL_STATM" where
  "statm_samples st xs = fold (\<lambda>(d, r) st. ossl_statm_update_rtt st d r) xs st"

lemma statm_samples_Cons [simp]:
  "statm_samples st ((d, r) # xs) = statm_samples (ossl_statm_update_rtt st d r) xs"
  "statm_samples st [] = st"
  by (simp_all add: statm_samples_def)

lemma statm_samples_within:
  "statm_within lo hi st \<Longrightarrow> hi \<le> RTT_BOUND \<Longrightarrow> \<forall>(d, r)\<in>set xs. r \<noteq> 0 \<and> unat r \<le> RTT_BOUND \<Longrightarrow>
   statm_within (Min (insert lo (unat ` snd ` set xs))) (Max (insert hi (unat ` snd ` set xs)))
     (statm_samples st xs)"
proof (induction xs arbitrary: lo hi st)
  case (Cons x xs)
  obtain d r where x: "x = (d, r)" by fastforce
  let ?U = "unat ` snd ` set xs"
  have "statm_within (min lo (unat r)) (max hi (unat r)) (ossl_statm_update_rtt st d r)"
    using Cons.prems by (intro statm_within_update) (auto simp: x)
  with Cons.IH [of "min lo (unat r)" "max hi (unat r)"] Cons.prems
  have "statm_within (Min (insert (min lo (unat r)) ?U)) (Max (insert (max hi (unat r)) ?U))
      (statm_samples st (x # xs))"
    by (auto simp: x)
  moreover have "Min (insert (min lo (unat r)) ?U) = Min (insert lo (insert (unat r) ?U))"
    by (cases "xs = []") (simp_all add: min.assoc)
  moreover have "Max (insert (max hi (unat r)) ?U) = Max (insert hi (insert (unat r) ?U))"
    by (cases "xs = []") (simp_all add: max.assoc)
  ultimately show ?case by (simp add: x)
qed (simp add: statm_within_def)

section \<open>Properties\<close>

text \<open>
  C25: after any non-empty sequence of round-trip samples, whatever acknowledgement delays come with
  them, \<open>min_rtt\<close> is the smallest sample and \<open>smoothed_rtt\<close> lies between the smallest and the
  largest: the delay correction never pulls the estimate below the minimum.
\<close>

theorem statm_rtt_estimate:
  assumes "xs \<noteq> []" "\<forall>(d, r)\<in>set xs. r \<noteq> 0 \<and> unat r \<le> RTT_BOUND"
  shows "unat (min_rtt (statm_samples ossl_statm_init xs)) = Min (unat ` snd ` set xs) \<and>
    unat (min_rtt (statm_samples ossl_statm_init xs))
      \<le> unat (smoothed_rtt (statm_samples ossl_statm_init xs)) \<and>
    unat (smoothed_rtt (statm_samples ossl_statm_init xs)) \<le> Max (unat ` snd ` set xs)"
proof -
  from assms(1) obtain d r ys where xs: "xs = (d, r) # ys" by (cases xs) auto
  have "statm_within (unat r) (unat r) (ossl_statm_update_rtt ossl_statm_init d r)"
    using assms(2) by (simp add: xs statm_within_def update_rtt_first ossl_statm_init_def)
  from statm_samples_within [OF this, of ys] assms(2) show ?thesis
    by (simp add: xs statm_within_def)
qed

theorem statm_rtt_estimate_witness:
  "unat (min_rtt (statm_samples ossl_statm_init [(0, 100), (20, 60), (5, 300)])) = 60"
  using statm_rtt_estimate [of "[(0, 100), (20, 60), (5, 300)]"] by simp

end
