(* ===== verification/Quic_Cc.thy ===== *)
theory Quic_Cc
  imports Ossl_Time
begin

text \<open>
  The congestion control interface, \<open>include/internal/quic_cc.h\<close>: the method table the ACK manager
  and the packetiser call through, and the contract on the bytes in flight they rely on. A method
  takes the controller's data and returns it updated with the C return value. The clock the
  controller reads through \<open>now_cb\<close> is the first argument of the methods that read it.
\<close>

record OSSL_CC_ACK_INFO =
  ai_tx_time :: OSSL_TIME
  ai_tx_size :: u64

record OSSL_CC_LOSS_INFO =
  li_tx_time :: OSSL_TIME
  li_tx_size :: u64

record OSSL_CC_ECN_INFO =
  ei_largest_acked_time :: OSSL_TIME

record 'cc OSSL_CC_METHOD =
  get_tx_allowance :: "'cc \<Rightarrow> u64"
  get_wakeup_deadline :: "'cc \<Rightarrow> OSSL_TIME"
  on_data_sent :: "u64 \<Rightarrow> 'cc \<Rightarrow> 'cc \<times> bool"
  on_data_acked :: "OSSL_CC_ACK_INFO \<Rightarrow> 'cc \<Rightarrow> 'cc \<times> bool"
  on_data_lost :: "OSSL_CC_LOSS_INFO \<Rightarrow> 'cc \<Rightarrow> 'cc \<times> bool"
  on_data_lost_finished :: "OSSL_TIME \<Rightarrow> bool \<Rightarrow> 'cc \<Rightarrow> 'cc \<times> bool"
  on_data_invalidated :: "u64 \<Rightarrow> 'cc \<Rightarrow> 'cc \<times> bool"
  on_ecn :: "OSSL_TIME \<Rightarrow> OSSL_CC_ECN_INFO \<Rightarrow> 'cc \<Rightarrow> 'cc \<times> bool"

text \<open>
  The flags word of \<open>on_data_lost_finished\<close> has the single flag
  \<open>OSSL_CC_LOST_FLAG_PERSISTENT_CONGESTION\<close>; it is passed as a Boolean.
\<close>

section \<open>Events\<close>

datatype cc_event =
    Sent u64
  | Acked OSSL_CC_ACK_INFO
  | Lost OSSL_CC_LOSS_INFO
  | Lost_Finished OSSL_TIME bool
  | Invalidated u64
  | Ecn OSSL_TIME OSSL_CC_ECN_INFO

fun cc_step :: "'cc OSSL_CC_METHOD \<Rightarrow> cc_event \<Rightarrow> 'cc \<Rightarrow> 'cc" where
  "cc_step m (Sent n) cc = fst (on_data_sent m n cc)"
| "cc_step m (Acked i) cc = fst (on_data_acked m i cc)"
| "cc_step m (Lost i) cc = fst (on_data_lost m i cc)"
| "cc_step m (Lost_Finished now fl) cc = fst (on_data_lost_finished m now fl cc)"
| "cc_step m (Invalidated n) cc = fst (on_data_invalidated m n cc)"
| "cc_step m (Ecn now i) cc = fst (on_ecn m now i cc)"

definition cc_run :: "'cc OSSL_CC_METHOD \<Rightarrow> cc_event list \<Rightarrow> 'cc \<Rightarrow> 'cc" where
  "cc_run m evs cc = fold (cc_step m) evs cc"

text \<open>
  The ledger a caller keeps: what an event adds to and takes from the bytes in flight. It is \<open>None\<close>
  where a caller takes out more than is in flight, or sends past the range of the counter.
\<close>

fun ledger_step :: "cc_event \<Rightarrow> nat \<Rightarrow> nat option" where
  "ledger_step (Sent n) b = (if b + unat n < 2 ^ 64 then Some (b + unat n) else None)"
| "ledger_step (Acked i) b = (if unat (ai_tx_size i) \<le> b then Some (b - unat (ai_tx_size i)) else None)"
| "ledger_step (Lost i) b = (if unat (li_tx_size i) \<le> b then Some (b - unat (li_tx_size i)) else None)"
| "ledger_step (Lost_Finished now fl) b = Some b"
| "ledger_step (Invalidated n) b = (if unat n \<le> b then Some (b - unat n) else None)"
| "ledger_step (Ecn now i) b = Some b"

fun ledger :: "cc_event list \<Rightarrow> nat \<Rightarrow> nat option" where
  "ledger [] b = Some b"
| "ledger (e # es) b = (case ledger_step e b of None \<Rightarrow> None | Some b' \<Rightarrow> ledger es b')"

section \<open>The contract\<close>

locale cc_contract =
  fixes m :: "'cc OSSL_CC_METHOD"
    and bif :: "'cc \<Rightarrow> u64"
    and wnd :: "'cc \<Rightarrow> u64"
  assumes bif_sent: "bif (fst (on_data_sent m n cc)) = bif cc + n"
    and bif_acked: "bif (fst (on_data_acked m ai cc)) = bif cc - ai_tx_size ai"
    and bif_lost: "li_tx_size li \<le> bif cc \<Longrightarrow> bif (fst (on_data_lost m li cc)) = bif cc - li_tx_size li"
    and bif_finished: "bif (fst (on_data_lost_finished m now fl cc)) = bif cc"
    and bif_invalidated: "bif (fst (on_data_invalidated m n cc)) = bif cc - n"
    and bif_ecn: "bif (fst (on_ecn m now ei cc)) = bif cc"
    and wnd_sent: "wnd (fst (on_data_sent m n cc)) = wnd cc"
    and allowance: "unat (get_tx_allowance m cc) = unat (wnd cc) - unat (bif cc)"
begin

lemma ledger_step_bif:
  "ledger_step e (unat (bif cc)) = Some b \<Longrightarrow> unat (bif (cc_step m e cc)) = b"
  by (cases e) (auto simp: bif_sent bif_acked bif_lost bif_finished bif_invalidated bif_ecn
      unat_u64_add unat_u64_sub u64_nat split: if_splits)

lemma ledger_bif: "ledger es (unat (bif cc)) = Some b \<Longrightarrow> unat (bif (cc_run m es cc)) = b"
proof (induction es arbitrary: cc)
  case (Cons e es)
  then obtain b' where "ledger_step e (unat (bif cc)) = Some b'" "ledger es b' = Some b"
    by (auto split: option.splits)
  with Cons.IH [of "cc_step m e cc"] ledger_step_bif [of e cc b'] show ?case
    by (simp add: cc_run_def)
qed (simp add: cc_run_def)

text \<open>A sender that stays within its allowance stays within the window.\<close>

lemma sent_within_window:
  assumes "n \<le> get_tx_allowance m cc" "bif cc \<le> wnd cc"
  shows "bif (cc_step m (Sent n) cc) \<le> wnd (cc_step m (Sent n) cc)"
proof -
  have "unat (bif cc) + unat n \<le> unat (wnd cc)"
    using assms allowance [of cc] by (simp add: u64_nat)
  then show ?thesis
    by (simp add: bif_sent wnd_sent u64_le_unat unat_u64_add_mod)
qed

end

end
