(* ===== verification/Quic_Ackm.thy ===== *)
theory Quic_Ackm
  imports Ackm_History Quic_Statm Quic_Cc
begin

text \<open>
  The ACK manager, the second part of \<open>ssl/quic/quic_ackm.c\<close>: the struct \<open>ossl_ackm_st\<close> and every
  operation on it. It is polymorphic in the congestion controller's data, which it reaches through
  the method table. The clock is the argument \<open>now\<close>: all readings within one call return the same
  value. The callbacks the manager invokes (the packet callbacks \<open>on_lost\<close>, \<open>on_acked\<close>,
  \<open>on_discarded\<close> and the two deadline callbacks) are appended to \<open>cb_log\<close> in the order of the calls.
  The \<open>assert\<close> statements are not part of the definitions; an operation on a discarded packet number
  space, which they exclude, has no meaning here.
\<close>

section \<open>State\<close>

type_synonym OSSL_QUIC_ACK_RANGE = UINT_RANGE

record OSSL_QUIC_FRAME_ACK =
  ack_ranges :: "OSSL_QUIC_ACK_RANGE list"
  delay_time :: OSSL_TIME
  ect0 :: u64
  ect1 :: u64
  ecnce :: u64
  ecn_present :: bool

record OSSL_ACKM_PROBE_INFO =
  anti_deadlock_initial :: u32
  anti_deadlock_handshake :: u32
  pto :: "pn_space \<Rightarrow> u32"

datatype ackm_ecn = OSSL_ACKM_ECN_NONE | OSSL_ACKM_ECN_ECT1 | OSSL_ACKM_ECN_ECT0 | OSSL_ACKM_ECN_ECNCE

record OSSL_ACKM_RX_PKT =
  rxp_pkt_num :: QUIC_PN
  rxp_time :: OSSL_TIME
  rxp_pkt_space :: pn_space
  rxp_is_ack_eliciting :: bool
  rxp_ecn :: ackm_ecn

datatype ackm_cb =
    On_Lost OSSL_ACKM_TX_PKT
  | On_Acked OSSL_ACKM_TX_PKT
  | On_Discarded OSSL_ACKM_TX_PKT
  | Loss_Deadline OSSL_TIME
  | Ack_Deadline OSSL_TIME pn_space

record 'cc OSSL_ACKM =
  tx_history :: "pn_space \<Rightarrow> tx_pkt_history_st"
  rx_history :: "pn_space \<Rightarrow> rx_pkt_history_st"
  statm :: OSSL_STATM
  cc_method :: "'cc OSSL_CC_METHOD"
  cc_data :: 'cc
  pto_count :: u32
  largest_acked_pkt :: "pn_space \<Rightarrow> QUIC_PN"
  time_of_last_ack_eliciting_pkt :: "pn_space \<Rightarrow> OSSL_TIME"
  loss_time :: "pn_space \<Rightarrow> OSSL_TIME"
  loss_detection_deadline :: OSSL_TIME
  first_rtt_sample :: OSSL_TIME
  bytes_in_flight :: u64
  ack_eliciting_bytes_in_flight :: "pn_space \<Rightarrow> u64"
  peer_ecnce :: "pn_space \<Rightarrow> u64"
  handshake_confirmed :: bool
  is_server :: bool
  peer_completed_addr_validation :: bool
  discarded :: "pn_space \<Rightarrow> bool"
  rx_ack_desired :: "pn_space \<Rightarrow> bool"
  rx_ack_generated :: "pn_space \<Rightarrow> bool"
  pending_probe :: OSSL_ACKM_PROBE_INFO
  ack :: "pn_space \<Rightarrow> OSSL_QUIC_FRAME_ACK"
  rx_largest_pn :: "pn_space \<Rightarrow> QUIC_PN"
  rx_largest_time :: "pn_space \<Rightarrow> OSSL_TIME"
  rx_ect0 :: "pn_space \<Rightarrow> u64"
  rx_ect1 :: "pn_space \<Rightarrow> u64"
  rx_ecnce :: "pn_space \<Rightarrow> u64"
  rx_ack_eliciting_pkts_since_last_ack :: "pn_space \<Rightarrow> u32"
  rx_ack_flush_deadline :: "pn_space \<Rightarrow> OSSL_TIME"
  rx_max_ack_delay :: OSSL_TIME
  tx_max_ack_delay :: OSSL_TIME
  loss_detection_deadline_cb :: bool
  ack_deadline_cb :: bool
  cb_log :: "ackm_cb list"

definition K_GRANULARITY :: OSSL_TIME where
  "K_GRANULARITY = 1 * OSSL_TIME_MS"

definition K_PKT_THRESHOLD :: u64 where
  "K_PKT_THRESHOLD = 3"

definition K_TIME_THRESHOLD_NUM :: u64 where
  "K_TIME_THRESHOLD_NUM = 9"

definition K_TIME_THRESHOLD_DEN :: u64 where
  "K_TIME_THRESHOLD_DEN = 8"

definition MAX_PTO_COUNT :: u32 where
  "MAX_PTO_COUNT = 16"

definition QUIC_DEFAULT_MAX_ACK_DELAY :: u64 where
  "QUIC_DEFAULT_MAX_ACK_DELAY = 25"

definition DEFAULT_TX_MAX_ACK_DELAY :: OSSL_TIME where
  "DEFAULT_TX_MAX_ACK_DELAY = ossl_ms2time QUIC_DEFAULT_MAX_ACK_DELAY"

definition PKTS_BEFORE_ACK :: u32 where
  "PKTS_BEFORE_ACK = 2"

definition no_ack :: OSSL_QUIC_FRAME_ACK where
  "no_ack = \<lparr>ack_ranges = [], delay_time = 0, ect0 = 0, ect1 = 0, ecnce = 0, ecn_present = False\<rparr>"

definition ossl_ackm_new ::
  "bool \<Rightarrow> OSSL_STATM \<Rightarrow> 'cc OSSL_CC_METHOD \<Rightarrow> 'cc \<Rightarrow> bool \<Rightarrow> 'cc OSSL_ACKM option" where
  "ossl_ackm_new mem_ok st m cc server =
     (if \<not> mem_ok then None
      else Some \<lparr>tx_history = (\<lambda>_. tx_pkt_history_init), rx_history = (\<lambda>_. rx_pkt_history_init),
        statm = st, cc_method = m, cc_data = cc, pto_count = 0,
        largest_acked_pkt = (\<lambda>_. QUIC_PN_INVALID), time_of_last_ack_eliciting_pkt = (\<lambda>_. 0),
        loss_time = (\<lambda>_. 0), loss_detection_deadline = 0, first_rtt_sample = 0,
        bytes_in_flight = 0, ack_eliciting_bytes_in_flight = (\<lambda>_. 0), peer_ecnce = (\<lambda>_. 0),
        handshake_confirmed = False, is_server = server, peer_completed_addr_validation = False,
        discarded = (\<lambda>_. False), rx_ack_desired = (\<lambda>_. False), rx_ack_generated = (\<lambda>_. False),
        pending_probe = \<lparr>anti_deadlock_initial = 0, anti_deadlock_handshake = 0, pto = (\<lambda>_. 0)\<rparr>,
        ack = (\<lambda>_. no_ack), rx_largest_pn = (\<lambda>_. 0), rx_largest_time = (\<lambda>_. 0),
        rx_ect0 = (\<lambda>_. 0), rx_ect1 = (\<lambda>_. 0), rx_ecnce = (\<lambda>_. 0),
        rx_ack_eliciting_pkts_since_last_ack = (\<lambda>_. 0),
        rx_ack_flush_deadline = (\<lambda>_. ossl_time_infinite),
        rx_max_ack_delay = ossl_ms2time QUIC_DEFAULT_MAX_ACK_DELAY,
        tx_max_ack_delay = DEFAULT_TX_MAX_ACK_DELAY,
        loss_detection_deadline_cb = False, ack_deadline_cb = False, cb_log = []\<rparr>)"

section \<open>Acknowledged and lost packets\<close>

definition ack_includes_ack_eliciting :: "OSSL_ACKM_TX_PKT list \<Rightarrow> bool" where
  "ack_includes_ack_eliciting pkts = list_ex is_ack_eliciting pkts"

definition ackm_ack_eliciting_bytes_in_flight :: "'cc OSSL_ACKM \<Rightarrow> u64" where
  "ackm_ack_eliciting_bytes_in_flight ackm =
     foldl (\<lambda>total i. total + ack_eliciting_bytes_in_flight ackm i) 0 pn_spaces"

definition range_contains :: "OSSL_QUIC_ACK_RANGE \<Rightarrow> QUIC_PN \<Rightarrow> bool" where
  "range_contains r pn \<longleftrightarrow> pn \<ge> r_start r \<and> pn \<le> r_end r"

text \<open>
  The walk from the newest candidate packet downwards, the packets in the first argument, with the
  ranges from \<open>ridx\<close> on in the second.
\<close>

fun newly_acked_walk ::
  "OSSL_ACKM_TX_PKT list \<Rightarrow> OSSL_QUIC_ACK_RANGE list \<Rightarrow> tx_pkt_history_st \<Rightarrow>
   tx_pkt_history_st \<times> OSSL_ACKM_TX_PKT list" where
  "newly_acked_walk [] rs h = (h, [])"
| "newly_acked_walk (pkt # ps) [] h = (h, [])"
| "newly_acked_walk (pkt # ps) (r # rs) h =
     (if range_contains r (pkt_num pkt) then
        let h = fst (tx_pkt_history_remove h (pkt_num pkt));
            (h, acked) = newly_acked_walk ps (r # rs) h
        in (h, pkt # acked)
      else if pkt_num pkt > r_end r then newly_acked_walk ps (r # rs) h
      else newly_acked_walk (pkt # ps) rs h)"

definition ackm_detect_and_remove_newly_acked_pkts ::
  "'cc OSSL_ACKM \<Rightarrow> OSSL_QUIC_FRAME_ACK \<Rightarrow> pn_space \<Rightarrow> 'cc OSSL_ACKM \<times> OSSL_ACKM_TX_PKT list" where
  "ackm_detect_and_remove_newly_acked_pkts ackm a space =
     (let h = tx_history ackm space;
          from_tail = rev (packets h);
          start = (case tx_pkt_history_by_pkt_num h (r_end (hd (ack_ranges a))) of
                     None \<Rightarrow> from_tail
                   | Some pkt \<Rightarrow> dropWhile (\<lambda>p. p \<noteq> pkt) from_tail);
          (h, acked) = newly_acked_walk start (ack_ranges a) h
      in (ackm\<lparr>tx_history := (tx_history ackm)(space := h)\<rparr>, acked))"

definition ackm_loss_delay :: "'cc OSSL_ACKM \<Rightarrow> OSSL_TIME" where
  "ackm_loss_delay ackm =
     (let rtt = ossl_statm_get_rtt_info (statm ackm);
          loss_delay = ossl_time_multiply (ossl_time_max (ri_latest_rtt rtt) (ri_smoothed_rtt rtt))
            K_TIME_THRESHOLD_NUM;
          loss_delay = ossl_time_divide loss_delay K_TIME_THRESHOLD_DEN
      in ossl_time_max loss_delay K_GRANULARITY)"

text \<open>The loop body: the packet is past due, is due later, or is newer than the largest acknowledged.\<close>

fun lost_walk ::
  "OSSL_TIME \<Rightarrow> OSSL_TIME \<Rightarrow> QUIC_PN \<Rightarrow> OSSL_ACKM_TX_PKT list \<Rightarrow> tx_pkt_history_st \<Rightarrow> OSSL_TIME \<Rightarrow>
   tx_pkt_history_st \<times> OSSL_TIME \<times> OSSL_ACKM_TX_PKT list" where
  "lost_walk loss_delay lost_send_time largest [] h lt = (h, lt, [])"
| "lost_walk loss_delay lost_send_time largest (pkt # ps) h lt =
     (if pkt_num pkt > largest then lost_walk loss_delay lost_send_time largest ps h lt
      else if ossl_time_compare (tx_time pkt) lost_send_time \<le> 0
              \<or> largest \<ge> pkt_num pkt + K_PKT_THRESHOLD then
        let h = fst (tx_pkt_history_remove h (pkt_num pkt));
            (h, lt, lost) = lost_walk loss_delay lost_send_time largest ps h lt
        in (h, lt, pkt # lost)
      else
        let due = ossl_time_add (tx_time pkt) loss_delay;
            lt = (if ossl_time_is_zero lt then due else ossl_time_min lt due)
        in lost_walk loss_delay lost_send_time largest ps h lt)"

definition ackm_detect_and_remove_lost_pkts ::
  "OSSL_TIME \<Rightarrow> 'cc OSSL_ACKM \<Rightarrow> pn_space \<Rightarrow> 'cc OSSL_ACKM \<times> OSSL_ACKM_TX_PKT list" where
  "ackm_detect_and_remove_lost_pkts now ackm space =
     (let loss_delay = ackm_loss_delay ackm;
          lost_send_time = ossl_time_subtract now loss_delay;
          h = tx_history ackm space;
          (h, lt, lost) = lost_walk loss_delay lost_send_time (largest_acked_pkt ackm space)
            (packets h) h ossl_time_zero
      in (ackm\<lparr>tx_history := (tx_history ackm)(space := h),
               loss_time := (loss_time ackm)(space := lt)\<rparr>, lost))"

section \<open>The loss detection timer\<close>

definition ackm_get_loss_time_and_space :: "'cc OSSL_ACKM \<Rightarrow> OSSL_TIME \<times> pn_space" where
  "ackm_get_loss_time_and_space ackm =
     foldl (\<lambda>(t, space) i.
         if ossl_time_is_zero t \<or> ossl_time_compare (loss_time ackm i) t = - 1
         then (loss_time ackm i, i) else (t, space))
       (loss_time ackm QUIC_PN_SPACE_INITIAL, QUIC_PN_SPACE_INITIAL)
       [QUIC_PN_SPACE_HANDSHAKE, QUIC_PN_SPACE_APP]"

definition pto_backoff :: "'cc OSSL_ACKM \<Rightarrow> u64" where
  "pto_backoff ackm = push_bit (unat (min_u32 (pto_count ackm) MAX_PTO_COUNT)) 1"

fun pto_loop ::
  "'cc OSSL_ACKM \<Rightarrow> pn_space list \<Rightarrow> OSSL_TIME \<Rightarrow> OSSL_TIME \<Rightarrow> pn_space \<Rightarrow> OSSL_TIME \<times> pn_space" where
  "pto_loop ackm [] duration pto_timeout pto_space = (pto_timeout, pto_space)"
| "pto_loop ackm (i # is) duration pto_timeout pto_space =
     (if ack_eliciting_bytes_in_flight ackm i = 0 \<and> (handshake_confirmed ackm \<or> is_server ackm)
      then pto_loop ackm is duration pto_timeout pto_space
      else if i = QUIC_PN_SPACE_APP \<and> \<not> handshake_confirmed ackm then (pto_timeout, pto_space)
      else
        let duration =
              (if i = QUIC_PN_SPACE_APP \<and> \<not> ossl_time_is_infinite (rx_max_ack_delay ackm)
               then ossl_time_add duration
                      (ossl_time_multiply (rx_max_ack_delay ackm) (pto_backoff ackm))
               else duration);
            t = ossl_time_add (time_of_last_ack_eliciting_pkt ackm i) duration
        in if \<not> ossl_time_is_zero (time_of_last_ack_eliciting_pkt ackm i)
              \<and> ossl_time_compare t pto_timeout < 0
           then pto_loop ackm is duration t i
           else pto_loop ackm is duration pto_timeout pto_space)"

definition ackm_get_pto_time_and_space :: "OSSL_TIME \<Rightarrow> 'cc OSSL_ACKM \<Rightarrow> OSSL_TIME \<times> pn_space" where
  "ackm_get_pto_time_and_space now ackm =
     (let rtt = ossl_statm_get_rtt_info (statm ackm);
          duration = ossl_time_add (ri_smoothed_rtt rtt)
            (ossl_time_max (ossl_time_multiply (ri_rtt_variance rtt) 4) K_GRANULARITY);
          duration = ossl_time_multiply duration (pto_backoff ackm)
      in if ackm_ack_eliciting_bytes_in_flight ackm = 0
         then (ossl_time_add now duration,
               if discarded ackm QUIC_PN_SPACE_INITIAL then QUIC_PN_SPACE_HANDSHAKE
               else QUIC_PN_SPACE_INITIAL)
         else pto_loop ackm pn_spaces duration ossl_time_infinite QUIC_PN_SPACE_INITIAL)"

definition ackm_set_loss_detection_timer_actual :: "'cc OSSL_ACKM \<Rightarrow> OSSL_TIME \<Rightarrow> 'cc OSSL_ACKM" where
  "ackm_set_loss_detection_timer_actual ackm deadline =
     ackm\<lparr>loss_detection_deadline := deadline,
          cb_log := cb_log ackm @ (if loss_detection_deadline_cb ackm then [Loss_Deadline deadline] else [])\<rparr>"

definition ackm_set_loss_detection_timer :: "OSSL_TIME \<Rightarrow> 'cc OSSL_ACKM \<Rightarrow> 'cc OSSL_ACKM" where
  "ackm_set_loss_detection_timer now ackm =
     (case ackm_get_loss_time_and_space ackm of (earliest_loss_time, _) \<Rightarrow>
        if \<not> ossl_time_is_zero earliest_loss_time
        then ackm_set_loss_detection_timer_actual ackm earliest_loss_time
        else if ackm_ack_eliciting_bytes_in_flight ackm = 0 \<and> peer_completed_addr_validation ackm
        then ackm_set_loss_detection_timer_actual ackm ossl_time_zero
        else ackm_set_loss_detection_timer_actual ackm (fst (ackm_get_pto_time_and_space now ackm)))"

section \<open>Reporting packets\<close>

definition ackm_lost_one :: "bool \<Rightarrow> OSSL_ACKM_TX_PKT \<Rightarrow> 'cc OSSL_ACKM \<Rightarrow> 'cc OSSL_ACKM" where
  "ackm_lost_one pseudo p ackm =
     (let ackm =
        (if is_inflight p then
           let ackm = ackm\<lparr>bytes_in_flight := bytes_in_flight ackm - num_bytes p\<rparr>;
               ackm = (if is_ack_eliciting p
                       then ackm\<lparr>ack_eliciting_bytes_in_flight :=
                              (ack_eliciting_bytes_in_flight ackm)
                                (pkt_space p := ack_eliciting_bytes_in_flight ackm (pkt_space p) - num_bytes p)\<rparr>
                       else ackm)
           in if \<not> pseudo
              then ackm\<lparr>cc_data := fst (on_data_lost (cc_method ackm)
                          \<lparr>li_tx_time = tx_time p, li_tx_size = num_bytes p\<rparr> (cc_data ackm))\<rparr>
              else ackm
         else ackm)
      in ackm\<lparr>cb_log := cb_log ackm @ [On_Lost p]\<rparr>)"

definition ackm_in_persistent_congestion :: "'cc OSSL_ACKM \<Rightarrow> OSSL_ACKM_TX_PKT list \<Rightarrow> bool" where
  "ackm_in_persistent_congestion ackm lpkts = False"

definition ackm_on_pkts_lost ::
  "OSSL_TIME \<Rightarrow> 'cc OSSL_ACKM \<Rightarrow> OSSL_ACKM_TX_PKT list \<Rightarrow> bool \<Rightarrow> 'cc OSSL_ACKM" where
  "ackm_on_pkts_lost now ackm lpkts pseudo =
     (let ackm = fold (ackm_lost_one pseudo) lpkts ackm;
          flags = (\<not> ossl_time_is_zero (first_rtt_sample ackm) \<and> ackm_in_persistent_congestion ackm lpkts)
      in ackm\<lparr>cc_data := fst (on_data_lost_finished (cc_method ackm) now flags (cc_data ackm))\<rparr>)"

definition ackm_acked_one :: "OSSL_ACKM_TX_PKT \<Rightarrow> 'cc OSSL_ACKM \<Rightarrow> 'cc OSSL_ACKM" where
  "ackm_acked_one p ackm =
     (let ackm =
        (if is_inflight p then
           let ackm = ackm\<lparr>bytes_in_flight := bytes_in_flight ackm - num_bytes p\<rparr>;
               ackm = (if is_ack_eliciting p
                       then ackm\<lparr>ack_eliciting_bytes_in_flight :=
                              (ack_eliciting_bytes_in_flight ackm)
                                (pkt_space p := ack_eliciting_bytes_in_flight ackm (pkt_space p) - num_bytes p)\<rparr>
                       else ackm)
           in if largest_acked p \<noteq> QUIC_PN_INVALID
              then ackm\<lparr>rx_history := (rx_history ackm)(pkt_space p :=
                     fst (rx_pkt_history_bump_watermark (rx_history ackm (pkt_space p)) (largest_acked p + 1)))\<rparr>
              else ackm
         else ackm);
          ackm = ackm\<lparr>cb_log := cb_log ackm @ [On_Acked p]\<rparr>
      in if is_inflight p
         then ackm\<lparr>cc_data := fst (on_data_acked (cc_method ackm)
                \<lparr>ai_tx_time = tx_time p, ai_tx_size = num_bytes p\<rparr> (cc_data ackm))\<rparr>
         else ackm)"

definition ackm_on_pkts_acked :: "'cc OSSL_ACKM \<Rightarrow> OSSL_ACKM_TX_PKT list \<Rightarrow> 'cc OSSL_ACKM" where
  "ackm_on_pkts_acked ackm apkts = fold ackm_acked_one apkts ackm"

section \<open>Entry points of the transmit side\<close>

definition ossl_ackm_on_tx_packet ::
  "OSSL_TIME \<Rightarrow> 'cc OSSL_ACKM \<Rightarrow> OSSL_ACKM_TX_PKT \<Rightarrow> 'cc OSSL_ACKM \<times> bool" where
  "ossl_ackm_on_tx_packet now ackm pkt =
     (let space = pkt_space pkt in
      if ossl_time_is_zero (tx_time pkt)
         \<or> ossl_time_compare (time_of_last_ack_eliciting_pkt ackm space) (tx_time pkt) > 0
      then (ackm, False)
      else if num_bytes pkt = 0 then (ackm, False)
      else if \<not> is_inflight pkt \<and> is_ack_eliciting pkt then (ackm, False)
      else case tx_pkt_history_add (tx_history ackm space) pkt of (h, ok) \<Rightarrow>
        if \<not> ok then (ackm\<lparr>tx_history := (tx_history ackm)(space := h)\<rparr>, False)
        else
          let ackm = ackm\<lparr>tx_history := (tx_history ackm)(space := h)\<rparr> in
          if \<not> is_inflight pkt then (ackm, True)
          else
            let ackm =
                  (if is_ack_eliciting pkt
                   then ackm\<lparr>time_of_last_ack_eliciting_pkt :=
                            (time_of_last_ack_eliciting_pkt ackm)(space := tx_time pkt),
                          ack_eliciting_bytes_in_flight :=
                            (ack_eliciting_bytes_in_flight ackm)
                              (space := ack_eliciting_bytes_in_flight ackm space + num_bytes pkt)\<rparr>
                   else ackm);
                ackm = ackm\<lparr>bytes_in_flight := bytes_in_flight ackm + num_bytes pkt\<rparr>;
                ackm = ackm_set_loss_detection_timer now ackm
            in (ackm\<lparr>cc_data := fst (on_data_sent (cc_method ackm) (num_bytes pkt) (cc_data ackm))\<rparr>, True))"

definition ossl_ackm_on_rx_datagram :: "'cc OSSL_ACKM \<Rightarrow> u64 \<Rightarrow> 'cc OSSL_ACKM \<times> bool" where
  "ossl_ackm_on_rx_datagram ackm n = (ackm, True)"

definition ackm_process_ecn ::
  "OSSL_TIME \<Rightarrow> 'cc OSSL_ACKM \<Rightarrow> OSSL_QUIC_FRAME_ACK \<Rightarrow> pn_space \<Rightarrow> 'cc OSSL_ACKM" where
  "ackm_process_ecn now ackm a space =
     (if ecnce a > peer_ecnce ackm space then
        let ackm = ackm\<lparr>peer_ecnce := (peer_ecnce ackm)(space := ecnce a)\<rparr>
        in case tx_pkt_history_by_pkt_num (tx_history ackm space) (r_end (hd (ack_ranges a))) of
             None \<Rightarrow> ackm
           | Some pkt \<Rightarrow>
               ackm\<lparr>cc_data := fst (on_ecn (cc_method ackm) now
                 \<lparr>ei_largest_acked_time = tx_time pkt\<rparr> (cc_data ackm))\<rparr>
      else ackm)"

definition ackm_update_largest_acked ::
  "'cc OSSL_ACKM \<Rightarrow> OSSL_QUIC_FRAME_ACK \<Rightarrow> pn_space \<Rightarrow> 'cc OSSL_ACKM" where
  "ackm_update_largest_acked ackm a space =
     ackm\<lparr>largest_acked_pkt := (largest_acked_pkt ackm)(space :=
       (if largest_acked_pkt ackm space = QUIC_PN_INVALID then r_end (hd (ack_ranges a))
        else ossl_quic_pn_max (largest_acked_pkt ackm space) (r_end (hd (ack_ranges a)))))\<rparr>"

definition ackm_update_rtt ::
  "OSSL_TIME \<Rightarrow> 'cc OSSL_ACKM \<Rightarrow> OSSL_QUIC_FRAME_ACK \<Rightarrow> OSSL_ACKM_TX_PKT list \<Rightarrow> 'cc OSSL_ACKM" where
  "ackm_update_rtt now ackm a na_pkts =
     (if pkt_num (hd na_pkts) = r_end (hd (ack_ranges a)) \<and> ack_includes_ack_eliciting na_pkts then
        let ackm = (if ossl_time_is_zero (first_rtt_sample ackm) then ackm\<lparr>first_rtt_sample := now\<rparr>
                    else ackm);
            ack_delay = (if handshake_confirmed ackm
                         then ossl_time_min (delay_time a) (rx_max_ack_delay ackm)
                         else delay_time a)
        in ackm\<lparr>statm := ossl_statm_update_rtt (statm ackm) ack_delay
                  (ossl_time_subtract now (tx_time (hd na_pkts)))\<rparr>
      else ackm)"

definition ackm_handle_lost :: "OSSL_TIME \<Rightarrow> 'cc OSSL_ACKM \<Rightarrow> pn_space \<Rightarrow> 'cc OSSL_ACKM" where
  "ackm_handle_lost now ackm space =
     (case ackm_detect_and_remove_lost_pkts now ackm space of (ackm, lost_pkts) \<Rightarrow>
        if lost_pkts \<noteq> [] then ackm_on_pkts_lost now ackm lost_pkts False else ackm)"

definition ossl_ackm_on_rx_ack_frame ::
  "OSSL_TIME \<Rightarrow> 'cc OSSL_ACKM \<Rightarrow> OSSL_QUIC_FRAME_ACK \<Rightarrow> pn_space \<Rightarrow> 'cc OSSL_ACKM \<times> bool" where
  "ossl_ackm_on_rx_ack_frame now ackm a space =
     (let ackm = ackm_update_largest_acked ackm a space;
          must_set_timer = (\<not> peer_completed_addr_validation ackm \<and> space = QUIC_PN_SPACE_HANDSHAKE);
          ackm = (if must_set_timer then ackm\<lparr>peer_completed_addr_validation := True\<rparr> else ackm);
          (ackm, na_pkts) = ackm_detect_and_remove_newly_acked_pkts ackm a space
      in if na_pkts = [] then
           (if must_set_timer then ackm_set_loss_detection_timer now ackm else ackm, True)
         else
           let ackm = ackm_update_rtt now ackm a na_pkts;
               ackm = (if ecn_present a then ackm_process_ecn now ackm a space else ackm);
               ackm = ackm_handle_lost now ackm space;
               ackm = ackm_on_pkts_acked ackm na_pkts;
               ackm = (if peer_completed_addr_validation ackm then ackm\<lparr>pto_count := 0\<rparr> else ackm)
           in (ackm_set_loss_detection_timer now ackm, True))"

text \<open>One packet of a discarded space, with the running total of invalidated bytes.\<close>

definition ackm_discard_one :: "OSSL_ACKM_TX_PKT \<Rightarrow> 'cc OSSL_ACKM \<times> u64 \<Rightarrow> 'cc OSSL_ACKM \<times> u64" where
  "ackm_discard_one p st =
     (case st of (ackm, n) \<Rightarrow>
        let (ackm, n) =
              (if is_inflight p
               then (ackm\<lparr>bytes_in_flight := bytes_in_flight ackm - num_bytes p\<rparr>, n + num_bytes p)
               else (ackm, n))
        in (ackm\<lparr>cb_log := cb_log ackm @ [On_Discarded p]\<rparr>, n))"

definition ossl_ackm_on_pkt_space_discarded ::
  "OSSL_TIME \<Rightarrow> 'cc OSSL_ACKM \<Rightarrow> pn_space \<Rightarrow> 'cc OSSL_ACKM \<times> bool" where
  "ossl_ackm_on_pkt_space_discarded now ackm space =
     (if discarded ackm space then (ackm, False)
      else
        let ackm = (if space = QUIC_PN_SPACE_HANDSHAKE
                    then ackm\<lparr>peer_completed_addr_validation := True\<rparr> else ackm);
            (ackm, num_bytes_invalidated) = fold ackm_discard_one (packets (tx_history ackm space)) (ackm, 0);
            ackm = ackm\<lparr>tx_history := (tx_history ackm)(space := tx_pkt_history_destroy (tx_history ackm space)),
                        rx_history := (rx_history ackm)(space := rx_pkt_history_destroy (rx_history ackm space))\<rparr>;
            ackm = (if num_bytes_invalidated > 0
                    then ackm\<lparr>cc_data := fst (on_data_invalidated (cc_method ackm) num_bytes_invalidated (cc_data ackm))\<rparr>
                    else ackm);
            ackm = ackm\<lparr>time_of_last_ack_eliciting_pkt := (time_of_last_ack_eliciting_pkt ackm)(space := ossl_time_zero),
                        loss_time := (loss_time ackm)(space := ossl_time_zero),
                        pto_count := 0,
                        discarded := (discarded ackm)(space := True),
                        ack_eliciting_bytes_in_flight := (ack_eliciting_bytes_in_flight ackm)(space := 0)\<rparr>
        in (ackm_set_loss_detection_timer now ackm, True))"

definition ossl_ackm_on_handshake_confirmed :: "OSSL_TIME \<Rightarrow> 'cc OSSL_ACKM \<Rightarrow> 'cc OSSL_ACKM \<times> bool" where
  "ossl_ackm_on_handshake_confirmed now ackm =
     (ackm_set_loss_detection_timer now
        (ackm\<lparr>handshake_confirmed := True, peer_completed_addr_validation := True\<rparr>), True)"

definition ackm_queue_probe_anti_deadlock_handshake :: "'cc OSSL_ACKM \<Rightarrow> 'cc OSSL_ACKM" where
  "ackm_queue_probe_anti_deadlock_handshake ackm =
     ackm\<lparr>pending_probe := (pending_probe ackm)
       \<lparr>anti_deadlock_handshake := anti_deadlock_handshake (pending_probe ackm) + 1\<rparr>\<rparr>"

definition ackm_queue_probe_anti_deadlock_initial :: "'cc OSSL_ACKM \<Rightarrow> 'cc OSSL_ACKM" where
  "ackm_queue_probe_anti_deadlock_initial ackm =
     ackm\<lparr>pending_probe := (pending_probe ackm)
       \<lparr>anti_deadlock_initial := anti_deadlock_initial (pending_probe ackm) + 1\<rparr>\<rparr>"

definition ackm_queue_probe :: "'cc OSSL_ACKM \<Rightarrow> pn_space \<Rightarrow> 'cc OSSL_ACKM" where
  "ackm_queue_probe ackm space =
     ackm\<lparr>pending_probe := (pending_probe ackm)
       \<lparr>pto := (pto (pending_probe ackm))(space := pto (pending_probe ackm) space + 1)\<rparr>\<rparr>"

definition ossl_ackm_on_timeout :: "OSSL_TIME \<Rightarrow> 'cc OSSL_ACKM \<Rightarrow> 'cc OSSL_ACKM \<times> bool" where
  "ossl_ackm_on_timeout now ackm =
     (case ackm_get_loss_time_and_space ackm of (earliest_loss_time, space) \<Rightarrow>
        if \<not> ossl_time_is_zero earliest_loss_time
        then (ackm_set_loss_detection_timer now (ackm_handle_lost now ackm space), True)
        else
          let ackm =
                (if ackm_ack_eliciting_bytes_in_flight ackm = 0 then
                   (if discarded ackm QUIC_PN_SPACE_INITIAL
                    then ackm_queue_probe_anti_deadlock_handshake ackm
                    else ackm_queue_probe_anti_deadlock_initial ackm)
                 else ackm_queue_probe ackm (snd (ackm_get_pto_time_and_space now ackm)));
              ackm = ackm\<lparr>pto_count := pto_count ackm + 1\<rparr>
          in (ackm_set_loss_detection_timer now ackm, True))"

definition ossl_ackm_get_loss_detection_deadline :: "'cc OSSL_ACKM \<Rightarrow> OSSL_TIME" where
  "ossl_ackm_get_loss_detection_deadline ackm = loss_detection_deadline ackm"

definition ossl_ackm_get0_probe_request :: "'cc OSSL_ACKM \<Rightarrow> OSSL_ACKM_PROBE_INFO" where
  "ossl_ackm_get0_probe_request ackm = pending_probe ackm"

definition ossl_ackm_get_largest_unacked :: "'cc OSSL_ACKM \<Rightarrow> pn_space \<Rightarrow> QUIC_PN option" where
  "ossl_ackm_get_largest_unacked ackm space =
     (let ps = packets (tx_history ackm space) in if ps \<noteq> [] then Some (pkt_num (last ps)) else None)"

definition ossl_ackm_mark_packet_pseudo_lost ::
  "OSSL_TIME \<Rightarrow> 'cc OSSL_ACKM \<Rightarrow> pn_space \<Rightarrow> QUIC_PN \<Rightarrow> 'cc OSSL_ACKM \<times> bool" where
  "ossl_ackm_mark_packet_pseudo_lost now ackm space pn =
     (case tx_pkt_history_by_pkt_num (tx_history ackm space) pn of
        None \<Rightarrow> (ackm, False)
      | Some pkt \<Rightarrow>
          let ackm = ackm\<lparr>tx_history := (tx_history ackm)
                (space := fst (tx_pkt_history_remove (tx_history ackm space) (pkt_num pkt)))\<rparr>
          in (ackm_on_pkts_lost now ackm [pkt] True, True))"

definition ossl_ackm_get_pto_duration :: "'cc OSSL_ACKM \<Rightarrow> OSSL_TIME" where
  "ossl_ackm_get_pto_duration ackm =
     (let rtt = ossl_statm_get_rtt_info (statm ackm);
          duration = ossl_time_add (ri_smoothed_rtt rtt)
            (ossl_time_max (ossl_time_multiply (ri_rtt_variance rtt) 4) K_GRANULARITY)
      in if \<not> ossl_time_is_infinite (rx_max_ack_delay ackm)
         then ossl_time_add duration (rx_max_ack_delay ackm) else duration)"

definition ossl_ackm_get_largest_acked :: "'cc OSSL_ACKM \<Rightarrow> pn_space \<Rightarrow> QUIC_PN" where
  "ossl_ackm_get_largest_acked ackm space = largest_acked_pkt ackm space"

definition ossl_ackm_set_rx_max_ack_delay :: "'cc OSSL_ACKM \<Rightarrow> OSSL_TIME \<Rightarrow> 'cc OSSL_ACKM" where
  "ossl_ackm_set_rx_max_ack_delay ackm d = ackm\<lparr>rx_max_ack_delay := d\<rparr>"

definition ossl_ackm_set_tx_max_ack_delay :: "'cc OSSL_ACKM \<Rightarrow> OSSL_TIME \<Rightarrow> 'cc OSSL_ACKM" where
  "ossl_ackm_set_tx_max_ack_delay ackm d = ackm\<lparr>tx_max_ack_delay := d\<rparr>"

definition ossl_ackm_set_loss_detection_deadline_callback :: "'cc OSSL_ACKM \<Rightarrow> bool \<Rightarrow> 'cc OSSL_ACKM" where
  "ossl_ackm_set_loss_detection_deadline_callback ackm fn = ackm\<lparr>loss_detection_deadline_cb := fn\<rparr>"

definition ossl_ackm_set_ack_deadline_callback :: "'cc OSSL_ACKM \<Rightarrow> bool \<Rightarrow> 'cc OSSL_ACKM" where
  "ossl_ackm_set_ack_deadline_callback ackm fn = ackm\<lparr>ack_deadline_cb := fn\<rparr>"

section \<open>Entry points of the receive side\<close>

definition ossl_ackm_get_ack_deadline :: "'cc OSSL_ACKM \<Rightarrow> pn_space \<Rightarrow> OSSL_TIME" where
  "ossl_ackm_get_ack_deadline ackm space =
     (if rx_ack_desired ackm space then ossl_time_zero else rx_ack_flush_deadline ackm space)"

definition ossl_ackm_is_rx_pn_processable :: "'cc OSSL_ACKM \<Rightarrow> QUIC_PN \<Rightarrow> pn_space \<Rightarrow> bool" where
  "ossl_ackm_is_rx_pn_processable ackm pn space \<longleftrightarrow>
     pn \<ge> rx_watermark (rx_history ackm space) \<and> \<not> ossl_uint_set_query (pn_set (rx_history ackm space)) pn"

definition ossl_ackm_is_ack_desired :: "OSSL_TIME \<Rightarrow> 'cc OSSL_ACKM \<Rightarrow> pn_space \<Rightarrow> bool" where
  "ossl_ackm_is_ack_desired now ackm space \<longleftrightarrow>
     rx_ack_desired ackm space \<or>
     (\<not> ossl_time_is_infinite (rx_ack_flush_deadline ackm space) \<and>
      ossl_time_compare now (rx_ack_flush_deadline ackm space) \<ge> 0)"

definition ack_contains :: "OSSL_QUIC_FRAME_ACK \<Rightarrow> QUIC_PN \<Rightarrow> bool" where
  "ack_contains a pn = list_ex (\<lambda>r. range_contains r pn) (ack_ranges a)"

definition ackm_is_missing :: "'cc OSSL_ACKM \<Rightarrow> pn_space \<Rightarrow> QUIC_PN \<Rightarrow> bool" where
  "ackm_is_missing ackm space pn \<longleftrightarrow>
     length (ack_ranges (ack ackm space)) > 0 \<and> pn \<le> r_end (hd (ack_ranges (ack ackm space))) \<and>
     \<not> ack_contains (ack ackm space) pn"

definition ackm_has_newly_missing :: "'cc OSSL_ACKM \<Rightarrow> pn_space \<Rightarrow> bool" where
  "ackm_has_newly_missing ackm space =
     (let s = pn_set (rx_history ackm space) in
      if s = [] then False
      else length (ack_ranges (ack ackm space)) > 0 \<and> r_start (last s) = r_end (last s) \<and>
           r_start (last s) > r_end (hd (ack_ranges (ack ackm space))) + 1)"

definition ackm_set_flush_deadline :: "'cc OSSL_ACKM \<Rightarrow> pn_space \<Rightarrow> OSSL_TIME \<Rightarrow> 'cc OSSL_ACKM" where
  "ackm_set_flush_deadline ackm space deadline =
     (let ackm = ackm\<lparr>rx_ack_flush_deadline := (rx_ack_flush_deadline ackm)(space := deadline)\<rparr>
      in if ack_deadline_cb ackm
         then ackm\<lparr>cb_log := cb_log ackm @ [Ack_Deadline (ossl_ackm_get_ack_deadline ackm space) space]\<rparr>
         else ackm)"

definition ackm_queue_ack :: "'cc OSSL_ACKM \<Rightarrow> pn_space \<Rightarrow> 'cc OSSL_ACKM" where
  "ackm_queue_ack ackm space =
     ackm_set_flush_deadline (ackm\<lparr>rx_ack_desired := (rx_ack_desired ackm)(space := True)\<rparr>) space
       ossl_time_infinite"

definition ackm_on_rx_ack_eliciting ::
  "'cc OSSL_ACKM \<Rightarrow> OSSL_TIME \<Rightarrow> pn_space \<Rightarrow> bool \<Rightarrow> 'cc OSSL_ACKM" where
  "ackm_on_rx_ack_eliciting ackm rx_time space was_missing =
     (if rx_ack_desired ackm space then ackm
      else
        let ackm = ackm\<lparr>rx_ack_eliciting_pkts_since_last_ack :=
              (rx_ack_eliciting_pkts_since_last_ack ackm)
                (space := rx_ack_eliciting_pkts_since_last_ack ackm space + 1)\<rparr>
        in if \<not> rx_ack_generated ackm space \<or> was_missing
              \<or> rx_ack_eliciting_pkts_since_last_ack ackm space \<ge> PKTS_BEFORE_ACK
              \<or> ackm_has_newly_missing ackm space
           then ackm_queue_ack ackm space
           else
             let d = (if space = QUIC_PN_SPACE_INITIAL \<or> space = QUIC_PN_SPACE_HANDSHAKE
                      then ossl_time_zero else tx_max_ack_delay ackm);
                 due = ossl_time_add rx_time d
             in ackm_set_flush_deadline ackm space
                  (if ossl_time_is_infinite (rx_ack_flush_deadline ackm space) then due
                   else ossl_time_min (rx_ack_flush_deadline ackm space) due))"

definition ackm_count_ecn :: "'cc OSSL_ACKM \<Rightarrow> pn_space \<Rightarrow> ackm_ecn \<Rightarrow> 'cc OSSL_ACKM" where
  "ackm_count_ecn ackm space e =
     (case e of
        OSSL_ACKM_ECN_ECT0 \<Rightarrow> ackm\<lparr>rx_ect0 := (rx_ect0 ackm)(space := rx_ect0 ackm space + 1)\<rparr>
      | OSSL_ACKM_ECN_ECT1 \<Rightarrow> ackm\<lparr>rx_ect1 := (rx_ect1 ackm)(space := rx_ect1 ackm space + 1)\<rparr>
      | OSSL_ACKM_ECN_ECNCE \<Rightarrow> ackm\<lparr>rx_ecnce := (rx_ecnce ackm)(space := rx_ecnce ackm space + 1)\<rparr>
      | OSSL_ACKM_ECN_NONE \<Rightarrow> ackm)"

definition ossl_ackm_on_rx_packet :: "bool \<Rightarrow> 'cc OSSL_ACKM \<Rightarrow> OSSL_ACKM_RX_PKT \<Rightarrow> 'cc OSSL_ACKM \<times> bool" where
  "ossl_ackm_on_rx_packet mem_ok ackm pkt =
     (let space = rxp_pkt_space pkt; pn = rxp_pkt_num pkt in
      if \<not> ossl_ackm_is_rx_pn_processable ackm pn space then (ackm, True)
      else
        let ackm = (if pn > rx_largest_pn ackm space
                    then ackm\<lparr>rx_largest_pn := (rx_largest_pn ackm)(space := pn),
                              rx_largest_time := (rx_largest_time ackm)(space := rxp_time pkt)\<rparr>
                    else ackm);
            was_missing = ackm_is_missing ackm space pn;
            (h, ok) = rx_pkt_history_add_pn mem_ok (rx_history ackm space) pn;
            ackm = ackm\<lparr>rx_history := (rx_history ackm)(space := h)\<rparr>
        in if \<not> ok then (ackm, False)
           else
             let ackm = (if rxp_is_ack_eliciting pkt
                         then ackm_on_rx_ack_eliciting ackm (rxp_time pkt) space was_missing else ackm)
             in (ackm_count_ecn ackm space (rxp_ecn pkt), True))"

text \<open>
  The bound on the ranges copied is \<open>OSSL_NELEM(ackm->ack_ranges)\<close>. The array has one row per packet
  number space, so its number of elements is \<open>QUIC_PN_SPACE_NUM\<close>.
\<close>

definition QUIC_PN_SPACE_NUM :: nat where
  "QUIC_PN_SPACE_NUM = 3"

definition ackm_fill_rx_ack_ranges :: "'cc OSSL_ACKM \<Rightarrow> pn_space \<Rightarrow> OSSL_QUIC_ACK_RANGE list" where
  "ackm_fill_rx_ack_ranges ackm space = take QUIC_PN_SPACE_NUM (rev (pn_set (rx_history ackm space)))"

definition ossl_ackm_get_ack_frame ::
  "OSSL_TIME \<Rightarrow> 'cc OSSL_ACKM \<Rightarrow> pn_space \<Rightarrow> 'cc OSSL_ACKM \<times> OSSL_QUIC_FRAME_ACK" where
  "ossl_ackm_get_ack_frame now ackm space =
     (let a = \<lparr>ack_ranges = ackm_fill_rx_ack_ranges ackm space,
            delay_time =
              (if \<not> ossl_time_is_zero (rx_largest_time ackm space)
                  \<and> ossl_time_compare now (rx_largest_time ackm space) > 0 \<and> space = QUIC_PN_SPACE_APP
               then ossl_time_subtract now (rx_largest_time ackm space) else ossl_time_zero),
            ect0 = rx_ect0 ackm space, ect1 = rx_ect1 ackm space, ecnce = rx_ecnce ackm space,
            ecn_present = True\<rparr>;
          ackm = ackm\<lparr>ack := (ack ackm)(space := a),
            rx_ack_eliciting_pkts_since_last_ack := (rx_ack_eliciting_pkts_since_last_ack ackm)(space := 0),
            rx_ack_generated := (rx_ack_generated ackm)(space := True),
            rx_ack_desired := (rx_ack_desired ackm)(space := False)\<rparr>
      in (ackm_set_flush_deadline ackm space ossl_time_infinite, a))"

end
