(* ===== verification/Cc_Newreno.thy ===== *)
theory Cc_Newreno
  imports Quic_Cc
begin

text \<open>
  The NewReno congestion controller, \<open>ssl/quic/cc_newreno.c\<close>. The diagnostic outputs are addresses
  into the store \<open>diag_mem\<close>, so that parameters bound to the same location alias as they do in the
  code. \<open>OSSL_PARAM\<close> arrays are lists; reading an integer out of a parameter
  (\<open>OSSL_PARAM_get_size_t\<close>) is the argument \<open>get_size_t\<close>.
\<close>

section \<open>State\<close>

record OSSL_PARAM =
  p_key :: string
  p_data_type :: nat
  p_data :: "nat option"
  p_data_size :: nat

definition OSSL_PARAM_UNSIGNED_INTEGER :: nat where
  "OSSL_PARAM_UNSIGNED_INTEGER = 2"

definition OSSL_PARAM_locate_const :: "OSSL_PARAM list \<Rightarrow> string \<Rightarrow> OSSL_PARAM option" where
  "OSSL_PARAM_locate_const ps k = find (\<lambda>p. p_key p = k) ps"

record OSSL_CC_NEWRENO =
  k_init_wnd :: u64
  k_min_wnd :: u64
  k_loss_reduction_factor_num :: u32
  k_loss_reduction_factor_den :: u32
  persistent_cong_thresh :: u32
  max_dgram_size :: u64
  nr_bytes_in_flight :: u64
  cong_wnd :: u64
  slow_start_thresh :: u64
  bytes_acked :: u64
  cong_recovery_start_time :: OSSL_TIME
  processing_loss :: bool
  tx_time_of_last_loss :: OSSL_TIME
  in_congestion_recovery :: bool
  p_diag_max_dgram_payload_len :: "nat option"
  p_diag_cur_cwnd_size :: "nat option"
  p_diag_min_cwnd_size :: "nat option"
  p_diag_cur_bytes_in_flight :: "nat option"
  p_diag_cur_state :: "nat option"
  diag_mem :: "nat \<Rightarrow> u64"

definition MIN_MAX_INIT_WND_SIZE :: u64 where
  "MIN_MAX_INIT_WND_SIZE = 14720"

definition QUIC_MIN_INITIAL_DGRAM_LEN :: u64 where
  "QUIC_MIN_INITIAL_DGRAM_LEN = 1200"

text \<open>The object as \<open>OPENSSL_zalloc\<close> returns it.\<close>

definition newreno_zalloc :: OSSL_CC_NEWRENO where
  "newreno_zalloc =
     \<lparr>k_init_wnd = 0, k_min_wnd = 0, k_loss_reduction_factor_num = 0,
      k_loss_reduction_factor_den = 0, persistent_cong_thresh = 0, max_dgram_size = 0,
      nr_bytes_in_flight = 0, cong_wnd = 0, slow_start_thresh = 0, bytes_acked = 0,
      cong_recovery_start_time = 0, processing_loss = False, tx_time_of_last_loss = 0,
      in_congestion_recovery = False, p_diag_max_dgram_payload_len = None,
      p_diag_cur_cwnd_size = None, p_diag_min_cwnd_size = None,
      p_diag_cur_bytes_in_flight = None, p_diag_cur_state = None, diag_mem = (\<lambda>_. 0)\<rparr>"

section \<open>Operations\<close>

definition diag_store :: "nat option \<Rightarrow> u64 \<Rightarrow> (nat \<Rightarrow> u64) \<Rightarrow> nat \<Rightarrow> u64" where
  "diag_store p v mem = (case p of None \<Rightarrow> mem | Some a \<Rightarrow> mem(a := v))"

definition newreno_update_diag :: "OSSL_CC_NEWRENO \<Rightarrow> OSSL_CC_NEWRENO" where
  "newreno_update_diag nr =
     (let mem = diag_store (p_diag_max_dgram_payload_len nr) (max_dgram_size nr) (diag_mem nr);
          mem = diag_store (p_diag_cur_cwnd_size nr) (cong_wnd nr) mem;
          mem = diag_store (p_diag_min_cwnd_size nr) (k_min_wnd nr) mem;
          mem = diag_store (p_diag_cur_bytes_in_flight nr) (nr_bytes_in_flight nr) mem;
          mem = diag_store (p_diag_cur_state nr)
            (if in_congestion_recovery nr then of_char CHR ''R''
             else if cong_wnd nr < slow_start_thresh nr then of_char CHR ''S''
             else of_char CHR ''A'') mem
      in nr\<lparr>diag_mem := mem\<rparr>)"

definition newreno_set_max_dgram_size :: "OSSL_CC_NEWRENO \<Rightarrow> u64 \<Rightarrow> OSSL_CC_NEWRENO" where
  "newreno_set_max_dgram_size nr mds =
     (let is_reduced = (mds < max_dgram_size nr);
          max_init_wnd = 2 * mds;
          max_init_wnd = (if max_init_wnd < MIN_MAX_INIT_WND_SIZE then MIN_MAX_INIT_WND_SIZE
                          else max_init_wnd);
          init_wnd = 10 * mds;
          init_wnd = (if init_wnd > max_init_wnd then max_init_wnd else init_wnd);
          nr = nr\<lparr>max_dgram_size := mds, k_init_wnd := init_wnd, k_min_wnd := 2 * mds\<rparr>;
          nr = (if is_reduced then nr\<lparr>cong_wnd := k_init_wnd nr\<rparr> else nr)
      in newreno_update_diag nr)"

definition newreno_reset :: "OSSL_CC_NEWRENO \<Rightarrow> OSSL_CC_NEWRENO" where
  "newreno_reset nr =
     nr\<lparr>k_loss_reduction_factor_num := 1, k_loss_reduction_factor_den := 2,
        persistent_cong_thresh := 3, cong_wnd := k_init_wnd nr, nr_bytes_in_flight := 0,
        bytes_acked := 0, slow_start_thresh := UINT64_MAX,
        cong_recovery_start_time := ossl_time_zero, processing_loss := False,
        tx_time_of_last_loss := ossl_time_zero, in_congestion_recovery := False\<rparr>"

definition newreno_new :: "bool \<Rightarrow> OSSL_CC_NEWRENO option" where
  "newreno_new mem_ok =
     (if \<not> mem_ok then None
      else Some (newreno_reset (newreno_set_max_dgram_size newreno_zalloc QUIC_MIN_INITIAL_DGRAM_LEN)))"

definition newreno_set_input_params ::
  "(OSSL_PARAM \<Rightarrow> u64 option) \<Rightarrow> OSSL_PARAM list \<Rightarrow> OSSL_CC_NEWRENO \<Rightarrow> OSSL_CC_NEWRENO \<times> bool" where
  "newreno_set_input_params get_size_t params nr =
     (case OSSL_PARAM_locate_const params ''max_dgram_payload_len'' of
        None \<Rightarrow> (nr, True)
      | Some p \<Rightarrow>
          (case get_size_t p of
             None \<Rightarrow> (nr, False)
           | Some v \<Rightarrow> if v < QUIC_MIN_INITIAL_DGRAM_LEN then (nr, False)
                       else (newreno_set_max_dgram_size nr v, True)))"

definition bind_diag :: "OSSL_PARAM list \<Rightarrow> string \<Rightarrow> nat \<Rightarrow> nat option \<times> bool" where
  "bind_diag params name len =
     (case OSSL_PARAM_locate_const params name of
        None \<Rightarrow> (None, True)
      | Some p \<Rightarrow>
          if p_data_type p \<noteq> OSSL_PARAM_UNSIGNED_INTEGER \<or> p_data_size p \<noteq> len then (None, False)
          else (p_data p, True))"

definition rebind :: "nat option \<Rightarrow> nat option \<Rightarrow> nat option" where
  "rebind new old = (if new \<noteq> None then new else old)"

definition newreno_bind_diagnostic :: "OSSL_PARAM list \<Rightarrow> OSSL_CC_NEWRENO \<Rightarrow> OSSL_CC_NEWRENO \<times> bool" where
  "newreno_bind_diagnostic params nr =
     (let (mdpl, ok1) = bind_diag params ''max_dgram_payload_len'' 8;
          (cwnd, ok2) = bind_diag params ''cur_cwnd_size'' 8;
          (minw, ok3) = bind_diag params ''min_cwnd_size'' 8;
          (bif, ok4) = bind_diag params ''bytes_in_flight'' 8;
          (st, ok5) = bind_diag params ''cur_state'' 4
      in if \<not> ok1 \<or> \<not> ok2 \<or> \<not> ok3 \<or> \<not> ok4 \<or> \<not> ok5 then (nr, False)
         else (newreno_update_diag
           (nr\<lparr>p_diag_max_dgram_payload_len := rebind mdpl (p_diag_max_dgram_payload_len nr),
               p_diag_cur_cwnd_size := rebind cwnd (p_diag_cur_cwnd_size nr),
               p_diag_min_cwnd_size := rebind minw (p_diag_min_cwnd_size nr),
               p_diag_cur_bytes_in_flight := rebind bif (p_diag_cur_bytes_in_flight nr),
               p_diag_cur_state := rebind st (p_diag_cur_state nr)\<rparr>), True))"

definition unbind_diag :: "OSSL_PARAM list \<Rightarrow> string \<Rightarrow> nat option \<Rightarrow> nat option" where
  "unbind_diag params name pp =
     (if OSSL_PARAM_locate_const params name \<noteq> None then None else pp)"

definition newreno_unbind_diagnostic ::
  "OSSL_PARAM list \<Rightarrow> OSSL_CC_NEWRENO \<Rightarrow> OSSL_CC_NEWRENO \<times> bool" where
  "newreno_unbind_diagnostic params nr =
     (nr\<lparr>p_diag_max_dgram_payload_len :=
           unbind_diag params ''max_dgram_payload_len'' (p_diag_max_dgram_payload_len nr),
         p_diag_cur_cwnd_size := unbind_diag params ''cur_cwnd_size'' (p_diag_cur_cwnd_size nr),
         p_diag_min_cwnd_size := unbind_diag params ''min_cwnd_size'' (p_diag_min_cwnd_size nr),
         p_diag_cur_bytes_in_flight :=
           unbind_diag params ''bytes_in_flight'' (p_diag_cur_bytes_in_flight nr),
         p_diag_cur_state := unbind_diag params ''cur_state'' (p_diag_cur_state nr)\<rparr>, True)"

definition newreno_in_cong_recovery :: "OSSL_CC_NEWRENO \<Rightarrow> OSSL_TIME \<Rightarrow> bool" where
  "newreno_in_cong_recovery nr tx_time \<longleftrightarrow> ossl_time_compare tx_time (cong_recovery_start_time nr) \<le> 0"

definition newreno_cong :: "OSSL_TIME \<Rightarrow> OSSL_CC_NEWRENO \<Rightarrow> OSSL_TIME \<Rightarrow> OSSL_CC_NEWRENO" where
  "newreno_cong now nr tx_time =
     (if newreno_in_cong_recovery nr tx_time then nr
      else
        let nr = nr\<lparr>in_congestion_recovery := True, cong_recovery_start_time := now\<rparr>;
            (sst, err) = safe_muldiv_u64 (cong_wnd nr) (ucast (k_loss_reduction_factor_num nr))
              (ucast (k_loss_reduction_factor_den nr));
            nr = nr\<lparr>slow_start_thresh := (if err then UINT64_MAX else sst)\<rparr>;
            nr = nr\<lparr>cong_wnd := slow_start_thresh nr\<rparr>
        in if cong_wnd nr < k_min_wnd nr then nr\<lparr>cong_wnd := k_min_wnd nr\<rparr> else nr)"

definition newreno_flush :: "OSSL_TIME \<Rightarrow> OSSL_CC_NEWRENO \<Rightarrow> bool \<Rightarrow> OSSL_CC_NEWRENO" where
  "newreno_flush now nr persistent_congestion =
     (if \<not> processing_loss nr then nr
      else
        let nr = newreno_cong now nr (tx_time_of_last_loss nr);
            nr = (if persistent_congestion
                  then nr\<lparr>cong_wnd := k_min_wnd nr, cong_recovery_start_time := ossl_time_zero\<rparr>
                  else nr)
        in newreno_update_diag (nr\<lparr>processing_loss := False\<rparr>))"

definition newreno_get_tx_allowance :: "OSSL_CC_NEWRENO \<Rightarrow> u64" where
  "newreno_get_tx_allowance nr =
     (if nr_bytes_in_flight nr \<ge> cong_wnd nr then 0 else cong_wnd nr - nr_bytes_in_flight nr)"

definition newreno_get_wakeup_deadline :: "OSSL_CC_NEWRENO \<Rightarrow> OSSL_TIME" where
  "newreno_get_wakeup_deadline nr =
     (if newreno_get_tx_allowance nr > 0 then ossl_time_zero else ossl_time_infinite)"

definition newreno_on_data_sent :: "u64 \<Rightarrow> OSSL_CC_NEWRENO \<Rightarrow> OSSL_CC_NEWRENO \<times> bool" where
  "newreno_on_data_sent num_bytes nr =
     (newreno_update_diag (nr\<lparr>nr_bytes_in_flight := nr_bytes_in_flight nr + num_bytes\<rparr>), True)"

definition newreno_is_cong_limited :: "OSSL_CC_NEWRENO \<Rightarrow> bool" where
  "newreno_is_cong_limited nr =
     (if nr_bytes_in_flight nr \<ge> cong_wnd nr then True
      else let wnd_rem = cong_wnd nr - nr_bytes_in_flight nr
           in (cong_wnd nr < slow_start_thresh nr \<and> wnd_rem \<le> cong_wnd nr div 2) \<or>
              wnd_rem \<le> 3 * max_dgram_size nr)"

definition newreno_on_data_acked :: "OSSL_CC_ACK_INFO \<Rightarrow> OSSL_CC_NEWRENO \<Rightarrow> OSSL_CC_NEWRENO \<times> bool" where
  "newreno_on_data_acked info nr =
     (let nr = nr\<lparr>nr_bytes_in_flight := nr_bytes_in_flight nr - ai_tx_size info\<rparr>;
          nr =
            (if \<not> newreno_is_cong_limited nr then nr
             else if newreno_in_cong_recovery nr (ai_tx_time info) then nr
             else if cong_wnd nr < slow_start_thresh nr then
               nr\<lparr>cong_wnd := cong_wnd nr + ai_tx_size info, in_congestion_recovery := False\<rparr>
             else
               let nr = nr\<lparr>bytes_acked := bytes_acked nr + ai_tx_size info\<rparr>;
                   nr = (if bytes_acked nr \<ge> cong_wnd nr
                         then nr\<lparr>bytes_acked := bytes_acked nr - cong_wnd nr,
                                 cong_wnd := cong_wnd nr + max_dgram_size nr\<rparr>
                         else nr)
               in nr\<lparr>in_congestion_recovery := False\<rparr>)
      in (newreno_update_diag nr, True))"

definition newreno_on_data_lost :: "OSSL_CC_LOSS_INFO \<Rightarrow> OSSL_CC_NEWRENO \<Rightarrow> OSSL_CC_NEWRENO \<times> bool" where
  "newreno_on_data_lost info nr =
     (if li_tx_size info > nr_bytes_in_flight nr then (nr, False)
      else
        let nr = nr\<lparr>nr_bytes_in_flight := nr_bytes_in_flight nr - li_tx_size info\<rparr>
        in if \<not> processing_loss nr \<and>
              ossl_time_compare (li_tx_time info) (tx_time_of_last_loss nr) \<le> 0
           then (newreno_update_diag nr, True)
           else
             let nr = (if \<not> processing_loss nr then nr\<lparr>processing_loss := True, bytes_acked := 0\<rparr>
                       else nr);
                 nr = nr\<lparr>tx_time_of_last_loss :=
                        ossl_time_max (tx_time_of_last_loss nr) (li_tx_time info)\<rparr>
             in (newreno_update_diag nr, True))"

definition newreno_on_data_lost_finished ::
  "OSSL_TIME \<Rightarrow> bool \<Rightarrow> OSSL_CC_NEWRENO \<Rightarrow> OSSL_CC_NEWRENO \<times> bool" where
  "newreno_on_data_lost_finished now flags nr = (newreno_flush now nr flags, True)"

definition newreno_on_data_invalidated :: "u64 \<Rightarrow> OSSL_CC_NEWRENO \<Rightarrow> OSSL_CC_NEWRENO \<times> bool" where
  "newreno_on_data_invalidated num_bytes nr =
     (newreno_update_diag (nr\<lparr>nr_bytes_in_flight := nr_bytes_in_flight nr - num_bytes\<rparr>), True)"

definition newreno_on_ecn ::
  "OSSL_TIME \<Rightarrow> OSSL_CC_ECN_INFO \<Rightarrow> OSSL_CC_NEWRENO \<Rightarrow> OSSL_CC_NEWRENO \<times> bool" where
  "newreno_on_ecn now info nr =
     (newreno_flush now
        (nr\<lparr>processing_loss := True, bytes_acked := 0,
            tx_time_of_last_loss := ei_largest_acked_time info\<rparr>) False, True)"

definition ossl_cc_newreno_method :: "OSSL_CC_NEWRENO OSSL_CC_METHOD" where
  "ossl_cc_newreno_method =
     \<lparr>get_tx_allowance = newreno_get_tx_allowance,
      get_wakeup_deadline = newreno_get_wakeup_deadline,
      on_data_sent = newreno_on_data_sent,
      on_data_acked = newreno_on_data_acked,
      on_data_lost = newreno_on_data_lost,
      on_data_lost_finished = newreno_on_data_lost_finished,
      on_data_invalidated = newreno_on_data_invalidated,
      on_ecn = newreno_on_ecn\<rparr>"

section \<open>The contract\<close>

lemma update_diag_simps [simp]:
  "nr_bytes_in_flight (newreno_update_diag nr) = nr_bytes_in_flight nr"
  "cong_wnd (newreno_update_diag nr) = cong_wnd nr"
  "k_min_wnd (newreno_update_diag nr) = k_min_wnd nr"
  "k_init_wnd (newreno_update_diag nr) = k_init_wnd nr"
  "max_dgram_size (newreno_update_diag nr) = max_dgram_size nr"
  "slow_start_thresh (newreno_update_diag nr) = slow_start_thresh nr"
  "k_loss_reduction_factor_num (newreno_update_diag nr) = k_loss_reduction_factor_num nr"
  "k_loss_reduction_factor_den (newreno_update_diag nr) = k_loss_reduction_factor_den nr"
  "cong_recovery_start_time (newreno_update_diag nr) = cong_recovery_start_time nr"
  "tx_time_of_last_loss (newreno_update_diag nr) = tx_time_of_last_loss nr"
  "processing_loss (newreno_update_diag nr) = processing_loss nr"
  "in_congestion_recovery (newreno_update_diag nr) = in_congestion_recovery nr"
  "bytes_acked (newreno_update_diag nr) = bytes_acked nr"
  by (simp_all add: newreno_update_diag_def Let_def)

lemma newreno_cong_bif [simp]: "nr_bytes_in_flight (newreno_cong now nr t) = nr_bytes_in_flight nr"
  by (simp add: newreno_cong_def Let_def split: prod.split)

lemma newreno_flush_bif [simp]: "nr_bytes_in_flight (newreno_flush now nr fl) = nr_bytes_in_flight nr"
  by (simp add: newreno_flush_def Let_def)

interpretation nrc: cc_contract ossl_cc_newreno_method nr_bytes_in_flight cong_wnd
  by unfold_locales
    (auto simp: ossl_cc_newreno_method_def newreno_on_data_sent_def newreno_on_data_acked_def
      newreno_on_data_lost_def newreno_on_data_lost_finished_def newreno_on_data_invalidated_def
      newreno_on_ecn_def newreno_get_tx_allowance_def Let_def unat_u64_sub u64_nat)

section \<open>Reductions\<close>

text \<open>The configuration every operation but the datagram size update leaves alone.\<close>

definition newreno_cfg :: "OSSL_CC_NEWRENO \<Rightarrow> bool" where
  "newreno_cfg nr \<longleftrightarrow> k_loss_reduction_factor_num nr = 1 \<and> k_loss_reduction_factor_den nr = 2"

lemma newreno_cong_eq:
  assumes "newreno_cfg nr"
  shows "newreno_cong now nr t =
    (if t \<le> cong_recovery_start_time nr then nr
     else nr\<lparr>in_congestion_recovery := True, cong_recovery_start_time := now,
       slow_start_thresh := cong_wnd nr div 2, cong_wnd := max (k_min_wnd nr) (cong_wnd nr div 2)\<rparr>)"
proof -
  have "safe_muldiv_u64 (cong_wnd nr) 1 2 = (cong_wnd nr div 2, False)"
    by (simp add: safe_muldiv_u64_small)
  with assms show ?thesis
    by (auto simp: newreno_cong_def newreno_in_cong_recovery_def time_simps newreno_cfg_def max_def
      Let_def)
qed

definition newreno_inv :: "OSSL_CC_NEWRENO \<Rightarrow> bool" where
  "newreno_inv nr \<longleftrightarrow> newreno_cfg nr \<and> k_min_wnd nr \<le> cong_wnd nr"

text \<open>How much an event may add to the window.\<close>

fun wnd_growth :: "u64 \<Rightarrow> cc_event \<Rightarrow> nat" where
  "wnd_growth mds (Acked i) = max (unat (ai_tx_size i)) (unat mds)"
| "wnd_growth mds _ = 0"

lemmas newreno_ops = ossl_cc_newreno_method_def newreno_on_data_sent_def newreno_on_data_acked_def
  newreno_on_data_lost_def newreno_on_data_lost_finished_def newreno_on_data_invalidated_def
  newreno_on_ecn_def newreno_flush_def

lemma newreno_cong_window:
  assumes "newreno_inv nr"
  shows "newreno_inv (newreno_cong now nr t)" "max_dgram_size (newreno_cong now nr t) = max_dgram_size nr"
    "unat (cong_wnd (newreno_cong now nr t)) \<le> unat (cong_wnd nr)"
  using assms by (auto simp: newreno_inv_def newreno_cong_eq newreno_cfg_def max_def u64_nat)

lemma newreno_flush_window:
  assumes "newreno_inv nr"
  shows "newreno_inv (newreno_flush now nr fl) \<and> max_dgram_size (newreno_flush now nr fl) = max_dgram_size nr \<and>
    unat (cong_wnd (newreno_flush now nr fl)) \<le> unat (cong_wnd nr)"
proof -
  note c = newreno_cong_window [OF assms, of now "tx_time_of_last_loss nr"]
  then show ?thesis
    using assms by (auto simp: newreno_flush_def newreno_inv_def newreno_cfg_def Let_def u64_nat)
qed

lemma newreno_acked_window:
  assumes "newreno_inv nr" "unat (cong_wnd nr) + wnd_growth (max_dgram_size nr) (Acked i) < 2 ^ 64"
  defines "nr' \<equiv> fst (newreno_on_data_acked i nr)"
  shows "newreno_inv nr' \<and> max_dgram_size nr' = max_dgram_size nr \<and>
    unat (cong_wnd nr') \<le> unat (cong_wnd nr) + wnd_growth (max_dgram_size nr) (Acked i)"
proof -
  have *: "cong_wnd nr \<le> cong_wnd nr + d \<and>
      unat (cong_wnd nr + d) \<le> unat (cong_wnd nr) + wnd_growth (max_dgram_size nr) (Acked i)"
    if "unat d \<le> wnd_growth (max_dgram_size nr) (Acked i)" for d
    using that assms(2) by (simp add: u64_le_unat unat_u64_add)
  from * [of "ai_tx_size i"] * [of "max_dgram_size nr"] assms(1) show ?thesis
    by (auto simp: nr'_def newreno_on_data_acked_def newreno_inv_def newreno_cfg_def Let_def
        simp del: wnd_growth.simps intro: order.trans) auto
qed

lemma newreno_step_window:
  assumes "newreno_inv nr" "unat (cong_wnd nr) + wnd_growth (max_dgram_size nr) e < 2 ^ 64"
  defines "nr' \<equiv> cc_step ossl_cc_newreno_method e nr"
  shows "newreno_inv nr' \<and> max_dgram_size nr' = max_dgram_size nr \<and>
    unat (cong_wnd nr') \<le> unat (cong_wnd nr) + wnd_growth (max_dgram_size nr) e"
proof (cases e)
  case (Acked i)
  with newreno_acked_window assms show ?thesis by (simp add: ossl_cc_newreno_method_def)
next
  case (Lost_Finished now fl)
  with newreno_flush_window [OF assms(1), of now fl] show ?thesis
    by (simp add: nr'_def ossl_cc_newreno_method_def newreno_on_data_lost_finished_def)
next
  case (Ecn now i)
  let ?nr = "nr\<lparr>processing_loss := True, bytes_acked := 0, tx_time_of_last_loss := ei_largest_acked_time i\<rparr>"
  have "newreno_inv ?nr" using assms(1) by (simp add: newreno_inv_def newreno_cfg_def)
  from newreno_flush_window [OF this, of now False] Ecn show ?thesis
    by (simp add: nr'_def ossl_cc_newreno_method_def newreno_on_ecn_def)
qed (use assms(1) in \<open>simp_all add: nr'_def newreno_ops newreno_inv_def newreno_cfg_def Let_def\<close>)

lemma newreno_run_window:
  assumes "newreno_inv nr"
    "unat (cong_wnd nr) + sum_list (map (wnd_growth (max_dgram_size nr)) es) < 2 ^ 64"
  shows "newreno_inv (cc_run ossl_cc_newreno_method es nr) \<and>
    unat (cong_wnd (cc_run ossl_cc_newreno_method es nr)) \<le>
      unat (cong_wnd nr) + sum_list (map (wnd_growth (max_dgram_size nr)) es)"
  using assms
proof (induction es arbitrary: nr)
  case (Cons e es)
  let ?nr = "cc_step ossl_cc_newreno_method e nr"
  have step: "newreno_inv ?nr \<and> max_dgram_size ?nr = max_dgram_size nr \<and>
      unat (cong_wnd ?nr) \<le> unat (cong_wnd nr) + wnd_growth (max_dgram_size nr) e"
    using Cons.prems by (intro newreno_step_window) auto
  with Cons.IH [of ?nr] Cons.prems(2) show ?case by (simp add: cc_run_def)
qed (simp add: cc_run_def)

section \<open>Loss episodes\<close>

text \<open>The part of the state a batch of \<open>on_data_lost\<close> calls may touch.\<close>

lemma lost_frame [simp]:
  "cong_wnd (fst (newreno_on_data_lost i nr)) = cong_wnd nr"
  "slow_start_thresh (fst (newreno_on_data_lost i nr)) = slow_start_thresh nr"
  "cong_recovery_start_time (fst (newreno_on_data_lost i nr)) = cong_recovery_start_time nr"
  "k_min_wnd (fst (newreno_on_data_lost i nr)) = k_min_wnd nr"
  "newreno_cfg (fst (newreno_on_data_lost i nr)) = newreno_cfg nr"
  by (simp_all add: newreno_on_data_lost_def newreno_cfg_def Let_def)

lemma lost_time:
  "tx_time_of_last_loss (fst (newreno_on_data_lost i nr)) \<le> max (tx_time_of_last_loss nr) (li_tx_time i)"
  by (auto simp: newreno_on_data_lost_def Let_def time_simps)

lemma lost_run_frame:
  assumes "newreno_cfg nr" "tx_time_of_last_loss nr \<le> t" "\<forall>i\<in>set is. li_tx_time i \<le> t"
  defines "nr' \<equiv> cc_run ossl_cc_newreno_method (map Lost is) nr"
  shows "cong_wnd nr' = cong_wnd nr \<and> slow_start_thresh nr' = slow_start_thresh nr \<and>
    cong_recovery_start_time nr' = cong_recovery_start_time nr \<and> k_min_wnd nr' = k_min_wnd nr \<and>
    newreno_cfg nr' \<and> tx_time_of_last_loss nr' \<le> t"
  using assms(1-3) unfolding nr'_def
proof (induction "is" arbitrary: nr)
  case (Cons i "is")
  let ?nr = "fst (newreno_on_data_lost i nr)"
  have "tx_time_of_last_loss ?nr \<le> t"
    using lost_time [of i nr] Cons.prems by (auto simp: le_max_iff_disj)
  with Cons.IH [of ?nr] Cons.prems show ?case
    by (simp add: cc_run_def ossl_cc_newreno_method_def)
qed (simp add: cc_run_def)

lemma newreno_new_values:
  assumes "newreno_new mem_ok = Some nr"
  shows "newreno_inv nr" "cong_wnd nr = 12000" "k_min_wnd nr = 2400" "max_dgram_size nr = 1200"
    "nr_bytes_in_flight nr = 0"
  using assms
  by (auto simp: newreno_new_def newreno_reset_def newreno_set_max_dgram_size_def newreno_zalloc_def
      QUIC_MIN_INITIAL_DGRAM_LEN_def MIN_MAX_INIT_WND_SIZE_def newreno_inv_def newreno_cfg_def
      Let_def newreno_update_diag_def split: if_splits)

lemma run_min_wnd:
  "k_min_wnd (cc_run ossl_cc_newreno_method es nr) = k_min_wnd nr"
proof (induction es arbitrary: nr)
  case (Cons e es)
  have "k_min_wnd (newreno_cong now x t) = k_min_wnd x" for now x t
    by (simp add: newreno_cong_def Let_def split: prod.split)
  then have "k_min_wnd (cc_step ossl_cc_newreno_method e nr) = k_min_wnd nr"
    by (cases e) (simp_all add: newreno_ops Let_def)
  with Cons show ?case by (simp add: cc_run_def)
qed (simp add: cc_run_def)

section \<open>Properties\<close>

text \<open>
  C15: the controller's count of bytes in flight is exact. For any sequence of sent, acknowledged,
  lost and invalidated packets in which nothing is taken out that was not put in, \<open>bytes_in_flight\<close>
  of a new controller equals the balance of the ledger, with no wrap-around.
\<close>

theorem newreno_accounts_bytes:
  assumes "newreno_new mem_ok = Some nr" "ledger es 0 = Some b"
  shows "unat (nr_bytes_in_flight (cc_run ossl_cc_newreno_method es nr)) = b"
  using nrc.ledger_bif [of es nr b] assms newreno_new_values(5) by simp

theorem newreno_accounts_bytes_witness:
  "\<exists>nr. newreno_new True = Some nr \<and>
     unat (nr_bytes_in_flight (cc_run ossl_cc_newreno_method
       [Sent 1200, Sent 800, Acked \<lparr>ai_tx_time = 5, ai_tx_size = 1200\<rparr>,
        Lost \<lparr>li_tx_time = 6, li_tx_size = 300\<rparr>, Lost_Finished 9 False] nr)) = 500"
  using newreno_accounts_bytes [of True _ "[Sent 1200, Sent 800,
      Acked \<lparr>ai_tx_time = 5, ai_tx_size = 1200\<rparr>,
      Lost \<lparr>li_tx_time = 6, li_tx_size = 300\<rparr>, Lost_Finished 9 False]" 500]
  by (simp add: newreno_new_def)




definition nr_example :: OSSL_CC_NEWRENO where
  "nr_example = the (newreno_new True)\<lparr>nr_bytes_in_flight := 9000, cong_wnd := 20000\<rparr>"


text \<open>
  C18: at most one reduction per round trip. Once a recovery period has begun, any number of further
  losses of packets sent before it began, reported in one batch without persistent congestion,
  leave the window and the slow start threshold unchanged.
\<close>

theorem newreno_one_reduction_per_recovery:
  fixes nr :: OSSL_CC_NEWRENO and "is" :: "OSSL_CC_LOSS_INFO list" and now :: OSSL_TIME
  assumes "newreno_inv nr" "tx_time_of_last_loss nr \<le> cong_recovery_start_time nr"
    "\<forall>i\<in>set is. li_tx_time i \<le> cong_recovery_start_time nr"
  defines "nr' \<equiv> cc_run ossl_cc_newreno_method (map Lost is @ [Lost_Finished now False]) nr"
  shows "cong_wnd nr' = cong_wnd nr \<and> slow_start_thresh nr' = slow_start_thresh nr \<and>
    cong_recovery_start_time nr' = cong_recovery_start_time nr"
proof -
  let ?l = "cc_run ossl_cc_newreno_method (map Lost is) nr"
  have "nr' = newreno_flush now ?l False"
    by (simp add: nr'_def cc_run_def ossl_cc_newreno_method_def newreno_on_data_lost_finished_def)
  with lost_run_frame [OF _ assms(2,3)] assms(1) show ?thesis
    by (simp add: newreno_flush_def newreno_cong_eq Let_def newreno_inv_def)
qed

theorem newreno_one_reduction_per_recovery_witness:
  "cong_wnd (cc_run ossl_cc_newreno_method
     (map Lost [\<lparr>li_tx_time = 7, li_tx_size = 1200\<rparr>, \<lparr>li_tx_time = 8, li_tx_size = 600\<rparr>] @
      [Lost_Finished 30 False]) (nr_example\<lparr>cong_recovery_start_time := 9\<rparr>)) = 20000"
proof -
  let ?nr = "nr_example\<lparr>cong_recovery_start_time := 9\<rparr>"
  have *: "newreno_inv ?nr" "tx_time_of_last_loss ?nr = 0" "cong_recovery_start_time ?nr = 9"
    "cong_wnd ?nr = 20000"
    by code_simp+
  from newreno_one_reduction_per_recovery [of ?nr
      "[\<lparr>li_tx_time = 7, li_tx_size = 1200\<rparr>, \<lparr>li_tx_time = 8, li_tx_size = 600\<rparr>]" 30] *
  show ?thesis by simp
qed

text \<open>
  Raising the maximum datagram size raises the minimum window but not the window, so the window
  can be left below the value reported as the minimum congestion window size.
\<close>

theorem newreno_larger_dgram_below_minimum:
  "\<exists>nr nr' p. newreno_new True = Some nr \<and>
     newreno_set_input_params (\<lambda>_. Some 8000) [p] nr = (nr', True) \<and> cong_wnd nr' < k_min_wnd nr'"
proof -
  let ?p = "\<lparr>p_key = ''max_dgram_payload_len'', p_data_type = 2, p_data = None, p_data_size = 8\<rparr>"
  obtain nr where nr: "newreno_new True = Some nr" by (simp add: newreno_new_def)
  note v = newreno_new_values [OF nr]
  have "newreno_set_input_params (\<lambda>_. Some 8000) [?p] nr = (newreno_set_max_dgram_size nr 8000, True)"
    by (simp add: newreno_set_input_params_def OSSL_PARAM_locate_const_def
        QUIC_MIN_INITIAL_DGRAM_LEN_def)
  moreover have "cong_wnd (newreno_set_max_dgram_size nr 8000) < k_min_wnd (newreno_set_max_dgram_size nr 8000)"
    by (simp add: newreno_set_max_dgram_size_def v Let_def)
  ultimately show ?thesis using nr by blast
qed

end
