(* ===== verification/Ackm_Tx.thy ===== *)
theory Ackm_Tx
  imports Quic_Ackm Cc_Newreno
begin

text \<open>
  The transmit side of the ACK manager: what the optimised walks over the history compute, the
  accounting of bytes in flight shared with the congestion controller, and the fate of every packet.
\<close>

section \<open>Removing packets from the history\<close>

definition hist_remove_all :: "OSSL_ACKM_TX_PKT list \<Rightarrow> tx_pkt_history_st \<Rightarrow> tx_pkt_history_st" where
  "hist_remove_all ps h = fold (\<lambda>p h. fst (tx_pkt_history_remove h (pkt_num p))) ps h"

lemma hist_remove_all_simps [simp]:
  "hist_remove_all [] h = h"
  "hist_remove_all (p # ps) h = hist_remove_all ps (fst (tx_pkt_history_remove h (pkt_num p)))"
  by (simp_all add: hist_remove_all_def)

lemma hist_remove_all_inv: "tx_hist_inv h \<Longrightarrow> tx_hist_inv (hist_remove_all ps h)"
  by (induction ps arbitrary: h) (auto simp: tx_hist_remove_inv)

lemma hist_remove_all_packets:
  "tx_hist_inv h \<Longrightarrow>
   packets (hist_remove_all ps h) = filter (\<lambda>q. pkt_num q \<notin> pkt_num ` set ps) (packets h)"
proof (induction ps arbitrary: h)
  case (Cons p ps)
  then show ?case
    by (simp add: tx_hist_remove_inv tx_hist_remove_packets)
qed simp

section \<open>Newly acknowledged packets\<close>

text \<open>The form of an ACK frame's ranges that the decoder guarantees: descending and apart.\<close>

definition ack_ranges_ok :: "OSSL_QUIC_ACK_RANGE list \<Rightarrow> bool" where
  "ack_ranges_ok rs \<longleftrightarrow> list_all (\<lambda>r. r_start r \<le> r_end r) rs \<and> sorted_wrt (\<lambda>a b. r_end b < r_start a) rs"

definition acks :: "OSSL_QUIC_ACK_RANGE list \<Rightarrow> OSSL_ACKM_TX_PKT \<Rightarrow> bool" where
  "acks rs p \<longleftrightarrow> list_ex (\<lambda>r. range_contains r (pkt_num p)) rs"

lemma ack_ranges_ok_Cons [simp]:
  "ack_ranges_ok (r # rs) \<longleftrightarrow>
     r_start r \<le> r_end r \<and> (\<forall>x\<in>set rs. r_end x < r_start r) \<and> ack_ranges_ok rs"
  by (auto simp: ack_ranges_ok_def)

lemma acks_simps [simp]:
  "\<not> acks [] p" "acks (r # rs) p \<longleftrightarrow> range_contains r (pkt_num p) \<or> acks rs p"
  by (simp_all add: acks_def)

lemma acks_below: "ack_ranges_ok rs \<Longrightarrow> \<forall>x\<in>set rs. r_end x < b \<Longrightarrow> acks rs p \<Longrightarrow> pkt_num p < b"
  by (auto simp: acks_def list_ex_iff range_contains_def intro: order.strict_trans1)

lemma newly_acked_walk_acked:
  "sorted_wrt (\<lambda>p q. pkt_num q < pkt_num p) ps \<Longrightarrow> ack_ranges_ok rs \<Longrightarrow>
   snd (newly_acked_walk ps rs h) = filter (acks rs) ps"
proof (induction ps rs h rule: newly_acked_walk.induct)
  case (3 pkt ps r rs h)
  show ?case
  proof (cases "range_contains r (pkt_num pkt)")
    case True
    with 3 show ?thesis by (simp add: Let_def case_prod_beta)
  next
    case nc: False
    show ?thesis
    proof (cases "pkt_num pkt > r_end r")
      case True
      have "\<not> acks rs pkt"
        using acks_below [of rs "r_start r" pkt] 3(5) True
        by (auto dest: order.strict_trans order.strict_trans2)
      with 3 nc True show ?thesis by simp
    next
      case False
      with nc have lt: "pkt_num pkt < r_start r" by (auto simp: range_contains_def)
      then have "\<not> range_contains r (pkt_num q)" if "q \<in> set ps" for q
        using 3(4) that by (auto simp: range_contains_def dest: order.strict_trans)
      then have "filter (\<lambda>q. range_contains r (pkt_num q) \<or> acks rs q) ps = filter (acks rs) ps"
        by (intro filter_cong) auto
      with 3 nc False show ?thesis by simp
    qed
  qed
qed auto

lemma newly_acked_walk_hist:
  "fst (newly_acked_walk ps rs h) = hist_remove_all (snd (newly_acked_walk ps rs h)) h"
  by (induction ps rs h rule: newly_acked_walk.induct) (simp_all add: Let_def case_prod_beta)

lemma filter_dropWhile_none:
  "\<forall>p\<in>set (takeWhile Q ps). \<not> P p \<Longrightarrow> filter P (dropWhile Q ps) = filter P ps"
  by (induction ps) auto

lemma takeWhile_above:
  "sorted_wrt (\<lambda>p q. pkt_num q < pkt_num p) ps \<Longrightarrow> pkt \<in> set ps \<Longrightarrow>
   p \<in> set (takeWhile (\<lambda>p. p \<noteq> pkt) ps) \<Longrightarrow> pkt_num pkt < pkt_num p"
  by (induction ps) (auto split: if_splits)

lemma sorted_dropWhile: "sorted_wrt R ps \<Longrightarrow> sorted_wrt R (dropWhile Q ps)"
  by (induction ps) auto

lemma detect_newly_acked:
  assumes inv: "tx_hist_inv (tx_history ackm space)" and rs: "ack_ranges_ok (ack_ranges a)"
    "ack_ranges a \<noteq> []"
  defines "h \<equiv> tx_history ackm space"
  defines "acked \<equiv> filter (acks (ack_ranges a)) (rev (packets h))"
  shows "ackm_detect_and_remove_newly_acked_pkts ackm a space =
    (ackm\<lparr>tx_history := (tx_history ackm)(space := hist_remove_all acked h)\<rparr>, acked)"
proof -
  let ?rs = "ack_ranges a" and ?ps = "rev (packets h)"
  define start where "start = (case tx_pkt_history_by_pkt_num h (r_end (hd ?rs)) of
      None \<Rightarrow> ?ps | Some pkt \<Rightarrow> dropWhile (\<lambda>p. p \<noteq> pkt) ?ps)"
  have sorted: "sorted_wrt (\<lambda>p q. pkt_num q < pkt_num p) ?ps"
    using inv by (simp add: tx_hist_inv_def sorted_wrt_rev h_def)
  have top: "pkt_num p \<le> r_end (hd ?rs)" if "acks ?rs p" for p
    using rs that acks_below [of "tl ?rs" "r_start (hd ?rs)" p]
    by (cases ?rs) (auto simp: range_contains_def intro: order.trans less_imp_le)
  have "sorted_wrt (\<lambda>p q. pkt_num q < pkt_num p) start"
    using sorted by (simp add: start_def sorted_dropWhile split: option.split)
  moreover have "filter (acks ?rs) start = acked"
  proof (cases "tx_pkt_history_by_pkt_num h (r_end (hd ?rs))")
    case (Some pkt)
    with by_pkt_num_Some inv have "pkt \<in> set ?ps" "pkt_num pkt = r_end (hd ?rs)"
      by (auto simp: h_def)
    with takeWhile_above [OF sorted, of pkt] top have "\<forall>p\<in>set (takeWhile (\<lambda>p. p \<noteq> pkt) ?ps). \<not> acks ?rs p"
      by (force simp: not_le [symmetric])
    with Some show ?thesis by (simp add: start_def acked_def filter_dropWhile_none)
  qed (simp add: start_def acked_def)
  ultimately have "newly_acked_walk start ?rs h = (hist_remove_all acked h, acked)"
    using newly_acked_walk_acked [of start ?rs h] newly_acked_walk_hist [of start ?rs h] rs(1)
    by (simp add: prod_eq_iff)
  then show ?thesis
    unfolding ackm_detect_and_remove_newly_acked_pkts_def Let_def start_def h_def by simp
qed

section \<open>Lost packets\<close>

definition is_lost :: "OSSL_TIME \<Rightarrow> QUIC_PN \<Rightarrow> OSSL_ACKM_TX_PKT \<Rightarrow> bool" where
  "is_lost lost_send_time largest p \<longleftrightarrow>
     pkt_num p \<le> largest \<and> (tx_time p \<le> lost_send_time \<or> pkt_num p + K_PKT_THRESHOLD \<le> largest)"

text \<open>The packets below the largest acknowledged one that are not lost yet, and when they will be.\<close>

definition loss_dues :: "OSSL_TIME \<Rightarrow> OSSL_TIME \<Rightarrow> QUIC_PN \<Rightarrow> OSSL_ACKM_TX_PKT list \<Rightarrow> OSSL_TIME list" where
  "loss_dues loss_delay lost_send_time largest ps =
     map (\<lambda>p. ossl_time_add (tx_time p) loss_delay)
       (filter (\<lambda>p. pkt_num p \<le> largest \<and> \<not> is_lost lost_send_time largest p) ps)"

definition earliest :: "OSSL_TIME \<Rightarrow> OSSL_TIME list \<Rightarrow> OSSL_TIME" where
  "earliest lt ts = foldl (\<lambda>lt t. if lt = 0 then t else min lt t) lt ts"

lemma lost_walk_eq:
  "lost_walk loss_delay lst largest ps h lt =
     (hist_remove_all (filter (is_lost lst largest) ps) h,
      earliest lt (loss_dues loss_delay lst largest ps),
      filter (is_lost lst largest) ps)"
proof (induction ps arbitrary: h lt)
  case (Cons p ps)
  have lost: "is_lost lst largest p \<longleftrightarrow> \<not> pkt_num p > largest \<and>
      (ossl_time_compare (tx_time p) lst \<le> 0 \<or> largest \<ge> pkt_num p + K_PKT_THRESHOLD)"
    by (auto simp: is_lost_def time_simps)
  show ?case
    using Cons by (auto simp: lost [symmetric] Let_def loss_dues_def earliest_def time_simps not_le
        simp del: lost_walk.simps(1)) 
      (auto simp: is_lost_def time_simps)
qed (simp add: loss_dues_def earliest_def)

lemma detect_lost:
  fixes now :: OSSL_TIME and ackm :: "'cc OSSL_ACKM" and space :: pn_space
  defines "d \<equiv> ackm_loss_delay ackm"
  defines "lst \<equiv> ossl_time_subtract now (ackm_loss_delay ackm)"
  defines "lost \<equiv> filter (is_lost lst (largest_acked_pkt ackm space)) (packets (tx_history ackm space))"
  shows "ackm_detect_and_remove_lost_pkts now ackm space =
    (ackm\<lparr>tx_history := (tx_history ackm)(space := hist_remove_all lost (tx_history ackm space)),
       loss_time := (loss_time ackm)(space := earliest 0
         (loss_dues d lst (largest_acked_pkt ackm space) (packets (tx_history ackm space))))\<rparr>, lost)"
  by (simp add: ackm_detect_and_remove_lost_pkts_def Let_def lost_walk_eq d_def lst_def lost_def
      ossl_time_zero_def)

section \<open>Bytes in flight\<close>

definition inflight_bytes :: "OSSL_ACKM_TX_PKT list \<Rightarrow> nat" where
  "inflight_bytes ps = sum_list (map (\<lambda>p. if is_inflight p then unat (num_bytes p) else 0) ps)"

definition eliciting_bytes :: "OSSL_ACKM_TX_PKT list \<Rightarrow> nat" where
  "eliciting_bytes ps =
     sum_list (map (\<lambda>p. if is_inflight p \<and> is_ack_eliciting p then unat (num_bytes p) else 0) ps)"

lemma inflight_bytes_simps [simp]:
  "inflight_bytes [] = 0"
  "inflight_bytes (p # ps) = (if is_inflight p then unat (num_bytes p) else 0) + inflight_bytes ps"
  "inflight_bytes (ps @ qs) = inflight_bytes ps + inflight_bytes qs"
  "inflight_bytes (rev ps) = inflight_bytes ps"
  by (auto simp: inflight_bytes_def rev_map [symmetric])

lemma eliciting_bytes_simps [simp]:
  "eliciting_bytes [] = 0"
  "eliciting_bytes (p # ps) =
     (if is_inflight p \<and> is_ack_eliciting p then unat (num_bytes p) else 0) + eliciting_bytes ps"
  "eliciting_bytes (ps @ qs) = eliciting_bytes ps + eliciting_bytes qs"
  "eliciting_bytes (rev ps) = eliciting_bytes ps"
  by (auto simp: eliciting_bytes_def rev_map [symmetric])

lemma bytes_filter:
  "inflight_bytes (filter P ps) + inflight_bytes (filter (\<lambda>p. \<not> P p) ps) = inflight_bytes ps"
  "eliciting_bytes (filter P ps) + eliciting_bytes (filter (\<lambda>p. \<not> P p) ps) = eliciting_bytes ps"
  by (induction ps) auto

definition total_inflight :: "'cc OSSL_ACKM \<Rightarrow> nat" where
  "total_inflight ackm = (\<Sum>s\<in>UNIV. inflight_bytes (packets (tx_history ackm s)))"

text \<open>
  The accounts, with \<open>pend\<close> the packets taken out of the history and not reported yet: the manager's
  two counters, and the controller's own count.
\<close>

definition ackm_acct :: "('cc \<Rightarrow> u64) \<Rightarrow> 'cc OSSL_ACKM \<Rightarrow> OSSL_ACKM_TX_PKT list \<Rightarrow> bool" where
  "ackm_acct bif ackm pend \<longleftrightarrow>
     bif (cc_data ackm) = bytes_in_flight ackm \<and>
     unat (bytes_in_flight ackm) = total_inflight ackm + inflight_bytes pend \<and>
     (\<forall>s. unat (ack_eliciting_bytes_in_flight ackm s) =
        eliciting_bytes (packets (tx_history ackm s)) +
        eliciting_bytes (filter (\<lambda>p. pkt_space p = s) pend))"

definition ackm_hist_ok :: "'cc OSSL_ACKM \<Rightarrow> bool" where
  "ackm_hist_ok ackm \<longleftrightarrow>
     (\<forall>s. tx_hist_inv (tx_history ackm s) \<and> (\<forall>p\<in>set (packets (tx_history ackm s)). pkt_space p = s))"

lemma finite_pn_space [simp]: "finite (UNIV :: pn_space set)"
  by (simp add: UNIV_pn_space)

lemma total_inflight_upd:
  "total_inflight (ackm\<lparr>tx_history := (tx_history ackm)(s := h)\<rparr>) + inflight_bytes (packets (tx_history ackm s)) =
   total_inflight ackm + inflight_bytes (packets h)"
proof -
  let ?f = "\<lambda>h. inflight_bytes (packets h)"
  have "(\<Sum>x\<in>UNIV. ?f (((tx_history ackm)(s := h)) x)) + ?f (tx_history ackm s) =
      (\<Sum>x\<in>UNIV. ?f (tx_history ackm x)) + ?f h"
    by (simp add: sum.remove [of UNIV s])
  then show ?thesis by (simp add: total_inflight_def)
qed

text \<open>Taking packets that match \<open>P\<close> out of the history of a space.\<close>

lemma remove_all_filter:
  assumes "tx_hist_inv h" "set ps = {p \<in> set (packets h). P p}"
  shows "packets (hist_remove_all ps h) = filter (\<lambda>p. \<not> P p) (packets h)"
proof -
  have "distinct (map pkt_num (packets h))"
    using assms(1) by (simp add: tx_hist_inv_def sorted_pn_distinct)
  then have "q \<in> set (packets h) \<Longrightarrow> pkt_num q \<notin> pkt_num ` set ps \<longleftrightarrow> \<not> P q" for q
    using assms(2) by (auto simp: distinct_map inj_on_def)
  then show ?thesis
    unfolding hist_remove_all_packets [OF assms(1)] by (intro filter_cong) auto
qed

lemma take_out_acct:
  assumes acct: "ackm_acct bif ackm pend" and ok: "ackm_hist_ok ackm"
    and ps: "ps = filter P (packets (tx_history ackm s)) \<or> ps = filter P (rev (packets (tx_history ackm s)))"
  defines "ackm' \<equiv> ackm\<lparr>tx_history := (tx_history ackm)(s := hist_remove_all ps (tx_history ackm s))\<rparr>"
  shows "ackm_acct bif ackm' (ps @ pend)" "ackm_hist_ok ackm'"
proof -
  let ?h = "tx_history ackm s"
  have inv: "tx_hist_inv ?h" and sp: "\<forall>p\<in>set (packets ?h). pkt_space p = s"
    using ok by (auto simp: ackm_hist_ok_def)
  have rest: "packets (hist_remove_all ps ?h) = filter (\<lambda>p. \<not> P p) (packets ?h)"
    using ps by (intro remove_all_filter inv) auto
  have b: "inflight_bytes ps = inflight_bytes (filter P (packets ?h))"
    "eliciting_bytes ps = eliciting_bytes (filter P (packets ?h))"
    using ps by (auto simp: rev_filter [symmetric])
  have own: "filter (\<lambda>p. pkt_space p = t) ps = (if t = s then ps else [])" for t
    using ps sp by (auto simp: filter_id_conv filter_empty_conv)
  show "ackm_hist_ok ackm'"
    using ok rest hist_remove_all_inv [OF inv, of ps] by (auto simp: ackm_hist_ok_def ackm'_def)
  have "total_inflight ackm' + inflight_bytes ps = total_inflight ackm"
    using total_inflight_upd [of ackm s "hist_remove_all ps ?h"] bytes_filter(1) [of P "packets ?h"] b rest
    by (simp add: ackm'_def)
  with acct show "ackm_acct bif ackm' (ps @ pend)"
    using bytes_filter(2) [of P "packets ?h"] b rest
    by (auto simp: ackm_acct_def own ackm'_def)
qed

text \<open>Operations that touch neither the histories nor the counters nor the controller.\<close>

definition acct_frame :: "('cc OSSL_ACKM \<Rightarrow> 'cc OSSL_ACKM) \<Rightarrow> bool" where
  "acct_frame f \<longleftrightarrow> (\<forall>a. tx_history (f a) = tx_history a \<and> bytes_in_flight (f a) = bytes_in_flight a \<and>
     ack_eliciting_bytes_in_flight (f a) = ack_eliciting_bytes_in_flight a \<and>
     cc_method (f a) = cc_method a \<and> cc_data (f a) = cc_data a)"

lemma timer_fields [simp]:
  "tx_history (ackm_set_loss_detection_timer now a) = tx_history a"
  "rx_history (ackm_set_loss_detection_timer now a) = rx_history a"
  "bytes_in_flight (ackm_set_loss_detection_timer now a) = bytes_in_flight a"
  "ack_eliciting_bytes_in_flight (ackm_set_loss_detection_timer now a) = ack_eliciting_bytes_in_flight a"
  "cc_method (ackm_set_loss_detection_timer now a) = cc_method a"
  "cc_data (ackm_set_loss_detection_timer now a) = cc_data a"
  by (simp_all add: ackm_set_loss_detection_timer_def ackm_set_loss_detection_timer_actual_def
      split: prod.split)

lemma acct_frame_timer: "acct_frame (ackm_set_loss_detection_timer now)"
  by (simp add: acct_frame_def)

lemma acct_frame_largest: "acct_frame (\<lambda>a. ackm_update_largest_acked a f s)"
  by (simp add: acct_frame_def ackm_update_largest_acked_def)

lemma acct_frame_rtt: "acct_frame (\<lambda>a. ackm_update_rtt now a f ps)"
  by (simp add: acct_frame_def ackm_update_rtt_def Let_def)

lemma acct_frame_acct:
  assumes "acct_frame f"
  shows "ackm_acct bif (f a) pend = ackm_acct bif a pend" "ackm_hist_ok (f a) = ackm_hist_ok a"
    "cc_method (f a) = cc_method a"
  using assms by (simp_all add: acct_frame_def ackm_acct_def ackm_hist_ok_def total_inflight_def)

lemmas acct_frames = acct_frame_acct [OF acct_frame_timer] acct_frame_acct [OF acct_frame_largest]
  acct_frame_acct [OF acct_frame_rtt]

lemma sub_bytes: "unat (b :: u64) = x + unat n \<Longrightarrow> unat (b - n) = x \<and> n \<le> b"
  by (simp add: u64_le_unat unat_u64_sub)

lemma acked_one_hist [simp]:
  "tx_history (ackm_acked_one p a) = tx_history a" "cc_method (ackm_acked_one p a) = cc_method a"
  by (simp_all add: ackm_acked_one_def Let_def)

lemma lost_one_hist [simp]:
  "tx_history (ackm_lost_one ps p a) = tx_history a" "cc_method (ackm_lost_one ps p a) = cc_method a"
  by (simp_all add: ackm_lost_one_def Let_def)

lemma one_counters:
  "bytes_in_flight (ackm_acked_one p a) = bytes_in_flight a - (if is_inflight p then num_bytes p else 0)"
  "bytes_in_flight (ackm_lost_one ps p a) = bytes_in_flight a - (if is_inflight p then num_bytes p else 0)"
  "ack_eliciting_bytes_in_flight (ackm_acked_one p a) s = ack_eliciting_bytes_in_flight a s -
     (if is_inflight p \<and> is_ack_eliciting p \<and> pkt_space p = s then num_bytes p else 0)"
  "ack_eliciting_bytes_in_flight (ackm_lost_one ps p a) s = ack_eliciting_bytes_in_flight a s -
     (if is_inflight p \<and> is_ack_eliciting p \<and> pkt_space p = s then num_bytes p else 0)"
  by (auto simp: ackm_acked_one_def ackm_lost_one_def Let_def)

lemma one_cc:
  "cc_data (ackm_acked_one p a) = (if is_inflight p
     then fst (on_data_acked (cc_method a) \<lparr>ai_tx_time = tx_time p, ai_tx_size = num_bytes p\<rparr> (cc_data a))
     else cc_data a)"
  "cc_data (ackm_lost_one pseudo p a) = (if is_inflight p \<and> \<not> pseudo
     then fst (on_data_lost (cc_method a) \<lparr>li_tx_time = tx_time p, li_tx_size = num_bytes p\<rparr> (cc_data a))
     else cc_data a)"
  by (simp_all add: ackm_acked_one_def ackm_lost_one_def Let_def)

text \<open>The manager's own counters settle a reported packet, whatever the controller does.\<close>

lemma settle_counters:
  assumes "ackm_acct bif a (p # pend)"
    and b': "bytes_in_flight a' = bytes_in_flight a - (if is_inflight p then num_bytes p else 0)"
    and e': "\<And>s. ack_eliciting_bytes_in_flight a' s = ack_eliciting_bytes_in_flight a s -
      (if is_inflight p \<and> is_ack_eliciting p \<and> pkt_space p = s then num_bytes p else 0)"
    and h': "tx_history a' = tx_history a"
  shows "unat (bytes_in_flight a') = total_inflight a' + inflight_bytes pend"
    "unat (ack_eliciting_bytes_in_flight a' s) = eliciting_bytes (packets (tx_history a' s)) +
        eliciting_bytes (filter (\<lambda>p. pkt_space p = s) pend)"
    "is_inflight p \<Longrightarrow> num_bytes p \<le> bytes_in_flight a"
proof -
  have t: "total_inflight a' = total_inflight a" using h' by (simp add: total_inflight_def)
  from assms(1) have b: "unat (bytes_in_flight a) = (total_inflight a + inflight_bytes pend) +
      (if is_inflight p then unat (num_bytes p) else 0)"
    and e: "unat (ack_eliciting_bytes_in_flight a s) = (eliciting_bytes (packets (tx_history a s)) +
        eliciting_bytes (filter (\<lambda>p. pkt_space p = s) pend)) +
      (if is_inflight p \<and> is_ack_eliciting p \<and> pkt_space p = s then unat (num_bytes p) else 0)" for s
    by (auto simp: ackm_acct_def)
  show "unat (bytes_in_flight a') = total_inflight a' + inflight_bytes pend"
    using b sub_bytes [of "bytes_in_flight a" _ "num_bytes p"] by (auto simp: b' t)
  show "is_inflight p \<Longrightarrow> num_bytes p \<le> bytes_in_flight a"
    using b by (simp add: u64_le_unat)
  show "unat (ack_eliciting_bytes_in_flight a' s) = eliciting_bytes (packets (tx_history a' s)) +
        eliciting_bytes (filter (\<lambda>p. pkt_space p = s) pend)"
    using e [of s] sub_bytes [of "ack_eliciting_bytes_in_flight a s" _ "num_bytes p"]
    by (auto simp: e' h')
qed

context cc_contract
begin

lemma acked_one_acct:
  assumes "ackm_acct bif a (p # pend)" "cc_method a = m"
  shows "ackm_acct bif (ackm_acked_one p a) pend"
  using settle_counters [OF assms(1) one_counters(1,3) acked_one_hist(1)] assms
  by (auto simp: ackm_acct_def one_cc one_counters bif_acked)

lemma lost_one_acct:
  assumes "ackm_acct bif a (p # pend)" "cc_method a = m"
  shows "ackm_acct bif (ackm_lost_one False p a) pend"
  using settle_counters [OF assms(1) one_counters(2,4) [of False] lost_one_hist(1)] assms
  by (auto simp: ackm_acct_def one_cc one_counters bif_lost)

lemma fold_acct:
  assumes "\<And>p a. f p a = ackm_acked_one p a \<or> f p a = ackm_lost_one False p a"
  shows "ackm_acct bif a (ps @ pend) \<Longrightarrow> cc_method a = m \<Longrightarrow>
    ackm_acct bif (fold f ps a) pend \<and> cc_method (fold f ps a) = m \<and>
    tx_history (fold f ps a) = tx_history a"
proof (induction ps arbitrary: a)
  case (Cons p ps)
  with assms [of p a] acked_one_acct lost_one_acct
  have "ackm_acct bif (f p a) (ps @ pend)" "cc_method (f p a) = m" "tx_history (f p a) = tx_history a"
    by auto
  with Cons.IH [of "f p a"] show ?case by simp
qed simp

lemma on_pkts_acked_acct:
  assumes "ackm_acct bif a (ps @ pend)" "cc_method a = m"
  shows "ackm_acct bif (ackm_on_pkts_acked a ps) pend \<and> cc_method (ackm_on_pkts_acked a ps) = m \<and>
    tx_history (ackm_on_pkts_acked a ps) = tx_history a"
  unfolding ackm_on_pkts_acked_def by (rule fold_acct) (use assms in auto)

lemma on_pkts_lost_acct:
  assumes "ackm_acct bif a (ps @ pend)" "cc_method a = m"
  shows "ackm_acct bif (ackm_on_pkts_lost now a ps False) pend \<and>
    cc_method (ackm_on_pkts_lost now a ps False) = m \<and>
    tx_history (ackm_on_pkts_lost now a ps False) = tx_history a"
  using fold_acct [of "ackm_lost_one False" a ps pend] assms
  by (auto simp: ackm_on_pkts_lost_def Let_def ackm_acct_def bif_finished total_inflight_def)

end

section \<open>Every entry point keeps the accounts\<close>

definition ackm_ok :: "('cc \<Rightarrow> u64) \<Rightarrow> 'cc OSSL_CC_METHOD \<Rightarrow> OSSL_ACKM_TX_PKT list \<Rightarrow> 'cc OSSL_ACKM \<Rightarrow> bool" where
  "ackm_ok bif m pend a \<longleftrightarrow> ackm_acct bif a pend \<and> ackm_hist_ok a \<and> cc_method a = m"

lemma ackm_ok_frame: "acct_frame f \<Longrightarrow> ackm_ok bif m pend (f a) = ackm_ok bif m pend a"
  by (simp add: ackm_ok_def acct_frame_acct)

lemmas ackm_ok_frames = ackm_ok_frame [OF acct_frame_timer] ackm_ok_frame [OF acct_frame_largest]
  ackm_ok_frame [OF acct_frame_rtt]

text \<open>Updates of the other fields.\<close>

lemma ackm_ok_fields:
  "ackm_ok bif m pend (a\<lparr>peer_completed_addr_validation := b\<rparr>) = ackm_ok bif m pend a"
  "ackm_ok bif m pend (a\<lparr>pto_count := n\<rparr>) = ackm_ok bif m pend a"
  "ackm_ok bif m pend (a\<lparr>handshake_confirmed := b\<rparr>) = ackm_ok bif m pend a"
  "ackm_ok bif m pend (a\<lparr>loss_time := lt\<rparr>) = ackm_ok bif m pend a"
  "ackm_ok bif m pend (ackm_queue_probe_anti_deadlock_handshake a) = ackm_ok bif m pend a"
  "ackm_ok bif m pend (ackm_queue_probe_anti_deadlock_initial a) = ackm_ok bif m pend a"
  "ackm_ok bif m pend (ackm_queue_probe a s) = ackm_ok bif m pend a"
  by (simp_all add: ackm_ok_def ackm_acct_def ackm_hist_ok_def total_inflight_def ackm_queue_probe_def
      ackm_queue_probe_anti_deadlock_initial_def ackm_queue_probe_anti_deadlock_handshake_def)

lemma take_out_ok:
  assumes "ackm_ok bif m pend a"
    "ps = filter P (packets (tx_history a s)) \<or> ps = filter P (rev (packets (tx_history a s)))"
  shows "ackm_ok bif m (ps @ pend)
    (a\<lparr>tx_history := (tx_history a)(s := hist_remove_all ps (tx_history a s))\<rparr>)"
  using take_out_acct [OF _ _ assms(2)] assms(1) by (auto simp: ackm_ok_def)

text \<open>The phases of processing an ACK frame.\<close>

lemma on_rx_ack_frame_steps:
  fixes a :: "'cc OSSL_ACKM"
  obtains a2 a3 a5 :: "'cc OSSL_ACKM" and b na n where
    "a2 = (ackm_update_largest_acked a f s)\<lparr>peer_completed_addr_validation := b\<rparr>"
    "ackm_detect_and_remove_newly_acked_pkts a2 f s = (a3, na)"
    "a5 = ackm_handle_lost now (if ecn_present f then ackm_process_ecn now (ackm_update_rtt now a3 f na) f s
        else ackm_update_rtt now a3 f na) s"
    "na = [] \<Longrightarrow> fst (ossl_ackm_on_rx_ack_frame now a f s) \<in> {a3, ackm_set_loss_detection_timer now a3}"
    "na \<noteq> [] \<Longrightarrow> fst (ossl_ackm_on_rx_ack_frame now a f s) =
       ackm_set_loss_detection_timer now ((ackm_on_pkts_acked a5 na)\<lparr>pto_count := n\<rparr>)"
proof -
  define a1 where "a1 = ackm_update_largest_acked a f s"
  define mst where "mst = (\<not> peer_completed_addr_validation a1 \<and> s = QUIC_PN_SPACE_HANDSHAKE)"
  define a2 where "a2 = (if mst then a1\<lparr>peer_completed_addr_validation := True\<rparr> else a1)"
  obtain a3 na where d: "ackm_detect_and_remove_newly_acked_pkts a2 f s = (a3, na)" by fastforce
  define a5 where "a5 = ackm_handle_lost now (if ecn_present f then ackm_process_ecn now (ackm_update_rtt now a3 f na) f s
        else ackm_update_rtt now a3 f na) s"
  define a6 where "a6 = ackm_on_pkts_acked a5 na"
  have eq: "fst (ossl_ackm_on_rx_ack_frame now a f s) =
      (if na = [] then if mst then ackm_set_loss_detection_timer now a3 else a3
       else ackm_set_loss_detection_timer now
         (if peer_completed_addr_validation a6 then a6\<lparr>pto_count := 0\<rparr> else a6))"
    unfolding ossl_ackm_on_rx_ack_frame_def Let_def a1_def [symmetric] mst_def [symmetric]
      a2_def [symmetric] d prod.case a5_def [symmetric] a6_def [symmetric]
    by simp
  show thesis
  proof (rule that [of a2 "peer_completed_addr_validation a2" a3 na a5
        "if peer_completed_addr_validation a6 then 0 else pto_count a6"])
    show "a2 = (ackm_update_largest_acked a f s)\<lparr>peer_completed_addr_validation := peer_completed_addr_validation a2\<rparr>"
      by (simp add: a2_def a1_def)
  qed (use eq d a5_def in \<open>auto simp: a6_def\<close>)
qed

context cc_contract
begin

lemma handle_lost_ok:
  assumes "ackm_ok bif m pend a"
  shows "ackm_ok bif m pend (ackm_handle_lost now a s)"
proof -
  obtain a1 lost lt where d: "ackm_detect_and_remove_lost_pkts now a s = (a1\<lparr>loss_time := lt\<rparr>, lost)"
    and lost: "ackm_ok bif m (lost @ pend) a1"
    using take_out_ok [OF assms] unfolding detect_lost by fastforce
  from lost have ok: "ackm_ok bif m (lost @ pend) (a1\<lparr>loss_time := lt\<rparr>)"
    by (simp add: ackm_ok_fields)
  show ?thesis
  proof (cases "lost = []")
    case True
    with ok show ?thesis by (simp add: ackm_handle_lost_def d)
  next
    case False
    from on_pkts_lost_acct [of "a1\<lparr>loss_time := lt\<rparr>" lost pend now] ok False show ?thesis
      by (auto simp: ackm_handle_lost_def d ackm_ok_def ackm_hist_ok_def)
  qed
qed

lemma process_ecn_ok: "ackm_ok bif m pend a \<Longrightarrow> ackm_ok bif m pend (ackm_process_ecn now a f s)"
  by (auto simp: ackm_process_ecn_def Let_def ackm_ok_def ackm_acct_def ackm_hist_ok_def
      total_inflight_def bif_ecn split: option.split)

lemma on_pkts_acked_ok:
  "ackm_ok bif m (ps @ pend) a \<Longrightarrow> ackm_ok bif m pend (ackm_on_pkts_acked a ps)"
  using on_pkts_acked_acct [of a ps pend] by (auto simp: ackm_ok_def ackm_hist_ok_def)

lemma on_rx_ack_frame_ok:
  assumes ok: "ackm_ok bif m [] a" and rs: "ack_ranges_ok (ack_ranges f)" "ack_ranges f \<noteq> []"
  shows "ackm_ok bif m [] (fst (ossl_ackm_on_rx_ack_frame now a f s))"
proof (rule on_rx_ack_frame_steps [of a f s now])
  fix a2 a3 a5 :: "'cc OSSL_ACKM" and b na n
  assume a2: "a2 = (ackm_update_largest_acked a f s)\<lparr>peer_completed_addr_validation := b\<rparr>"
    and d: "ackm_detect_and_remove_newly_acked_pkts a2 f s = (a3, na)"
    and a5: "a5 = ackm_handle_lost now (if ecn_present f then ackm_process_ecn now (ackm_update_rtt now a3 f na) f s
        else ackm_update_rtt now a3 f na) s"
    and r1: "na = [] \<Longrightarrow> fst (ossl_ackm_on_rx_ack_frame now a f s) \<in> {a3, ackm_set_loss_detection_timer now a3}"
    and r2: "na \<noteq> [] \<Longrightarrow> fst (ossl_ackm_on_rx_ack_frame now a f s) =
       ackm_set_loss_detection_timer now ((ackm_on_pkts_acked a5 na)\<lparr>pto_count := n\<rparr>)"
  have ok2: "ackm_ok bif m [] a2" using ok by (simp add: a2 ackm_ok_frames ackm_ok_fields)
  then have "tx_hist_inv (tx_history a2 s)" by (simp add: ackm_ok_def ackm_hist_ok_def)
  from detect_newly_acked [OF this rs] d
  have na: "na = filter (acks (ack_ranges f)) (rev (packets (tx_history a2 s)))"
    and "a3 = a2\<lparr>tx_history := (tx_history a2)(s := hist_remove_all na (tx_history a2 s))\<rparr>"
    by auto
  with take_out_ok [OF ok2, of na "acks (ack_ranges f)" s] have ok3: "ackm_ok bif m na a3" by simp
  then have "ackm_ok bif m na a5"
    by (simp add: a5 process_ecn_ok ackm_ok_frames handle_lost_ok)
  with ok3 r1 r2 show ?thesis
    by (cases "na = []") (auto simp: ackm_ok_frames ackm_ok_fields on_pkts_acked_ok)
qed

lemma on_timeout_ok:
  assumes "ackm_ok bif m [] a"
  shows "ackm_ok bif m [] (fst (ossl_ackm_on_timeout now a))"
  using assms
  by (simp add: ossl_ackm_on_timeout_def Let_def ackm_ok_frames ackm_ok_fields handle_lost_ok
      split: prod.split)

lemma on_handshake_confirmed_ok:
  "ackm_ok bif m [] a \<Longrightarrow> ackm_ok bif m [] (fst (ossl_ackm_on_handshake_confirmed now a))"
  by (simp add: ossl_ackm_on_handshake_confirmed_def ackm_ok_frames ackm_ok_fields)

end

lemma eliciting_le_inflight: "eliciting_bytes ps \<le> inflight_bytes ps"
  by (induction ps) auto

lemma inflight_le_total: "inflight_bytes (packets (tx_history a s)) \<le> total_inflight a"
  unfolding total_inflight_def
  by (rule member_le_sum [of s UNIV "\<lambda>s. inflight_bytes (packets (tx_history a s))"]) auto

lemma discard_fold:
  "fold ackm_discard_one ps (a, n) =
     (a\<lparr>bytes_in_flight := bytes_in_flight a - (\<Sum>p\<leftarrow>ps. if is_inflight p then num_bytes p else 0),
        cb_log := cb_log a @ map On_Discarded ps\<rparr>,
      n + (\<Sum>p\<leftarrow>ps. if is_inflight p then num_bytes p else 0))"
  by (induction ps arbitrary: a n) (auto simp: ackm_discard_one_def Let_def algebra_simps)

lemma unat_sum_inflight:
  "inflight_bytes ps < 2 ^ 64 \<Longrightarrow>
   unat ((\<Sum>p\<leftarrow>ps. if is_inflight p then num_bytes p else 0) :: u64) = inflight_bytes ps"
proof (induction ps)
  case (Cons p ps)
  then show ?case by (auto simp: unat_u64_add)
qed simp

lemma tx_hist_destroy_packets [simp]: "packets (tx_pkt_history_destroy h) = []"
  by (simp add: tx_pkt_history_destroy_def)

text \<open>What registering a transmitted packet does to the fields the accounting depends on.\<close>

lemma on_tx_packet_accepted:
  fixes now a p
  defines "a' \<equiv> fst (ossl_ackm_on_tx_packet now a p)"
  assumes "snd (ossl_ackm_on_tx_packet now a p)"
  shows "snd (tx_pkt_history_add (tx_history a (pkt_space p)) p)"
    "is_ack_eliciting p \<Longrightarrow> is_inflight p"
    "bytes_in_flight a' = bytes_in_flight a + (if is_inflight p then num_bytes p else 0)"
    "tx_history a' = (tx_history a)(pkt_space p := fst (tx_pkt_history_add (tx_history a (pkt_space p)) p))"
    "cc_data a' = (if is_inflight p then fst (on_data_sent (cc_method a) (num_bytes p) (cc_data a)) else cc_data a)"
    "cc_method a' = cc_method a"
    "ack_eliciting_bytes_in_flight a' = (ack_eliciting_bytes_in_flight a)
       (pkt_space p := ack_eliciting_bytes_in_flight a (pkt_space p) +
          (if is_ack_eliciting p then num_bytes p else 0))"
  using assms(2) unfolding a'_def
  by (auto simp: ossl_ackm_on_tx_packet_def Let_def case_prod_beta split: if_splits)

lemma on_tx_packet_rejected:
  assumes "\<not> snd (ossl_ackm_on_tx_packet now a p)"
  shows "fst (ossl_ackm_on_tx_packet now a p) = a"
proof -
  have same: "fst (tx_pkt_history_add h p) = h" if "\<not> snd (tx_pkt_history_add h p)" for h
    using that by (auto simp: tx_pkt_history_add_def tx_pkt_history_add_actual_def split: if_splits)
  show ?thesis
    using assms by (auto simp: ossl_ackm_on_tx_packet_def Let_def case_prod_beta same split: if_splits)
qed

context cc_contract
begin

lemma ackm_ok_discard:
  fixes a a' :: "'cc OSSL_ACKM" and s :: pn_space
  defines "ps \<equiv> packets (tx_history a s)"
  defines "n \<equiv> (\<Sum>p\<leftarrow>ps. if is_inflight p then num_bytes p else 0) :: u64"
  assumes ok: "ackm_ok bif m [] a"
    and f: "bytes_in_flight a' = bytes_in_flight a - n"
      "tx_history a' = (tx_history a)(s := tx_pkt_history_destroy (tx_history a s))"
      "cc_data a' = (if n > 0 then fst (on_data_invalidated m n (cc_data a)) else cc_data a)"
      "cc_method a' = cc_method a"
      "ack_eliciting_bytes_in_flight a' = (ack_eliciting_bytes_in_flight a)(s := 0)"
  shows "ackm_ok bif m [] a'"
proof -
  have b: "unat (bytes_in_flight a) = total_inflight a" and cc: "bif (cc_data a) = bytes_in_flight a"
    using ok by (auto simp: ackm_ok_def ackm_acct_def)
  have "inflight_bytes ps \<le> unat (bytes_in_flight a)"
    using inflight_le_total [of a s] b by (simp add: ps_def)
  then have "inflight_bytes ps < 18446744073709551616"
    using unat_u64_lt by (rule le_less_trans)
  then have n: "unat n = inflight_bytes ps" unfolding n_def by (intro unat_sum_inflight) simp
  have tot: "total_inflight a' + inflight_bytes ps = total_inflight a"
    using total_inflight_upd [of a s "tx_pkt_history_destroy (tx_history a s)"]
    by (simp add: total_inflight_def f(2) ps_def)
  have bytes: "unat (bytes_in_flight a') = total_inflight a'"
    using sub_bytes [of "bytes_in_flight a" _ n] b n tot by (simp add: f(1))
  have "bif (cc_data a') = bytes_in_flight a'"
    by (auto simp: f(1,3) bif_invalidated cc word_gt_0)
  with ok bytes show ?thesis
    by (auto simp: ackm_ok_def ackm_acct_def ackm_hist_ok_def f(2,4,5))
qed

lemma discarded_ok:
  assumes ok: "ackm_ok bif m [] a"
  shows "ackm_ok bif m [] (fst (ossl_ackm_on_pkt_space_discarded now a s))"
proof (cases "discarded a s")
  case False
  have "cc_method a = m" using ok by (simp add: ackm_ok_def)
  with False show ?thesis
    by (intro ackm_ok_discard [OF ok, of _ s])
      (simp_all add: ossl_ackm_on_pkt_space_discarded_def Let_def discard_fold timer_fields)
qed (use ok in \<open>simp add: ossl_ackm_on_pkt_space_discarded_def\<close>)

lemma ackm_ok_add:
  fixes a a' :: "'cc OSSL_ACKM" and p :: OSSL_ACKM_TX_PKT
  defines "s \<equiv> pkt_space p"
  defines "n \<equiv> (if is_inflight p then num_bytes p else 0)"
  assumes ok: "ackm_ok bif m [] a" and room: "unat (bytes_in_flight a) + unat (num_bytes p) < 2 ^ 64"
    and ei: "is_ack_eliciting p \<Longrightarrow> is_inflight p"
    and h: "packets h = packets (tx_history a s) @ [p]" "tx_hist_inv h"
    and f: "bytes_in_flight a' = bytes_in_flight a + n"
      "tx_history a' = (tx_history a)(s := h)"
      "bif (cc_data a') = bif (cc_data a) + n"
      "cc_method a' = cc_method a"
      "ack_eliciting_bytes_in_flight a' = (ack_eliciting_bytes_in_flight a)
         (s := ack_eliciting_bytes_in_flight a s + (if is_ack_eliciting p then num_bytes p else 0))"
  shows "ackm_ok bif m [] a'"
proof -
  have b: "unat (bytes_in_flight a) = total_inflight a" and cc: "bif (cc_data a) = bytes_in_flight a"
    and el: "unat (ack_eliciting_bytes_in_flight a s) = eliciting_bytes (packets (tx_history a s))"
    using ok by (auto simp: ackm_ok_def ackm_acct_def)
  have "unat n \<le> unat (num_bytes p)" by (simp add: n_def)
  with room have "unat (bytes_in_flight a') = unat (bytes_in_flight a) + unat n"
    unfolding f(1) by (intro unat_u64_add) simp
  moreover have "total_inflight a' = total_inflight a + unat n"
    using total_inflight_upd [of a s h] h(1) by (simp add: total_inflight_def f(2) n_def)
  ultimately have bytes: "unat (bytes_in_flight a') = total_inflight a'" using b by simp
  have "unat (ack_eliciting_bytes_in_flight a s) \<le> unat (bytes_in_flight a)"
    using el b eliciting_le_inflight [of "packets (tx_history a s)"] inflight_le_total [of a s] by simp
  with room have "unat (ack_eliciting_bytes_in_flight a s + num_bytes p) =
      unat (ack_eliciting_bytes_in_flight a s) + unat (num_bytes p)"
    by (intro unat_u64_add) simp
  then have "unat (ack_eliciting_bytes_in_flight a' s) = eliciting_bytes (packets (tx_history a' s))"
    using el ei by (auto simp: f(2,5) h(1))
  then have "unat (ack_eliciting_bytes_in_flight a' x) = eliciting_bytes (packets (tx_history a' x))" for x
    using ok by (cases "x = s") (auto simp: ackm_ok_def ackm_acct_def f(2,5))
  moreover have "bif (cc_data a') = bytes_in_flight a'" by (simp add: f(1,3) cc)
  moreover have "ackm_hist_ok a'" using ok h by (auto simp: ackm_ok_def ackm_hist_ok_def f(2) s_def)
  ultimately show ?thesis using ok bytes by (simp add: ackm_ok_def ackm_acct_def f(4))
qed

lemma on_tx_packet_ok:
  assumes ok: "ackm_ok bif m [] a" and pn: "ossl_quic_pn_valid (pkt_num p)"
    and room: "unat (bytes_in_flight a) + unat (num_bytes p) < 2 ^ 64"
  shows "ackm_ok bif m [] (fst (ossl_ackm_on_tx_packet now a p))"
proof (cases "snd (ossl_ackm_on_tx_packet now a p)")
  case True
  have inv: "tx_hist_inv (tx_history a (pkt_space p))" using ok by (simp add: ackm_ok_def ackm_hist_ok_def)
  note t = on_tx_packet_accepted [OF True]
  have h: "packets (fst (tx_pkt_history_add (tx_history a (pkt_space p)) p)) =
      packets (tx_history a (pkt_space p)) @ [p]"
    "tx_hist_inv (fst (tx_pkt_history_add (tx_history a (pkt_space p)) p))"
    using t(1) tx_hist_add_ok [OF inv, of p] tx_hist_add_inv [OF inv pn] by auto
  have cc: "cc_method a = m" using ok by (simp add: ackm_ok_def)
  show ?thesis
    by (rule ackm_ok_add [OF ok room t(2) h t(3,4) _ t(6,7)]) (auto simp: t(5) cc bif_sent)
next
  case False
  with ok show ?thesis using on_tx_packet_rejected [OF False] by simp
qed

end

end
