(* ===== verification/Ackm_Rx.thy ===== *)
theory Ackm_Rx
  imports Ackm_Tx
begin

text \<open>
  The receive side of the ACK manager: no packet number is processed twice, the ranges an ACK frame
  reports were all received, and an acknowledgement that is owed is requested in time. The lemmas
  are about single operations; \<open>Ackm_Run\<close> lifts them to sequences of operations.
\<close>

section \<open>Operations that leave the receive history alone\<close>

lemma rx_history_frames [simp]:
  "rx_history (ackm_lost_one b p a) = rx_history a"
  "rx_history (ackm_process_ecn now a f s) = rx_history a"
  "rx_history (ackm_update_largest_acked a f s) = rx_history a"
  "rx_history (ackm_update_rtt now a f ps) = rx_history a"
  "rx_history (ackm_queue_probe_anti_deadlock_handshake a) = rx_history a"
  "rx_history (ackm_queue_probe_anti_deadlock_initial a) = rx_history a"
  "rx_history (ackm_queue_probe a s) = rx_history a"
  "rx_history (ackm_set_flush_deadline a s d) = rx_history a"
  "rx_history (ackm_queue_ack a s) = rx_history a"
  "rx_history (ackm_on_rx_ack_eliciting a t s b) = rx_history a"
  "rx_history (ackm_count_ecn a s e) = rx_history a"
  by (simp_all add: ackm_lost_one_def ackm_process_ecn_def ackm_update_largest_acked_def
      ackm_update_rtt_def ackm_queue_probe_def ackm_queue_probe_anti_deadlock_initial_def
      ackm_queue_probe_anti_deadlock_handshake_def ackm_set_flush_deadline_def ackm_queue_ack_def
      ackm_on_rx_ack_eliciting_def ackm_count_ecn_def Let_def split: option.split ackm_ecn.split)

lemma rx_history_fold_lost [simp]: "rx_history (fold (ackm_lost_one b) ps a) = rx_history a"
  by (induction ps arbitrary: a) auto

lemma rx_history_on_pkts_lost [simp]: "rx_history (ackm_on_pkts_lost now a ps b) = rx_history a"
  by (simp add: ackm_on_pkts_lost_def Let_def)

lemma rx_history_detect [simp]:
  "rx_history (fst (ackm_detect_and_remove_newly_acked_pkts a f s)) = rx_history a"
  "rx_history (fst (ackm_detect_and_remove_lost_pkts now a s)) = rx_history a"
  by (simp_all add: ackm_detect_and_remove_newly_acked_pkts_def ackm_detect_and_remove_lost_pkts_def
      Let_def case_prod_beta)

lemma rx_history_handle_lost [simp]: "rx_history (ackm_handle_lost now a s) = rx_history a"
  by (simp add: ackm_handle_lost_def case_prod_beta)

lemma rx_history_discard_fold [simp]: "rx_history (fst (fold ackm_discard_one ps (a, n))) = rx_history a"
  by (simp add: discard_fold)

section \<open>The receive history only grows\<close>

text \<open>
  A step of the receive histories: the invariant is kept, what was settled stays settled, and the
  numbers in the sets come from the old sets or from \<open>new\<close>.
\<close>

definition rx_grows :: "(pn_space \<Rightarrow> QUIC_PN set) \<Rightarrow> (pn_space \<Rightarrow> rx_pkt_history_st) \<Rightarrow>
    (pn_space \<Rightarrow> rx_pkt_history_st) \<Rightarrow> bool" where
  "rx_grows new g g' \<longleftrightarrow> (\<forall>s. rx_hist_inv (g s) \<longrightarrow> rx_hist_inv (g' s) \<and> rx_settled (g s) \<subseteq> rx_settled (g' s) \<and>
     uint_set_members (pn_set (g' s)) \<subseteq> uint_set_members (pn_set (g s)) \<union> new s)"

lemma rx_grows_refl [simp]: "rx_grows new g g"
  by (simp add: rx_grows_def)

lemma rx_grows_trans: "rx_grows new g g' \<Longrightarrow> rx_grows new g' g'' \<Longrightarrow> rx_grows new g g''"
  unfolding rx_grows_def by blast

lemma rx_grows_upd:
  assumes "rx_hist_inv (g s) \<Longrightarrow> rx_hist_inv h \<and> rx_settled (g s) \<subseteq> rx_settled h \<and>
      uint_set_members (pn_set h) \<subseteq> uint_set_members (pn_set (g s)) \<union> new s"
  shows "rx_grows new g (g(s := h))"
  using assms by (auto simp: rx_grows_def)

lemma bump_members:
  assumes "rx_hist_inv h"
  shows "uint_set_members (pn_set (fst (rx_pkt_history_bump_watermark h wm))) \<subseteq> uint_set_members (pn_set h)"
  using assms by (auto simp: bump_watermark_eq rx_hist_inv_def prefix_cut_spec)

lemma rx_grows_bump: "rx_grows new g (g(s := fst (rx_pkt_history_bump_watermark (g s) wm)))"
  by (rule rx_grows_upd) (use bump_watermark_inv bump_members in blast)

lemma rx_grows_acked_one: "rx_grows new (rx_history a) (rx_history (ackm_acked_one p a))"
  by (simp add: ackm_acked_one_def Let_def rx_grows_bump)

lemma rx_grows_on_pkts_acked: "rx_grows new (rx_history a) (rx_history (ackm_on_pkts_acked a ps))"
  unfolding ackm_on_pkts_acked_def
  by (induction ps arbitrary: a) (auto intro: rx_grows_trans rx_grows_acked_one)

lemma rx_grows_on_rx_ack_frame:
  "rx_grows new (rx_history a) (rx_history (fst (ossl_ackm_on_rx_ack_frame now a f s)))"
proof (rule on_rx_ack_frame_steps [of a f s now])
  fix a2 a3 a5 :: "'a OSSL_ACKM" and b na n
  assume a2: "a2 = (ackm_update_largest_acked a f s)\<lparr>peer_completed_addr_validation := b\<rparr>"
    and d: "ackm_detect_and_remove_newly_acked_pkts a2 f s = (a3, na)"
    and a5: "a5 = ackm_handle_lost now (if ecn_present f then ackm_process_ecn now (ackm_update_rtt now a3 f na) f s
        else ackm_update_rtt now a3 f na) s"
    and r1: "na = [] \<Longrightarrow> fst (ossl_ackm_on_rx_ack_frame now a f s) \<in> {a3, ackm_set_loss_detection_timer now a3}"
    and r2: "na \<noteq> [] \<Longrightarrow> fst (ossl_ackm_on_rx_ack_frame now a f s) =
       ackm_set_loss_detection_timer now ((ackm_on_pkts_acked a5 na)\<lparr>pto_count := n\<rparr>)"
  have "rx_history (fst (a3, na)) = rx_history a2" unfolding d [symmetric] by (rule rx_history_detect)
  then have a3: "rx_history a3 = rx_history a" by (simp add: a2)
  then have "rx_history a5 = rx_history a" by (simp add: a5)
  with rx_grows_on_pkts_acked [of new a5 na] a3 r1 r2 show ?thesis by (cases "na = []") auto
qed

lemma trim_members:
  assumes "uint_set_inv (pn_set h)" "uint_set_gaps (pn_set h)"
    "\<forall>pn\<in>uint_set_members (pn_set h). rx_watermark h \<le> pn \<and> ossl_quic_pn_valid pn"
  shows "uint_set_members (pn_set (rx_pkt_history_trim_range_count h)) \<subseteq> uint_set_members (pn_set h)"
proof -
  obtain s hi where res: "trim_loop (length (pn_set h)) (pn_set h) QUIC_PN_INVALID = (s, hi)"
    by fastforce
  from assms have t: "trimmed (pn_set h) QUIC_PN_INVALID (s, hi)"
    using trim_loop_spec [of "pn_set h" QUIC_PN_INVALID "length (pn_set h)"] by (auto simp: res)
  moreover have "length s \<le> MAX_RX_ACK_RANGES"
    using trim_loop_length [OF assms(1), of "length (pn_set h)" QUIC_PN_INVALID] by (simp add: res)
  ultimately have "rx_hist_inv (h\<lparr>pn_set := s\<rparr>)"
    using assms(3) by (auto simp: rx_hist_inv_def trimmed_def)
  from bump_members [OF this] t show ?thesis
    by (auto simp: rx_pkt_history_trim_range_count_def res trimmed_def Let_def)
qed

lemma add_pn_members:
  assumes inv: "rx_hist_inv h" and pn: "ossl_quic_pn_valid pn"
  shows "uint_set_members (pn_set (fst (rx_pkt_history_add_pn mem_ok h pn))) \<subseteq>
    insert pn (uint_set_members (pn_set h))"
  using inv pn
proof (cases rule: add_pn_cases [where mem_ok = mem_ok])
  case (new s)
  have "\<forall>x\<in>uint_set_members s. rx_watermark h \<le> x \<and> ossl_quic_pn_valid x"
    using inv pn new(4,5) by (auto simp: rx_hist_inv_def)
  with new trim_members [of "h\<lparr>pn_set := s\<rparr>"] show ?thesis by simp
qed auto

lemma rx_grows_on_rx_packet:
  assumes "ossl_quic_pn_valid (rxp_pkt_num p)" "rxp_pkt_num p \<in> new (rxp_pkt_space p)"
  shows "rx_grows new (rx_history a) (rx_history (fst (ossl_ackm_on_rx_packet mem_ok a p)))"
proof -
  let ?s = "rxp_pkt_space p" and ?pn = "rxp_pkt_num p"
  have "rx_grows new (rx_history a) ((rx_history a)(?s := fst (rx_pkt_history_add_pn mem_ok (rx_history a ?s) ?pn)))"
  proof (rule rx_grows_upd)
    assume "rx_hist_inv (rx_history a ?s)"
    from add_pn_spec [OF this assms(1), of mem_ok] add_pn_members [OF this assms(1), of mem_ok] assms(2)
    show "rx_hist_inv (fst (rx_pkt_history_add_pn mem_ok (rx_history a ?s) ?pn)) \<and>
      rx_settled (rx_history a ?s) \<subseteq> rx_settled (fst (rx_pkt_history_add_pn mem_ok (rx_history a ?s) ?pn)) \<and>
      uint_set_members (pn_set (fst (rx_pkt_history_add_pn mem_ok (rx_history a ?s) ?pn))) \<subseteq>
        uint_set_members (pn_set (rx_history a ?s)) \<union> new ?s"
      by auto
  qed
  then show ?thesis
    by (simp add: ossl_ackm_on_rx_packet_def Let_def case_prod_beta)
qed

text \<open>A packet number that was accepted is settled.\<close>

lemma on_rx_packet_settles:
  assumes inv: "rx_hist_inv (rx_history a (rxp_pkt_space p))" and pn: "ossl_quic_pn_valid (rxp_pkt_num p)"
    and ok: "snd (ossl_ackm_on_rx_packet mem_ok a p)"
  shows "rxp_pkt_num p \<in> rx_settled (rx_history (fst (ossl_ackm_on_rx_packet mem_ok a p)) (rxp_pkt_space p))"
proof (cases "ossl_ackm_is_rx_pn_processable a (rxp_pkt_num p) (rxp_pkt_space p)")
  case True
  with ok add_pn_spec [OF inv pn, of mem_ok] show ?thesis
    by (auto simp: ossl_ackm_on_rx_packet_def Let_def case_prod_beta split: if_splits)
next
  case False
  have "uint_set_inv (pn_set (rx_history a (rxp_pkt_space p)))" using inv by (simp add: rx_hist_inv_def)
  with False show ?thesis
    by (auto simp: ossl_ackm_on_rx_packet_def Let_def ossl_ackm_is_rx_pn_processable_def rx_settled_def
        us.isin)
qed

lemma processable_settled:
  assumes "rx_hist_inv (rx_history a s)"
  shows "ossl_ackm_is_rx_pn_processable a pn s \<longleftrightarrow> pn \<notin> rx_settled (rx_history a s)"
proof -
  have "uint_set_inv (pn_set (rx_history a s))" using assms by (simp add: rx_hist_inv_def)
  then show ?thesis by (auto simp: ossl_ackm_is_rx_pn_processable_def rx_settled_def us.isin)
qed

section \<open>What an ACK frame reports\<close>

lemma uint_set_inv_ranges_ok: "uint_set_inv s \<Longrightarrow> ack_ranges_ok (rev s)"
  by (auto simp: uint_set_inv_def ack_ranges_ok_def sorted_wrt_rev list_all_iff)

lemma ack_ranges_ok_take: "ack_ranges_ok rs \<Longrightarrow> ack_ranges_ok (take n rs)"
  by (auto simp: ack_ranges_ok_def list_all_iff sorted_wrt_take dest: in_set_takeD)

lemma get_ack_frame_ranges:
  "ack_ranges (snd (ossl_ackm_get_ack_frame now a s)) = take 3 (rev (pn_set (rx_history a s)))"
  by (simp add: ossl_ackm_get_ack_frame_def Let_def ackm_fill_rx_ack_ranges_def QUIC_PN_SPACE_NUM_def)

lemma ack_frame_sound:
  assumes "rx_hist_inv (rx_history a s)"
  shows "ack_ranges_ok (ack_ranges (snd (ossl_ackm_get_ack_frame now a s)))"
    "ack_contains (snd (ossl_ackm_get_ack_frame now a s)) pn \<Longrightarrow>
      pn \<in> uint_set_members (pn_set (rx_history a s))"
  using assms uint_set_inv_ranges_ok [of "pn_set (rx_history a s)"]
  by (auto simp: get_ack_frame_ranges rx_hist_inv_def ack_ranges_ok_take ack_contains_def list_ex_iff
      uint_set_members_def range_set_def range_contains_def dest!: in_set_takeD)

lemma rx_history_get_ack_frame [simp]:
  "rx_history (fst (ossl_ackm_get_ack_frame now a s)) = rx_history a"
  by (simp add: ossl_ackm_get_ack_frame_def Let_def)

section \<open>Owed acknowledgements\<close>

definition ack_owed_by :: "OSSL_TIME \<Rightarrow> pn_space \<Rightarrow> 'cc OSSL_ACKM \<Rightarrow> bool" where
  "ack_owed_by t s a \<longleftrightarrow> rx_ack_desired a s \<or> rx_ack_flush_deadline a s \<le> t"

lemma ack_owed_desired:
  "ack_owed_by t s a \<Longrightarrow> t < UINT64_MAX \<Longrightarrow> t \<le> now \<Longrightarrow> ossl_ackm_is_ack_desired now a s"
  by (auto simp: ack_owed_by_def ossl_ackm_is_ack_desired_def time_simps)

text \<open>The transmit operations do not touch what is owed.\<close>

definition ack_state :: "'cc OSSL_ACKM \<Rightarrow> (pn_space \<Rightarrow> bool) \<times> (pn_space \<Rightarrow> OSSL_TIME)" where
  "ack_state a = (rx_ack_desired a, rx_ack_flush_deadline a)"

lemma ack_owed_state: "ack_state a' = ack_state a \<Longrightarrow> ack_owed_by t s a' = ack_owed_by t s a"
  by (simp add: ack_owed_by_def ack_state_def)

lemma ack_state_frames [simp]:
  "ack_state (ackm_lost_one b p a) = ack_state a"
  "ack_state (ackm_acked_one p a) = ack_state a"
  "ack_state (ackm_process_ecn now a f s) = ack_state a"
  "ack_state (ackm_update_largest_acked a f s) = ack_state a"
  "ack_state (ackm_update_rtt now a f ps) = ack_state a"
  "ack_state (ackm_queue_probe_anti_deadlock_handshake a) = ack_state a"
  "ack_state (ackm_queue_probe_anti_deadlock_initial a) = ack_state a"
  "ack_state (ackm_queue_probe a s) = ack_state a"
  "ack_state (ackm_count_ecn a s e) = ack_state a"
  "ack_state (ackm_set_loss_detection_timer now a) = ack_state a"
  by (simp_all add: ack_state_def ackm_lost_one_def ackm_acked_one_def ackm_process_ecn_def
      ackm_update_largest_acked_def ackm_update_rtt_def ackm_queue_probe_def
      ackm_queue_probe_anti_deadlock_initial_def ackm_queue_probe_anti_deadlock_handshake_def
      ackm_count_ecn_def ackm_set_loss_detection_timer_def ackm_set_loss_detection_timer_actual_def
      Let_def split: option.split ackm_ecn.split prod.split)

lemma ack_state_upd [simp]:
  "ack_state (a\<lparr>tx_history := th\<rparr>) = ack_state a"
  "ack_state (a\<lparr>rx_history := rh\<rparr>) = ack_state a"
  "ack_state (a\<lparr>cc_data := c\<rparr>) = ack_state a"
  "ack_state (a\<lparr>loss_time := lt\<rparr>) = ack_state a"
  "ack_state (a\<lparr>pto_count := n\<rparr>) = ack_state a"
  "ack_state (a\<lparr>handshake_confirmed := b\<rparr>) = ack_state a"
  "ack_state (a\<lparr>peer_completed_addr_validation := b\<rparr>) = ack_state a"
  "ack_state (a\<lparr>rx_largest_pn := lp\<rparr>) = ack_state a"
  "ack_state (a\<lparr>rx_largest_time := ltm\<rparr>) = ack_state a"
  "ack_state (a\<lparr>bytes_in_flight := n'\<rparr>) = ack_state a"
  "ack_state (a\<lparr>ack_eliciting_bytes_in_flight := eb\<rparr>) = ack_state a"
  "ack_state (a\<lparr>time_of_last_ack_eliciting_pkt := lt\<rparr>) = ack_state a"
  "ack_state (a\<lparr>discarded := dc\<rparr>) = ack_state a"
  "ack_state (a\<lparr>cb_log := l\<rparr>) = ack_state a"
  by (simp_all add: ack_state_def)

lemma ack_state_folds [simp]:
  "ack_state (fold (ackm_lost_one b) ps a) = ack_state a"
  "ack_state (fold ackm_acked_one ps a) = ack_state a"
  by (induction ps arbitrary: a) auto

lemma ack_state_detect [simp]:
  "ack_state (fst (ackm_detect_and_remove_newly_acked_pkts a f s)) = ack_state a"
  "ack_state (fst (ackm_detect_and_remove_lost_pkts now a s)) = ack_state a"
  by (simp_all add: ackm_detect_and_remove_newly_acked_pkts_def ackm_detect_and_remove_lost_pkts_def
      Let_def case_prod_beta)

lemma ack_state_lost [simp]:
  "ack_state (ackm_on_pkts_lost now a ps b) = ack_state a"
  "ack_state (ackm_handle_lost now a s) = ack_state a"
  "ack_state (ackm_on_pkts_acked a ps) = ack_state a"
  by (simp_all add: ackm_on_pkts_lost_def ackm_on_pkts_acked_def ackm_handle_lost_def Let_def
      case_prod_beta)

lemma ack_state_if: "ack_state (if b then a else a') = (if b then ack_state a else ack_state a')"
  by simp

lemma ack_state_on_rx_ack_frame [simp]:
  "ack_state (fst (ossl_ackm_on_rx_ack_frame now a f s)) = ack_state a"
proof (rule on_rx_ack_frame_steps [of a f s now])
  fix a2 a3 a5 :: "'a OSSL_ACKM" and b na n
  assume a2: "a2 = (ackm_update_largest_acked a f s)\<lparr>peer_completed_addr_validation := b\<rparr>"
    and d: "ackm_detect_and_remove_newly_acked_pkts a2 f s = (a3, na)"
    and a5: "a5 = ackm_handle_lost now (if ecn_present f then ackm_process_ecn now (ackm_update_rtt now a3 f na) f s
        else ackm_update_rtt now a3 f na) s"
    and r1: "na = [] \<Longrightarrow> fst (ossl_ackm_on_rx_ack_frame now a f s) \<in> {a3, ackm_set_loss_detection_timer now a3}"
    and r2: "na \<noteq> [] \<Longrightarrow> fst (ossl_ackm_on_rx_ack_frame now a f s) =
       ackm_set_loss_detection_timer now ((ackm_on_pkts_acked a5 na)\<lparr>pto_count := n\<rparr>)"
  have "ack_state (fst (a3, na)) = ack_state a2" unfolding d [symmetric] by (rule ack_state_detect)
  then have "ack_state a3 = ack_state a" by (simp add: a2)
  then show ?thesis using r1 r2 by (cases "na = []") (auto simp: a5)
qed

lemma ack_state_entry [simp]:
  "ack_state (fst (ossl_ackm_on_tx_packet now a p)) = ack_state a"
  "ack_state (fst (ossl_ackm_on_pkt_space_discarded now a s)) = ack_state a"
  "ack_state (fst (ossl_ackm_on_handshake_confirmed now a)) = ack_state a"
  "ack_state (fst (ossl_ackm_on_timeout now a)) = ack_state a"
  "ack_state (fst (ossl_ackm_mark_packet_pseudo_lost now a s pn)) = ack_state a"
  by (simp_all add: ossl_ackm_on_tx_packet_def
      ossl_ackm_on_pkt_space_discarded_def ossl_ackm_on_handshake_confirmed_def ossl_ackm_on_timeout_def
      ossl_ackm_mark_packet_pseudo_lost_def Let_def case_prod_beta discard_fold ack_state_if
      split: option.split)

lemma flush_deadline_state [simp]:
  "ack_state (ackm_set_flush_deadline a s d) = (rx_ack_desired a, (rx_ack_flush_deadline a)(s := d))"
  by (simp add: ack_state_def ackm_set_flush_deadline_def Let_def)

lemma eliciting_state:
  fixes a :: "'cc OSSL_ACKM" and s :: pn_space and rx_time :: OSSL_TIME
  defines "due \<equiv> ossl_time_add rx_time (if s = QUIC_PN_SPACE_APP then tx_max_ack_delay a else 0)"
  obtains (same) "rx_ack_desired a s" "ackm_on_rx_ack_eliciting a rx_time s m = a"
  | (queue) d where "ack_state (ackm_on_rx_ack_eliciting a rx_time s m) =
      ((rx_ack_desired a)(s := True), (rx_ack_flush_deadline a)(s := d))"
  | (delay) d where "ack_state (ackm_on_rx_ack_eliciting a rx_time s m) =
      (rx_ack_desired a, (rx_ack_flush_deadline a)(s := d))" "d \<le> due" "d \<le> rx_ack_flush_deadline a s"
proof (cases "rx_ack_desired a s")
  case True
  then show thesis by (intro same) (simp_all add: ackm_on_rx_ack_eliciting_def)
next
  case False
  let ?f = "rx_ack_flush_deadline a s"
  define a1 where "a1 = a\<lparr>rx_ack_eliciting_pkts_since_last_ack := (rx_ack_eliciting_pkts_since_last_ack a)
      (s := rx_ack_eliciting_pkts_since_last_ack a s + 1)\<rparr>"
  define now_ack where "now_ack = (\<not> rx_ack_generated a1 s \<or> m
      \<or> rx_ack_eliciting_pkts_since_last_ack a1 s \<ge> PKTS_BEFORE_ACK \<or> ackm_has_newly_missing a1 s)"
  have due: "ossl_time_add rx_time (if s = QUIC_PN_SPACE_INITIAL \<or> s = QUIC_PN_SPACE_HANDSHAKE
      then ossl_time_zero else tx_max_ack_delay a1) = due"
    by (cases s) (simp_all add: due_def ossl_time_zero_def a1_def)
  have f: "rx_ack_flush_deadline a1 = rx_ack_flush_deadline a" "rx_ack_desired a1 = rx_ack_desired a"
    by (simp_all add: a1_def)
  have eq: "ackm_on_rx_ack_eliciting a rx_time s m = (if now_ack then ackm_queue_ack a1 s
      else ackm_set_flush_deadline a1 s (if ossl_time_is_infinite ?f then due else ossl_time_min ?f due))"
    using False unfolding ackm_on_rx_ack_eliciting_def Let_def a1_def [symmetric] now_ack_def [symmetric] due f
    by simp
  show thesis
  proof (cases now_ack)
    case True
    then show thesis by (intro queue [of ossl_time_infinite]) (simp add: eq ackm_queue_ack_def f)
  next
    case False
    then show thesis
      by (intro delay [of "if ossl_time_is_infinite ?f then due else ossl_time_min ?f due"])
        (simp_all add: eq f time_simps)
  qed
qed

lemma eliciting_owed:
  fixes a :: "'cc OSSL_ACKM" and s :: pn_space and rx_time :: OSSL_TIME
  defines "due \<equiv> ossl_time_add rx_time (if s = QUIC_PN_SPACE_APP then tx_max_ack_delay a else 0)"
  shows "ack_owed_by due s (ackm_on_rx_ack_eliciting a rx_time s m)"
    "ack_owed_by t s' a \<Longrightarrow> ack_owed_by t s' (ackm_on_rx_ack_eliciting a rx_time s m)"
  unfolding due_def
  by (rule eliciting_state [of a s rx_time m];
      auto simp: ack_owed_by_def ack_state_def intro: order.trans)+

lemma on_rx_packet_state:
  fixes a :: "'cc OSSL_ACKM"
  obtains (quiet) "ack_state (fst (ossl_ackm_on_rx_packet mem_ok a p)) = ack_state a"
      "\<not> (ossl_ackm_is_rx_pn_processable a (rxp_pkt_num p) (rxp_pkt_space p) \<and> rxp_is_ack_eliciting p \<and>
          snd (ossl_ackm_on_rx_packet mem_ok a p))"
  | (elicits) a' :: "'cc OSSL_ACKM" and m where "ack_state a' = ack_state a" "tx_max_ack_delay a' = tx_max_ack_delay a"
      "ack_state (fst (ossl_ackm_on_rx_packet mem_ok a p)) =
         ack_state (ackm_on_rx_ack_eliciting a' (rxp_time p) (rxp_pkt_space p) m)"
proof (cases "ossl_ackm_is_rx_pn_processable a (rxp_pkt_num p) (rxp_pkt_space p)")
  case False
  then show thesis by (intro quiet) (simp_all add: ossl_ackm_on_rx_packet_def Let_def)
next
  case True
  let ?s = "rxp_pkt_space p" and ?pn = "rxp_pkt_num p"
  define a1 where "a1 = (if ?pn > rx_largest_pn a ?s
      then a\<lparr>rx_largest_pn := (rx_largest_pn a)(?s := ?pn),
             rx_largest_time := (rx_largest_time a)(?s := rxp_time p)\<rparr> else a)"
  obtain h ok where h: "rx_pkt_history_add_pn mem_ok (rx_history a1 ?s) ?pn = (h, ok)" by fastforce
  define a2 where "a2 = a1\<lparr>rx_history := (rx_history a1)(?s := h)\<rparr>"
  have a2: "ack_state a2 = ack_state a" "tx_max_ack_delay a2 = tx_max_ack_delay a"
    by (simp_all add: a2_def a1_def ack_state_if)
  have eq: "ossl_ackm_on_rx_packet mem_ok a p = (if \<not> ok then (a2, False)
      else (ackm_count_ecn (if rxp_is_ack_eliciting p then ackm_on_rx_ack_eliciting a2 (rxp_time p) ?s
              (ackm_is_missing a1 ?s ?pn) else a2) ?s (rxp_ecn p), True))"
    using True unfolding ossl_ackm_on_rx_packet_def Let_def a1_def [symmetric] h prod.case a2_def [symmetric]
    by simp
  show thesis
  proof (cases "ok \<and> rxp_is_ack_eliciting p")
    case True
    then show thesis by (intro elicits [of a2 "ackm_is_missing a1 ?s ?pn"]) (simp_all add: a2 eq)
  next
    case False
    then show thesis by (intro quiet) (auto simp: eq a2)
  qed
qed

lemma on_rx_packet_owed:
  assumes "ack_owed_by t s a"
  shows "ack_owed_by t s (fst (ossl_ackm_on_rx_packet mem_ok a p))"
proof (rule on_rx_packet_state [of mem_ok a p])
  fix a' :: "'a OSSL_ACKM" and m
  assume "ack_state a' = ack_state a"
    and eq: "ack_state (fst (ossl_ackm_on_rx_packet mem_ok a p)) =
      ack_state (ackm_on_rx_ack_eliciting a' (rxp_time p) (rxp_pkt_space p) m)"
  then have "ack_owed_by t s a'" using assms ack_owed_state by blast
  then show ?thesis unfolding ack_owed_state [OF eq] by (rule eliciting_owed(2))
qed (use assms ack_owed_state in blast)

lemma on_rx_packet_owes:
  assumes "ossl_ackm_is_rx_pn_processable a (rxp_pkt_num p) (rxp_pkt_space p)" "rxp_is_ack_eliciting p"
    "snd (ossl_ackm_on_rx_packet mem_ok a p)"
  shows "ack_owed_by (ossl_time_add (rxp_time p)
      (if rxp_pkt_space p = QUIC_PN_SPACE_APP then tx_max_ack_delay a else 0)) (rxp_pkt_space p)
    (fst (ossl_ackm_on_rx_packet mem_ok a p))"
proof (rule on_rx_packet_state [of mem_ok a p])
  fix a' :: "'a OSSL_ACKM" and m
  assume "tx_max_ack_delay a' = tx_max_ack_delay a"
    and eq: "ack_state (fst (ossl_ackm_on_rx_packet mem_ok a p)) =
      ack_state (ackm_on_rx_ack_eliciting a' (rxp_time p) (rxp_pkt_space p) m)"
  then show ?thesis
    using eliciting_owed(1) [of "rxp_time p" "rxp_pkt_space p" a' m] by (simp only: ack_owed_state [OF eq])
qed (use assms in blast)

lemma get_ack_frame_owed:
  "s' \<noteq> s \<Longrightarrow> ack_owed_by t s' a \<Longrightarrow> ack_owed_by t s' (fst (ossl_ackm_get_ack_frame now a s))"
  by (auto simp: ack_owed_by_def ossl_ackm_get_ack_frame_def Let_def ackm_set_flush_deadline_def)

end
