(* ===== verification/Ackm_Fate.thy ===== *)
theory Ackm_Fate
  imports Ackm_Rx "HOL-Library.Multiset"
begin

text \<open>
  The fate of every packet the ACK manager is told about. A packet is in the history of its space or
  has been reported by exactly one of the callbacks \<open>on_acked\<close>, \<open>on_lost\<close> and \<open>on_discarded\<close>. The
  lemmas hold for every congestion controller.
\<close>

section \<open>Outstanding and resolved packets\<close>

definition outstanding :: "'cc OSSL_ACKM \<Rightarrow> OSSL_ACKM_TX_PKT multiset" where
  "outstanding a = (\<Sum>s\<in>UNIV. mset (packets (tx_history a s)))"

fun resolved_by :: "ackm_cb \<Rightarrow> OSSL_ACKM_TX_PKT list" where
  "resolved_by (On_Lost p) = [p]"
| "resolved_by (On_Acked p) = [p]"
| "resolved_by (On_Discarded p) = [p]"
| "resolved_by _ = []"

definition resolved :: "'cc OSSL_ACKM \<Rightarrow> OSSL_ACKM_TX_PKT list" where
  "resolved a = concat (map resolved_by (cb_log a))"

definition pkt_key :: "OSSL_ACKM_TX_PKT \<Rightarrow> pn_space \<times> QUIC_PN" where
  "pkt_key p = (pkt_space p, pkt_num p)"

text \<open>
  The invariant over the packets \<open>sent\<close> so far, with \<open>pend\<close> the packets taken out of a history and
  not reported yet.
\<close>

definition fate :: "OSSL_ACKM_TX_PKT list \<Rightarrow> OSSL_ACKM_TX_PKT list \<Rightarrow> 'cc OSSL_ACKM \<Rightarrow> bool" where
  "fate sent pend a \<longleftrightarrow> ackm_hist_ok a \<and> outstanding a + mset pend + mset (resolved a) = mset sent \<and>
     distinct (map pkt_key sent) \<and> (\<forall>p\<in>set sent. pkt_num p < tx_watermark (tx_history a (pkt_space p)))"

definition fate_state :: "'cc OSSL_ACKM \<Rightarrow> (pn_space \<Rightarrow> tx_pkt_history_st) \<times> OSSL_ACKM_TX_PKT list" where
  "fate_state a = (tx_history a, resolved a)"

lemma fate_cong: "fate_state a' = fate_state a \<Longrightarrow> fate sent pend a' = fate sent pend a"
  by (simp add: fate_def fate_state_def outstanding_def ackm_hist_ok_def)

lemma outstanding_upd:
  "outstanding (a\<lparr>tx_history := (tx_history a)(s := h)\<rparr>) + mset (packets (tx_history a s)) =
   outstanding a + mset (packets h)"
proof -
  let ?f = "\<lambda>h. mset (packets h)"
  have "(\<Sum>x\<in>UNIV. ?f (((tx_history a)(s := h)) x)) + ?f (tx_history a s) =
      (\<Sum>x\<in>UNIV. ?f (tx_history a x)) + ?f h"
    by (simp add: sum.remove [of UNIV s])
  then show ?thesis by (simp add: outstanding_def)
qed

lemma remove_watermark [simp]: "tx_watermark (hist_remove_all ps h) = tx_watermark h"
proof -
  have "tx_watermark (fst (tx_pkt_history_remove h pn)) = tx_watermark h" for h pn
    by (simp add: tx_pkt_history_remove_def split: option.split)
  then show ?thesis by (induction ps arbitrary: h) auto
qed

lemma fate_take_out:
  assumes f: "fate sent pend a"
    and ps: "ps = filter P (packets (tx_history a s)) \<or> ps = filter P (rev (packets (tx_history a s)))"
  shows "fate sent (ps @ pend) (a\<lparr>tx_history := (tx_history a)(s := hist_remove_all ps (tx_history a s))\<rparr>)"
proof -
  let ?h = "tx_history a s" and ?a = "a\<lparr>tx_history := (tx_history a)(s := hist_remove_all ps (tx_history a s))\<rparr>"
  have inv: "tx_hist_inv ?h" using f by (simp add: fate_def ackm_hist_ok_def)
  have rest: "packets (hist_remove_all ps ?h) = filter (\<lambda>p. \<not> P p) (packets ?h)"
    using ps by (intro remove_all_filter inv) auto
  have "mset ps = filter_mset P (mset (packets ?h))" using ps by auto
  then have "mset ps + mset (packets (hist_remove_all ps ?h)) = mset (packets ?h)"
    by (simp add: rest multiset_partition [symmetric])
  then have "outstanding ?a + mset ps + mset (packets (hist_remove_all ps ?h)) =
      outstanding a + mset (packets (hist_remove_all ps ?h))"
    unfolding add.assoc using outstanding_upd [of a s "hist_remove_all ps ?h"] by (simp only:)
  then have "outstanding ?a + mset ps = outstanding a" by (simp only: add_right_cancel)
  moreover have "ackm_hist_ok ?a"
    using f rest hist_remove_all_inv [OF inv, of ps] by (auto simp: fate_def ackm_hist_ok_def)
  ultimately show ?thesis
    using f unfolding fate_def by (auto simp: resolved_def add.assoc [symmetric])
qed

lemma fate_report:
  assumes "fate sent (p # pend) a" "tx_history a' = tx_history a" "resolved a' = resolved a @ [p]"
  shows "fate sent pend a'"
  using assms by (simp add: fate_def outstanding_def ackm_hist_ok_def)

lemma one_resolved [simp]:
  "resolved (ackm_acked_one p a) = resolved a @ [p]"
  "resolved (ackm_lost_one b p a) = resolved a @ [p]"
  by (simp_all add: resolved_def ackm_acked_one_def ackm_lost_one_def Let_def)

lemma fate_fold_acked: "fate sent (ps @ pend) a \<Longrightarrow> fate sent pend (fold ackm_acked_one ps a)"
proof (induction ps arbitrary: a)
  case (Cons p ps)
  from fate_report [of sent p "ps @ pend" a "ackm_acked_one p a"] Cons show ?case by simp
qed simp

lemma fate_fold_lost: "fate sent (ps @ pend) a \<Longrightarrow> fate sent pend (fold (ackm_lost_one b) ps a)"
proof (induction ps arbitrary: a)
  case (Cons p ps)
  from fate_report [of sent p "ps @ pend" a "ackm_lost_one b p a"] Cons show ?case by simp
qed simp

section \<open>Frames\<close>

lemma fate_state_frames [simp]:
  "fate_state (ackm_set_loss_detection_timer now a) = fate_state a"
  "fate_state (ackm_process_ecn now a f s) = fate_state a"
  "fate_state (ackm_update_largest_acked a f s) = fate_state a"
  "fate_state (ackm_update_rtt now a f ps) = fate_state a"
  "fate_state (ackm_queue_probe_anti_deadlock_handshake a) = fate_state a"
  "fate_state (ackm_queue_probe_anti_deadlock_initial a) = fate_state a"
  "fate_state (ackm_queue_probe a s) = fate_state a"
  "fate_state (ackm_set_flush_deadline a s d) = fate_state a"
  "fate_state (ackm_count_ecn a s e) = fate_state a"
  by (simp_all add: fate_state_def resolved_def ackm_process_ecn_def ackm_update_largest_acked_def
      ackm_update_rtt_def ackm_queue_probe_def ackm_queue_probe_anti_deadlock_initial_def
      ackm_queue_probe_anti_deadlock_handshake_def ackm_set_flush_deadline_def ackm_count_ecn_def
      ackm_set_loss_detection_timer_def ackm_set_loss_detection_timer_actual_def
      Let_def split: option.split ackm_ecn.split prod.split)

lemma fate_state_upd [simp]:
  "fate_state (a\<lparr>rx_history := rh\<rparr>) = fate_state a"
  "fate_state (a\<lparr>cc_data := c\<rparr>) = fate_state a"
  "fate_state (a\<lparr>loss_time := lt\<rparr>) = fate_state a"
  "fate_state (a\<lparr>pto_count := n\<rparr>) = fate_state a"
  "fate_state (a\<lparr>handshake_confirmed := b\<rparr>) = fate_state a"
  "fate_state (a\<lparr>peer_completed_addr_validation := b\<rparr>) = fate_state a"
  "fate_state (a\<lparr>rx_largest_pn := lp\<rparr>) = fate_state a"
  "fate_state (a\<lparr>rx_largest_time := ltm\<rparr>) = fate_state a"
  "fate_state (a\<lparr>bytes_in_flight := n'\<rparr>) = fate_state a"
  "fate_state (a\<lparr>ack_eliciting_bytes_in_flight := eb\<rparr>) = fate_state a"
  "fate_state (a\<lparr>time_of_last_ack_eliciting_pkt := lt\<rparr>) = fate_state a"
  "fate_state (a\<lparr>discarded := dc\<rparr>) = fate_state a"
  "fate_state (a\<lparr>rx_ack_desired := bd\<rparr>) = fate_state a"
  "fate_state (a\<lparr>rx_ack_eliciting_pkts_since_last_ack := rp\<rparr>) = fate_state a"
  "fate_state (a\<lparr>ack := fr\<rparr>) = fate_state a"
  "fate_state (a\<lparr>rx_ack_generated := bg\<rparr>) = fate_state a"
  "fate_state (a\<lparr>rx_max_ack_delay := d\<rparr>) = fate_state a"
  "fate_state (a\<lparr>tx_max_ack_delay := d\<rparr>) = fate_state a"
  by (simp_all add: fate_state_def resolved_def)

lemma fate_state_if: "fate_state (if b then a else a') = (if b then fate_state a else fate_state a')"
  by simp

lemmas fate_frames = fate_state_frames [THEN fate_cong] fate_state_upd [THEN fate_cong]

lemma fate_state_on_rx_ack_eliciting [simp]:
  "fate_state (ackm_on_rx_ack_eliciting a t s m) = fate_state a"
  by (simp add: ackm_on_rx_ack_eliciting_def ackm_queue_ack_def Let_def fate_state_if)

lemma fate_state_on_rx_packet [simp]:
  "fate_state (fst (ossl_ackm_on_rx_packet mem_ok a p)) = fate_state a"
  by (simp add: ossl_ackm_on_rx_packet_def Let_def case_prod_beta fate_state_if)

lemma fate_state_get_ack_frame [simp]:
  "fate_state (fst (ossl_ackm_get_ack_frame now a s)) = fate_state a"
  by (simp add: ossl_ackm_get_ack_frame_def Let_def)

section \<open>Entry points\<close>

lemma fate_handle_lost: "fate sent pend a \<Longrightarrow> fate sent pend (ackm_handle_lost now a s)"
proof -
  assume f: "fate sent pend a"
  obtain a1 lost where d: "ackm_detect_and_remove_lost_pkts now a s = (a1, lost)" by fastforce
  define P where "P = is_lost (ossl_time_subtract now (ackm_loss_delay a)) (largest_acked_pkt a s)"
  from d detect_lost [of now a s] obtain lt where lost: "lost = filter P (packets (tx_history a s))"
    and a1: "a1 = a\<lparr>tx_history := (tx_history a)(s := hist_remove_all lost (tx_history a s)), loss_time := lt\<rparr>"
    by (auto simp: P_def)
  have "fate sent (lost @ pend) a1"
    unfolding a1 fate_frames using fate_take_out [OF f, of lost P s] lost by simp
  then show ?thesis
    using fate_fold_lost [of sent lost pend a1 False]
    by (cases "lost = []") (simp_all add: ackm_handle_lost_def d ackm_on_pkts_lost_def Let_def fate_frames)
qed

lemma fate_on_rx_ack_frame:
  assumes f: "fate sent [] a" and rs: "ack_ranges_ok (ack_ranges fr)" "ack_ranges fr \<noteq> []"
  shows "fate sent [] (fst (ossl_ackm_on_rx_ack_frame now a fr s))"
proof (rule on_rx_ack_frame_steps [of a fr s now])
  fix a2 a3 a5 :: "'a OSSL_ACKM" and b na n
  assume a2: "a2 = (ackm_update_largest_acked a fr s)\<lparr>peer_completed_addr_validation := b\<rparr>"
    and d: "ackm_detect_and_remove_newly_acked_pkts a2 fr s = (a3, na)"
    and a5: "a5 = ackm_handle_lost now (if ecn_present fr then ackm_process_ecn now (ackm_update_rtt now a3 fr na) fr s
        else ackm_update_rtt now a3 fr na) s"
    and r1: "na = [] \<Longrightarrow> fst (ossl_ackm_on_rx_ack_frame now a fr s) \<in> {a3, ackm_set_loss_detection_timer now a3}"
    and r2: "na \<noteq> [] \<Longrightarrow> fst (ossl_ackm_on_rx_ack_frame now a fr s) =
       ackm_set_loss_detection_timer now ((ackm_on_pkts_acked a5 na)\<lparr>pto_count := n\<rparr>)"
  have f2: "fate sent [] a2" using f by (simp add: a2 fate_frames)
  then have "tx_hist_inv (tx_history a2 s)" by (simp add: fate_def ackm_hist_ok_def)
  from detect_newly_acked [OF this rs] d
  have na: "na = filter (acks (ack_ranges fr)) (rev (packets (tx_history a2 s)))"
    and "a3 = a2\<lparr>tx_history := (tx_history a2)(s := hist_remove_all na (tx_history a2 s))\<rparr>"
    by auto
  with fate_take_out [OF f2, of na "acks (ack_ranges fr)" s] have f3: "fate sent na a3" by simp
  then have "fate sent na a5"
    unfolding a5 by (intro fate_handle_lost) (simp add: fate_frames)
  then have "fate sent [] (ackm_on_pkts_acked a5 na)"
    using fate_fold_acked [of sent na "[]" a5] by (simp add: ackm_on_pkts_acked_def)
  with f3 r1 r2 show ?thesis
    by (cases "na = []") (auto simp: fate_frames)
qed

lemma fate_on_timeout: "fate sent [] a \<Longrightarrow> fate sent [] (fst (ossl_ackm_on_timeout now a))"
  by (simp add: ossl_ackm_on_timeout_def Let_def fate_frames fate_handle_lost split: prod.split)

lemma fate_on_handshake_confirmed:
  "fate sent [] a \<Longrightarrow> fate sent [] (fst (ossl_ackm_on_handshake_confirmed now a))"
  by (simp add: ossl_ackm_on_handshake_confirmed_def fate_frames)

lemma resolved_discard: "concat (map (resolved_by \<circ> On_Discarded) ps) = ps"
  by (induction ps) auto

lemma outstanding_cb [simp]: "outstanding (a\<lparr>cb_log := l\<rparr>) = outstanding a"
  by (simp add: outstanding_def)

lemma tx_hist_destroy:
  "tx_hist_inv (tx_pkt_history_destroy h)" "tx_watermark (tx_pkt_history_destroy h) = tx_watermark h"
  by (simp_all add: tx_pkt_history_destroy_def tx_hist_inv_def)

lemma mset_rebalance: "x + p = b \<Longrightarrow> r + b = t \<Longrightarrow> x + (r + p) = (t :: 'b multiset)"
  by (auto simp: ac_simps)

lemma fate_discarded:
  assumes f: "fate sent [] a"
  shows "fate sent [] (fst (ossl_ackm_on_pkt_space_discarded now a s))"
proof (cases "discarded a s")
  case False
  let ?a = "fst (ossl_ackm_on_pkt_space_discarded now a s)" and ?ps = "packets (tx_history a s)"
  have eq: "fate_state ?a = fate_state (a\<lparr>tx_history := (tx_history a)(s := tx_pkt_history_destroy (tx_history a s)),
      cb_log := cb_log a @ map On_Discarded ?ps\<rparr>)"
    using False unfolding ossl_ackm_on_pkt_space_discarded_def Let_def discard_fold
    by (simp add: fate_state_if) (simp add: fate_state_def resolved_def)
  have "outstanding (a\<lparr>tx_history := (tx_history a)(s := tx_pkt_history_destroy (tx_history a s))\<rparr>) + mset ?ps =
      outstanding a"
    using outstanding_upd [of a s "tx_pkt_history_destroy (tx_history a s)"] by simp
  moreover have "mset (concat (map resolved_by (cb_log a))) + outstanding a = mset sent"
    using f by (simp add: fate_def resolved_def add.commute)
  ultimately have "outstanding (a\<lparr>tx_history := (tx_history a)(s := tx_pkt_history_destroy (tx_history a s))\<rparr>) +
      (mset (concat (map resolved_by (cb_log a))) + mset ?ps) = mset sent"
    by (rule mset_rebalance)
  then have "fate sent [] (a\<lparr>tx_history := (tx_history a)(s := tx_pkt_history_destroy (tx_history a s)),
      cb_log := cb_log a @ map On_Discarded ?ps\<rparr>)"
    using f unfolding fate_def ackm_hist_ok_def outstanding_cb
    by (auto simp: resolved_def resolved_discard tx_hist_destroy)
  then show ?thesis by (simp only: fate_cong [OF eq])
qed (use f in \<open>simp add: ossl_ackm_on_pkt_space_discarded_def\<close>)

lemma filter_pn_unique:
  "distinct (map pkt_num ps) \<Longrightarrow> p \<in> set ps \<Longrightarrow> filter (\<lambda>q. pkt_num q = pkt_num p) ps = [p]"
  by (induction ps) (auto simp: filter_empty_conv image_iff)

lemma fate_pseudo_lost:
  assumes f: "fate sent [] a"
  shows "fate sent [] (fst (ossl_ackm_mark_packet_pseudo_lost now a s pn))"
proof (cases "tx_pkt_history_by_pkt_num (tx_history a s) pn")
  case (Some p)
  have inv: "tx_hist_inv (tx_history a s)" using f by (simp add: fate_def ackm_hist_ok_def)
  with by_pkt_num_Some Some have p: "p \<in> set (packets (tx_history a s))" "pkt_num p = pn" by auto
  have d: "distinct (map pkt_num (packets (tx_history a s)))"
    using inv by (simp add: tx_hist_inv_def sorted_pn_distinct)
  from filter_pn_unique [OF d p(1)] p(2)
  have "filter (\<lambda>q. pkt_num q = pn) (packets (tx_history a s)) = [p]" by simp
  then have "fate sent ([p] @ []) (a\<lparr>tx_history := (tx_history a)(s := hist_remove_all [p] (tx_history a s))\<rparr>)"
    by (intro fate_take_out [OF f, of _ "\<lambda>q. pkt_num q = pn"]) simp
  from fate_fold_lost [OF this, of True] Some show ?thesis
    by (simp add: ossl_ackm_mark_packet_pseudo_lost_def Let_def ackm_on_pkts_lost_def fate_frames)
qed (use f in \<open>simp add: ossl_ackm_mark_packet_pseudo_lost_def\<close>)

lemma fate_on_tx_packet:
  assumes f: "fate sent [] a" and pn: "ossl_quic_pn_valid (pkt_num p)"
  shows "fate (if snd (ossl_ackm_on_tx_packet now a p) then sent @ [p] else sent) []
    (fst (ossl_ackm_on_tx_packet now a p))"
proof (cases "snd (ossl_ackm_on_tx_packet now a p)")
  case True
  let ?s = "pkt_space p" and ?a = "fst (ossl_ackm_on_tx_packet now a p)"
  let ?h = "fst (tx_pkt_history_add (tx_history a ?s) p)"
  have hist: "ackm_hist_ok a" and inv: "tx_hist_inv (tx_history a ?s)"
    using f by (auto simp: fate_def ackm_hist_ok_def)
  note t = on_tx_packet_accepted [OF True]
  have wm: "tx_watermark (tx_history a ?s) \<le> pkt_num p" "packets ?h = packets (tx_history a ?s) @ [p]" "tx_hist_inv ?h"
    using t(1) tx_hist_add_ok [OF inv, of p] tx_hist_add_inv [OF inv pn] by auto
  have wm': "tx_watermark ?h = pkt_num p + 1" "pkt_num p < pkt_num p + 1"
    using t(1) pn_valid_not_invalid [OF pn]
    by (auto simp: tx_pkt_history_add_def tx_pkt_history_add_actual_def split: if_splits)
  have res: "resolved ?a = resolved a"
    using True by (auto simp: ossl_ackm_on_tx_packet_def Let_def case_prod_beta resolved_def
        ackm_set_loss_detection_timer_def ackm_set_loss_detection_timer_actual_def split: if_splits)
  have out: "outstanding ?a = outstanding a + {#p#}"
    using outstanding_upd [of a ?s ?h] by (simp add: outstanding_def t(4) wm(2))
  have "\<forall>q\<in>set sent. pkt_key q \<noteq> pkt_key p"
    using f wm(1) by (auto simp: fate_def pkt_key_def)
  moreover have "\<forall>q\<in>set sent. pkt_num q < tx_watermark (tx_history ?a (pkt_space q))"
    using f wm(1) wm' by (auto simp: fate_def t(4) intro: order.strict_trans order.strict_trans2)
  ultimately show ?thesis
    using f True hist wm(2,3) wm' by (auto simp: fate_def out res t(4) ackm_hist_ok_def)
next
  case False
  with f show ?thesis by (simp add: on_tx_packet_rejected)
qed

lemma fate_new:
  "ossl_ackm_new mem_ok st m cc server = Some a \<Longrightarrow> fate [] [] a"
  by (auto simp: ossl_ackm_new_def fate_def outstanding_def resolved_def ackm_hist_ok_def
      tx_pkt_history_init_def tx_hist_inv_def split: if_splits)

end
