(* ===== verification/Ackm_Run.thy ===== *)
theory Ackm_Run
  imports Ackm_Fate
begin

text \<open>
  Sequences of calls to the ACK manager, in any interleaving of the transmit and the receive side,
  and the properties that hold along them. An operation on a packet number space that has been
  discarded is a violation of the interface; the statements hold for such sequences too, but say
  nothing about the code there, which would look at freed memory.
\<close>

section \<open>Operations\<close>

datatype ackm_op =
    Tx_Packet OSSL_TIME OSSL_ACKM_TX_PKT
  | Rx_Ack_Frame OSSL_TIME OSSL_QUIC_FRAME_ACK pn_space
  | Space_Discarded OSSL_TIME pn_space
  | Handshake_Confirmed OSSL_TIME
  | Timeout OSSL_TIME
  | Pseudo_Lost OSSL_TIME pn_space QUIC_PN
  | Rx_Packet bool OSSL_ACKM_RX_PKT
  | Get_Ack_Frame OSSL_TIME pn_space
  | Set_Rx_Max_Ack_Delay OSSL_TIME
  | Set_Tx_Max_Ack_Delay OSSL_TIME

fun ackm_step :: "ackm_op \<Rightarrow> 'cc OSSL_ACKM \<Rightarrow> 'cc OSSL_ACKM" where
  "ackm_step (Tx_Packet now p) a = fst (ossl_ackm_on_tx_packet now a p)"
| "ackm_step (Rx_Ack_Frame now f s) a = fst (ossl_ackm_on_rx_ack_frame now a f s)"
| "ackm_step (Space_Discarded now s) a = fst (ossl_ackm_on_pkt_space_discarded now a s)"
| "ackm_step (Handshake_Confirmed now) a = fst (ossl_ackm_on_handshake_confirmed now a)"
| "ackm_step (Timeout now) a = fst (ossl_ackm_on_timeout now a)"
| "ackm_step (Pseudo_Lost now s pn) a = fst (ossl_ackm_mark_packet_pseudo_lost now a s pn)"
| "ackm_step (Rx_Packet mem_ok p) a = fst (ossl_ackm_on_rx_packet mem_ok a p)"
| "ackm_step (Get_Ack_Frame now s) a = fst (ossl_ackm_get_ack_frame now a s)"
| "ackm_step (Set_Rx_Max_Ack_Delay d) a = ossl_ackm_set_rx_max_ack_delay a d"
| "ackm_step (Set_Tx_Max_Ack_Delay d) a = ossl_ackm_set_tx_max_ack_delay a d"

definition ackm_run :: "ackm_op list \<Rightarrow> 'cc OSSL_ACKM \<Rightarrow> 'cc OSSL_ACKM" where
  "ackm_run ops a = fold ackm_step ops a"

lemma ackm_run_simps [simp]:
  "ackm_run [] a = a" "ackm_run (x # ops) a = ackm_run ops (ackm_step x a)"
  "ackm_run (ops @ ops') a = ackm_run ops' (ackm_run ops a)"
  by (simp_all add: ackm_run_def)

text \<open>What the callers guarantee: valid packet numbers, and ACK frames as the decoder produces them.\<close>

fun ackm_op_ok :: "ackm_op \<Rightarrow> bool" where
  "ackm_op_ok (Tx_Packet now p) \<longleftrightarrow> ossl_quic_pn_valid (pkt_num p)"
| "ackm_op_ok (Rx_Ack_Frame now f s) \<longleftrightarrow> ack_ranges_ok (ack_ranges f) \<and> ack_ranges f \<noteq> []"
| "ackm_op_ok (Rx_Packet mem_ok p) \<longleftrightarrow> ossl_quic_pn_valid (rxp_pkt_num p)"
| "ackm_op_ok _ \<longleftrightarrow> True"

text \<open>The packets whose registration succeeded, in order.\<close>

fun ackm_sent :: "ackm_op list \<Rightarrow> 'cc OSSL_ACKM \<Rightarrow> OSSL_ACKM_TX_PKT list" where
  "ackm_sent [] a = []"
| "ackm_sent (x # ops) a =
     (case x of Tx_Packet now p \<Rightarrow> if snd (ossl_ackm_on_tx_packet now a p) then [p] else [] | _ \<Rightarrow> []) @
     ackm_sent ops (ackm_step x a)"

fun op_tx_bytes :: "ackm_op \<Rightarrow> nat" where
  "op_tx_bytes (Tx_Packet now p) = unat (num_bytes p)"
| "op_tx_bytes _ = 0"

fun is_pseudo_loss :: "ackm_op \<Rightarrow> bool" where
  "is_pseudo_loss (Pseudo_Lost _ _ _) = True"
| "is_pseudo_loss _ = False"

fun op_received :: "ackm_op \<Rightarrow> pn_space \<Rightarrow> QUIC_PN set" where
  "op_received (Rx_Packet mem_ok p) s = (if s = rxp_pkt_space p then {rxp_pkt_num p} else {})"
| "op_received _ s = {}"

definition received :: "ackm_op list \<Rightarrow> pn_space \<Rightarrow> QUIC_PN set" where
  "received ops s = (\<Union>x\<in>set ops. op_received x s)"

section \<open>The fate of packets along a run\<close>

lemma fate_step:
  assumes "fate sent [] a" "ackm_op_ok x"
  shows "fate (sent @ ackm_sent [x] a) [] (ackm_step x a)"
proof (cases x)
  case (Tx_Packet now p)
  with fate_on_tx_packet [of sent a p now] assms show ?thesis
    by (cases "snd (ossl_ackm_on_tx_packet now a p)") simp_all
qed (use assms in \<open>auto simp: fate_on_rx_ack_frame fate_discarded fate_on_handshake_confirmed fate_on_timeout
      fate_pseudo_lost fate_frames fate_cong [OF fate_state_on_rx_packet]
      fate_cong [OF fate_state_get_ack_frame] ossl_ackm_set_rx_max_ack_delay_def
      ossl_ackm_set_tx_max_ack_delay_def\<close>)

lemma fate_run: "fate sent [] a \<Longrightarrow> list_all ackm_op_ok ops \<Longrightarrow> fate (sent @ ackm_sent ops a) [] (ackm_run ops a)"
proof (induction ops arbitrary: a sent)
  case (Cons x ops)
  from Cons.IH [OF fate_step [OF Cons.prems(1), of x]] Cons.prems(2) show ?case by simp
qed simp

section \<open>Bytes in flight along a run\<close>

definition pkt_inflight :: "OSSL_ACKM_TX_PKT \<Rightarrow> nat" where
  "pkt_inflight p = (if is_inflight p then unat (num_bytes p) else 0)"

lemma total_inflight_outstanding: "total_inflight a = sum_mset (image_mset pkt_inflight (outstanding a))"
proof -
  have "sum_mset (image_mset pkt_inflight (\<Sum>s\<in>S. mset (packets (tx_history a s)))) =
      (\<Sum>s\<in>S. inflight_bytes (packets (tx_history a s)))" if "finite S" for S
    using that by (induction S rule: finite_induct)
      (simp_all add: inflight_bytes_def pkt_inflight_def [symmetric] sum_mset_sum_list [symmetric])
  then show ?thesis by (simp add: total_inflight_def outstanding_def)
qed

lemma fate_total: "fate sent [] a \<Longrightarrow> total_inflight a \<le> sum_list (map (\<lambda>p. unat (num_bytes p)) sent)"
proof -
  assume "fate sent [] a"
  then have "outstanding a + mset (resolved a) = mset sent" by (simp add: fate_def)
  then have "outstanding a \<subseteq># mset sent" by (metis mset_subset_eq_add_left)
  then have "total_inflight a \<le> sum_mset (image_mset pkt_inflight (mset sent))"
    unfolding total_inflight_outstanding
    by (metis image_mset_subseteq_mono mset_subset_eq_exists_conv sum_mset.union le_add1)
  also have "\<dots> \<le> sum_list (map (\<lambda>p. unat (num_bytes p)) sent)"
    unfolding mset_map [symmetric] sum_mset_sum_list by (intro sum_list_mono) (simp add: pkt_inflight_def)
  finally show ?thesis .
qed

definition acct_state where
  "acct_state a = (tx_history a, bytes_in_flight a, ack_eliciting_bytes_in_flight a, cc_method a, cc_data a)"

lemma acct_state_ok: "acct_state a' = acct_state a \<Longrightarrow> ackm_ok bif m pend a' = ackm_ok bif m pend a"
  by (simp add: acct_state_def ackm_ok_def ackm_acct_def ackm_hist_ok_def total_inflight_def)

lemma acct_state_flush [simp]: "acct_state (ackm_set_flush_deadline a s d) = acct_state a"
  by (simp add: acct_state_def ackm_set_flush_deadline_def Let_def)

lemma acct_state_rx [simp]:
  "acct_state (ackm_on_rx_ack_eliciting a t s b) = acct_state a"
  "acct_state (ackm_count_ecn a s e) = acct_state a"
  by (auto simp: ackm_on_rx_ack_eliciting_def ackm_queue_ack_def ackm_count_ecn_def Let_def
      split: ackm_ecn.split) (simp_all add: acct_state_def)

lemma acct_state_on_rx_packet [simp]: "acct_state (fst (ossl_ackm_on_rx_packet mem_ok a p)) = acct_state a"
  by (auto simp: ossl_ackm_on_rx_packet_def Let_def case_prod_beta) (simp_all add: acct_state_def)

lemma acct_state_get_ack_frame [simp]: "acct_state (fst (ossl_ackm_get_ack_frame now a s)) = acct_state a"
  by (simp add: ossl_ackm_get_ack_frame_def Let_def) (simp add: acct_state_def)

lemma acct_state_set_delays [simp]:
  "acct_state (ossl_ackm_set_rx_max_ack_delay a d) = acct_state a"
  "acct_state (ossl_ackm_set_tx_max_ack_delay a d) = acct_state a"
  by (simp_all add: acct_state_def ossl_ackm_set_rx_max_ack_delay_def ossl_ackm_set_tx_max_ack_delay_def)

lemmas ackm_ok_rx = acct_state_ok [OF acct_state_on_rx_packet] acct_state_ok [OF acct_state_get_ack_frame]
  acct_state_set_delays [THEN acct_state_ok]

context cc_contract
begin

lemma ackm_step_ok:
  assumes "ackm_ok bif m [] a" "ackm_op_ok x" "\<not> is_pseudo_loss x"
    "unat (bytes_in_flight a) + op_tx_bytes x < 2 ^ 64"
  shows "ackm_ok bif m [] (ackm_step x a)"
  using assms
  by (cases x) (auto simp: on_tx_packet_ok on_rx_ack_frame_ok discarded_ok on_handshake_confirmed_ok
      on_timeout_ok ackm_ok_rx)

lemma ackm_run_ok:
  assumes "ackm_ok bif m [] a" "fate sent [] a" "list_all ackm_op_ok ops" "\<not> list_ex is_pseudo_loss ops"
    "sum_list (map (\<lambda>p. unat (num_bytes p)) sent) + sum_list (map op_tx_bytes ops) < 2 ^ 64"
  shows "ackm_ok bif m [] (ackm_run ops a)"
  using assms
proof (induction ops arbitrary: a sent)
  case (Cons x ops)
  have "unat (bytes_in_flight a) \<le> sum_list (map (\<lambda>p. unat (num_bytes p)) sent)"
    using fate_total [OF Cons.prems(2)] Cons.prems(1) by (simp add: ackm_ok_def ackm_acct_def)
  with Cons.prems have "ackm_ok bif m [] (ackm_step x a)"
    by (intro ackm_step_ok) auto
  moreover have "fate (sent @ ackm_sent [x] a) [] (ackm_step x a)"
    using Cons.prems by (intro fate_step) auto
  moreover have "sum_list (map (\<lambda>p. unat (num_bytes p)) (ackm_sent [x] a)) \<le> op_tx_bytes x"
    by (cases x) auto
  ultimately show ?case
    using Cons.IH [of "ackm_step x a" "sent @ ackm_sent [x] a"] Cons.prems by (simp del: ackm_sent.simps)
qed simp

end

section \<open>The receive side along a run\<close>

lemma rx_history_entry [simp]:
  "rx_history (fst (ossl_ackm_on_tx_packet now a p)) = rx_history a"
  "rx_history (fst (ossl_ackm_on_handshake_confirmed now a)) = rx_history a"
  "rx_history (fst (ossl_ackm_on_timeout now a)) = rx_history a"
  "rx_history (fst (ossl_ackm_mark_packet_pseudo_lost now a s pn)) = rx_history a"
  "rx_history (fst (ossl_ackm_on_pkt_space_discarded now a s)) = rx_history a"
  by (auto simp: ossl_ackm_on_tx_packet_def ossl_ackm_on_handshake_confirmed_def ossl_ackm_on_timeout_def
      ossl_ackm_mark_packet_pseudo_lost_def ossl_ackm_on_pkt_space_discarded_def Let_def case_prod_beta
      discard_fold rx_pkt_history_destroy_def ossl_uint_set_destroy_def split: option.split)

lemma rx_grows_step: "ackm_op_ok x \<Longrightarrow> rx_grows (op_received x) (rx_history a) (rx_history (ackm_step x a))"
  by (cases x) (auto simp: rx_grows_on_rx_ack_frame ossl_ackm_set_rx_max_ack_delay_def
      ossl_ackm_set_tx_max_ack_delay_def intro!: rx_grows_on_rx_packet)

lemma rx_grows_mono: "rx_grows new g g' \<Longrightarrow> (\<And>s. new s \<subseteq> new' s) \<Longrightarrow> rx_grows new' g g'"
  unfolding rx_grows_def by blast

lemma rx_grows_run:
  "list_all ackm_op_ok ops \<Longrightarrow> rx_grows (received ops) (rx_history a) (rx_history (ackm_run ops a))"
proof (induction ops arbitrary: a)
  case (Cons x ops)
  have "rx_grows (received (x # ops)) (rx_history a) (rx_history (ackm_step x a))"
    using Cons.prems by (intro rx_grows_mono [OF rx_grows_step]) (auto simp: received_def)
  moreover have "rx_grows (received (x # ops)) (rx_history (ackm_step x a)) (rx_history (ackm_run (x # ops) a))"
    using rx_grows_mono [OF Cons.IH [of "ackm_step x a"], of "received (x # ops)"] Cons.prems
    by (auto simp: received_def)
  ultimately show ?case by (rule rx_grows_trans)
qed simp

lemma new_rx_history: "ossl_ackm_new mem_ok st m cc server = Some a \<Longrightarrow> rx_history a = (\<lambda>_. rx_pkt_history_init)"
  by (auto simp: ossl_ackm_new_def split: if_splits)

lemma run_rx_hist:
  assumes "ossl_ackm_new mem_ok st m cc server = Some a" "list_all ackm_op_ok ops"
  shows "rx_hist_inv (rx_history (ackm_run ops a) s)"
    "uint_set_members (pn_set (rx_history (ackm_run ops a) s)) \<subseteq> received ops s"
proof -
  have "uint_set_members (pn_set rx_pkt_history_init) = {}"
    by (simp add: rx_pkt_history_init_def ossl_uint_set_init_def uint_set_members_def)
  with rx_grows_run [OF assms(2), of a]
  show "rx_hist_inv (rx_history (ackm_run ops a) s)"
    "uint_set_members (pn_set (rx_history (ackm_run ops a) s)) \<subseteq> received ops s"
    unfolding rx_grows_def new_rx_history [OF assms(1)] by auto
qed

definition serves_ack :: "pn_space \<Rightarrow> ackm_op \<Rightarrow> bool" where
  "serves_ack s x \<longleftrightarrow> (case x of Get_Ack_Frame now s' \<Rightarrow> s' = s | _ \<Rightarrow> False)"

lemma ack_state_set_delays:
  "ack_state (ossl_ackm_set_rx_max_ack_delay a d) = ack_state a"
  "ack_state (ossl_ackm_set_tx_max_ack_delay a d) = ack_state a"
  by (simp_all add: ack_state_def ossl_ackm_set_rx_max_ack_delay_def ossl_ackm_set_tx_max_ack_delay_def)

lemma ack_owed_step: "ack_owed_by t s a \<Longrightarrow> \<not> serves_ack s x \<Longrightarrow> ack_owed_by t s (ackm_step x a)"
  by (cases x) (auto simp: ack_owed_state [OF ack_state_on_rx_ack_frame] ack_owed_state [OF ack_state_entry(1)]
      ack_owed_state [OF ack_state_entry(2)] ack_owed_state [OF ack_state_entry(3)]
      ack_owed_state [OF ack_state_entry(4)] ack_owed_state [OF ack_state_entry(5)] on_rx_packet_owed
      get_ack_frame_owed serves_ack_def ack_owed_state [OF ack_state_set_delays(1)]
      ack_owed_state [OF ack_state_set_delays(2)])

lemma ack_owed_run:
  "ack_owed_by t s a \<Longrightarrow> list_all (\<lambda>x. \<not> serves_ack s x) ops \<Longrightarrow> ack_owed_by t s (ackm_run ops a)"
  by (induction ops arbitrary: a) (auto simp: ack_owed_step)

section \<open>Properties\<close>

text \<open>
  C2: every packet has exactly one fate. For any congestion controller and any sequence of calls,
  pseudo-losses included, the packets still in the histories and the packets reported to one of the
  callbacks \<open>on_acked\<close>, \<open>on_lost\<close> and \<open>on_discarded\<close> make up the packets registered, no two of which
  share space and number; so each registered packet is outstanding or was reported exactly once.
\<close>

theorem ackm_one_fate_per_packet:
  assumes "ossl_ackm_new mem_ok st m cc server = Some a" "list_all ackm_op_ok ops"
  shows "outstanding (ackm_run ops a) + mset (resolved (ackm_run ops a)) = mset (ackm_sent ops a) \<and>
    distinct (map pkt_key (ackm_sent ops a))"
  using fate_run [OF fate_new [OF assms(1)] assms(2)] by (simp add: fate_def)

definition pkt_example :: "QUIC_PN \<Rightarrow> OSSL_ACKM_TX_PKT" where
  "pkt_example pn = \<lparr>pkt_num = pn, num_bytes = 1200, tx_time = 1000 + pn, largest_acked = QUIC_PN_INVALID,
     pkt_space = QUIC_PN_SPACE_APP, is_inflight = True, is_ack_eliciting = True, is_pto_probe = False,
     is_mtu_probe = False\<rparr>"

definition ack_example :: "QUIC_PN \<Rightarrow> QUIC_PN \<Rightarrow> OSSL_QUIC_FRAME_ACK" where
  "ack_example lo hi = no_ack\<lparr>ack_ranges := [\<lparr>r_start = lo, r_end = hi\<rparr>]\<rparr>"

definition ops_example :: "ackm_op list" where
  "ops_example = [Tx_Packet 1000 (pkt_example 0), Tx_Packet 1001 (pkt_example 1),
     Rx_Ack_Frame 1500 (ack_example 1 1) QUIC_PN_SPACE_APP, Timeout 2000000]"

lemma ops_example_ok:
  "list_all ackm_op_ok ops_example" "\<not> list_ex is_pseudo_loss ops_example"
  "sum_list (map op_tx_bytes ops_example) < 2 ^ 64"
  by (simp_all add: ops_example_def ossl_quic_pn_valid_def pkt_example_def ack_example_def ack_ranges_ok_def)

theorem ackm_one_fate_per_packet_witness:
  "\<exists>a. ossl_ackm_new True ossl_statm_init ossl_cc_newreno_method nr_example False = Some a \<and>
     outstanding (ackm_run ops_example a) + mset (resolved (ackm_run ops_example a)) =
       mset (ackm_sent ops_example a)"
proof -
  obtain a where a: "ossl_ackm_new True ossl_statm_init ossl_cc_newreno_method nr_example False = Some a"
    by (simp add: ossl_ackm_new_def)
  from ackm_one_fate_per_packet [OF a ops_example_ok(1)] a show ?thesis by blast
qed

text \<open>
  C1: the accounts of the ACK manager and of the NewReno controller agree and are exact. Along any
  sequence of calls without pseudo-losses that registers less than 2^64 bytes, \<open>bytes_in_flight\<close> is
  the size of the in-flight packets in the histories, the controller's own count is the same number,
  and the count of ack-eliciting bytes of each space is exact.
\<close>

theorem ackm_bytes_in_flight_exact:
  assumes "newreno_new mem_ok = Some nr" "ossl_ackm_new mem_ok' st ossl_cc_newreno_method nr server = Some a"
    "list_all ackm_op_ok ops" "\<not> list_ex is_pseudo_loss ops" "sum_list (map op_tx_bytes ops) < 2 ^ 64"
  shows "unat (bytes_in_flight (ackm_run ops a)) =
      (\<Sum>s\<in>UNIV. inflight_bytes (packets (tx_history (ackm_run ops a) s))) \<and>
    nr_bytes_in_flight (cc_data (ackm_run ops a)) = bytes_in_flight (ackm_run ops a) \<and>
    (\<forall>s. unat (ack_eliciting_bytes_in_flight (ackm_run ops a) s) =
       eliciting_bytes (packets (tx_history (ackm_run ops a) s)))"
proof -
  have "ackm_ok nr_bytes_in_flight ossl_cc_newreno_method [] a"
    using assms(1,2) newreno_new_values(5)
    by (auto simp: ossl_ackm_new_def ackm_ok_def ackm_acct_def ackm_hist_ok_def total_inflight_def
        tx_pkt_history_init_def tx_hist_inv_def split: if_splits)
  from nrc.ackm_run_ok [OF this fate_new [OF assms(2)] assms(3,4)] assms(5) show ?thesis
    by (simp add: ackm_ok_def ackm_acct_def total_inflight_def)
qed

theorem ackm_bytes_in_flight_exact_witness:
  "\<exists>nr a. newreno_new True = Some nr \<and>
     ossl_ackm_new True ossl_statm_init ossl_cc_newreno_method nr False = Some a \<and>
     nr_bytes_in_flight (cc_data (ackm_run ops_example a)) = bytes_in_flight (ackm_run ops_example a)"
proof -
  obtain nr where nr: "newreno_new True = Some nr" by (simp add: newreno_new_def)
  obtain a where a: "ossl_ackm_new True ossl_statm_init ossl_cc_newreno_method nr False = Some a"
    by (simp add: ossl_ackm_new_def)
  from ackm_bytes_in_flight_exact [OF nr a ops_example_ok] nr a show ?thesis by blast
qed

text \<open>
  C3: a packet number is processed at most once. Once a received packet has been accepted, its
  number is never processable again in its space, whatever calls follow, even though the set of
  numbers is trimmed to 32 ranges and cut at the watermark.
\<close>

theorem ackm_never_reprocesses:
  assumes "ossl_ackm_new mem_ok st m cc server = Some a"
    "list_all ackm_op_ok (pre @ Rx_Packet mem_ok' p # post)"
    "snd (ossl_ackm_on_rx_packet mem_ok' (ackm_run pre a) p)"
  shows "\<not> ossl_ackm_is_rx_pn_processable (ackm_run (pre @ Rx_Packet mem_ok' p # post) a)
    (rxp_pkt_num p) (rxp_pkt_space p)"
proof -
  let ?a = "ackm_run pre a" and ?s = "rxp_pkt_space p"
  let ?b = "ackm_step (Rx_Packet mem_ok' p) ?a"
  have inv: "rx_hist_inv (rx_history ?a ?s)" and inv': "rx_hist_inv (rx_history ?b ?s)"
    using run_rx_hist(1) [OF assms(1), of pre ?s] run_rx_hist(1) [OF assms(1), of "pre @ [Rx_Packet mem_ok' p]" ?s]
      assms(2) by simp_all
  have "rxp_pkt_num p \<in> rx_settled (rx_history ?b ?s)"
    using on_rx_packet_settles [OF inv _ assms(3)] assms(2) by simp
  then have "rxp_pkt_num p \<in> rx_settled (rx_history (ackm_run post ?b) ?s)"
    using rx_grows_run [of post ?b] inv' assms(2) by (auto simp: rx_grows_def)
  moreover have "rx_hist_inv (rx_history (ackm_run post ?b) ?s)"
    using rx_grows_run [of post ?b] inv' assms(2) by (auto simp: rx_grows_def)
  ultimately show ?thesis by (simp add: processable_settled)
qed

definition rx_example :: "QUIC_PN \<Rightarrow> OSSL_ACKM_RX_PKT" where
  "rx_example pn = \<lparr>rxp_pkt_num = pn, rxp_time = 500, rxp_pkt_space = QUIC_PN_SPACE_APP,
     rxp_is_ack_eliciting = True, rxp_ecn = OSSL_ACKM_ECN_NONE\<rparr>"

lemma rx_example_accepted:
  assumes "ossl_ackm_new True st m cc server = Some a"
  shows "ossl_ackm_is_rx_pn_processable a 7 QUIC_PN_SPACE_APP"
    "snd (ossl_ackm_on_rx_packet True a (rx_example 7))"
  using new_rx_history [OF assms]
  by (simp_all add: ossl_ackm_is_rx_pn_processable_def rx_pkt_history_init_def ossl_uint_set_init_def
      ossl_uint_set_query_def ossl_ackm_on_rx_packet_def rx_example_def rx_pkt_history_add_pn_def Let_def
      ossl_uint_set_insert_def create_set_item_def)

theorem ackm_never_reprocesses_witness:
  "\<exists>a. ossl_ackm_new True ossl_statm_init ossl_cc_newreno_method nr_example False = Some a \<and>
     \<not> ossl_ackm_is_rx_pn_processable (ackm_run ([] @ Rx_Packet True (rx_example 7) # ops_example) a)
       7 QUIC_PN_SPACE_APP"
proof -
  obtain a where a: "ossl_ackm_new True ossl_statm_init ossl_cc_newreno_method nr_example False = Some a"
    by (simp add: ossl_ackm_new_def)
  have "list_all ackm_op_ok ([] @ Rx_Packet True (rx_example 7) # ops_example)"
    using ops_example_ok(1) by (simp add: rx_example_def ossl_quic_pn_valid_def)
  from ackm_never_reprocesses [OF a this] rx_example_accepted(2) [OF a] a show ?thesis
    by (auto simp: rx_example_def)
qed

text \<open>
  C8: an ACK frame never acknowledges what was not received. After any sequence of calls, the frame
  generated for a space has its ranges in descending order, apart from one another and none empty,
  as the decoder of the peer requires, and every number in them was received in that space.
\<close>

theorem ackm_ack_frame_sound:
  assumes "ossl_ackm_new mem_ok st m cc server = Some a" "list_all ackm_op_ok ops"
  shows "ack_ranges_ok (ack_ranges (snd (ossl_ackm_get_ack_frame now (ackm_run ops a) s))) \<and>
    {pn. ack_contains (snd (ossl_ackm_get_ack_frame now (ackm_run ops a) s)) pn} \<subseteq> received ops s"
  using ack_frame_sound [OF run_rx_hist(1) [OF assms]] run_rx_hist(2) [OF assms] by blast

theorem ackm_ack_frame_sound_witness:
  "\<exists>a. ossl_ackm_new True ossl_statm_init ossl_cc_newreno_method nr_example False = Some a \<and>
     {pn. ack_contains (snd (ossl_ackm_get_ack_frame 900 (ackm_run [Rx_Packet True (rx_example 7)] a)
        QUIC_PN_SPACE_APP)) pn} \<subseteq> {7}"
proof -
  obtain a where a: "ossl_ackm_new True ossl_statm_init ossl_cc_newreno_method nr_example False = Some a"
    by (simp add: ossl_ackm_new_def)
  have "list_all ackm_op_ok [Rx_Packet True (rx_example 7)]"
    by (simp add: rx_example_def ossl_quic_pn_valid_def)
  from ackm_ack_frame_sound [OF a this, of 900 QUIC_PN_SPACE_APP] a show ?thesis
    by (auto simp: received_def rx_example_def)
qed

text \<open>
  C4: acknowledgements are not withheld. When an ack-eliciting packet is accepted, then at every
  later time that is past the packet's arrival by the maximum acknowledgement delay (none in the
  Initial and Handshake spaces), the manager asks for an ACK frame, whatever calls came in between,
  unless a frame for the space was generated in the meantime.
\<close>

theorem ackm_acks_in_time:
  fixes a :: "'cc OSSL_ACKM" and p :: OSSL_ACKM_RX_PKT
  defines "due \<equiv> ossl_time_add (rxp_time p)
      (if rxp_pkt_space p = QUIC_PN_SPACE_APP then tx_max_ack_delay a else 0)"
  assumes "ossl_ackm_is_rx_pn_processable a (rxp_pkt_num p) (rxp_pkt_space p)" "rxp_is_ack_eliciting p"
    "snd (ossl_ackm_on_rx_packet mem_ok a p)" "list_all (\<lambda>x. \<not> serves_ack (rxp_pkt_space p) x) ops"
    "due \<le> now" "due < UINT64_MAX"
  shows "ossl_ackm_is_ack_desired now (ackm_run (Rx_Packet mem_ok p # ops) a) (rxp_pkt_space p)"
  using ack_owed_run [OF on_rx_packet_owes [OF assms(2-4)] assms(5)] assms(6,7)
  by (auto simp: due_def intro: ack_owed_desired)

theorem ackm_acks_in_time_witness:
  "\<exists>a. ossl_ackm_new True ossl_statm_init ossl_cc_newreno_method nr_example False = Some a \<and>
     ossl_ackm_is_ack_desired 25000500 (ackm_run (Rx_Packet True (rx_example 7) # ops_example) a)
       QUIC_PN_SPACE_APP"
proof -
  obtain a where a: "ossl_ackm_new True ossl_statm_init ossl_cc_newreno_method nr_example False = Some a"
    by (simp add: ossl_ackm_new_def)
  then have "tx_max_ack_delay a = 25000000"
    by (auto simp: ossl_ackm_new_def DEFAULT_TX_MAX_ACK_DELAY_def QUIC_DEFAULT_MAX_ACK_DELAY_def
        ossl_ms2time_def OSSL_TIME_MS_def OSSL_TIME_SECOND_def)
  moreover have "list_all (\<lambda>x. \<not> serves_ack QUIC_PN_SPACE_APP x) ops_example"
    by (simp add: ops_example_def serves_ack_def)
  moreover have "ossl_time_add 500 25000000 = 25000500"
    by (simp add: ossl_time_add_def safe_add_u64_def)
  ultimately show ?thesis
    using ackm_acks_in_time [of a "rx_example 7" True ops_example 25000500] rx_example_accepted [OF a] a
    by (auto simp: rx_example_def)
qed

end
