(* ===== verification/Ackm_Timer.thy ===== *)
theory Ackm_Timer
  imports Ackm_Run
begin

text \<open>
  Loss detection and its timer: what the walks over the history compute, when the timer is armed, and
  the places where the ACK manager does not do what its comments say.
\<close>

section \<open>The earliest loss time\<close>

lemma loss_delay_pos: "0 < ackm_loss_delay a"
  by (auto simp: ackm_loss_delay_def Let_def time_simps K_GRANULARITY_def OSSL_TIME_MS_def
      OSSL_TIME_SECOND_def less_max_iff_disj)

lemma earliest_nonzero:
  "lt \<noteq> 0 \<Longrightarrow> 0 \<notin> set ts \<Longrightarrow> earliest lt ts = Min (set (lt # ts))"
proof (induction ts arbitrary: lt)
  case (Cons t ts)
  from Cons.prems have "min lt t \<noteq> 0" by (simp add: min_def)
  with Cons.IH [of "min lt t"] Cons.prems have "earliest lt (t # ts) = Min (set (min lt t # ts))"
    by (simp add: earliest_def)
  also have "\<dots> = Min (set (lt # t # ts))"
    by (cases "ts = []") (simp_all add: min.assoc)
  finally show ?case .
qed (simp add: earliest_def)

lemma earliest_zero:
  assumes "0 \<notin> set ts"
  shows "earliest 0 ts = (if ts = [] then 0 else Min (set ts))"
proof (cases ts)
  case (Cons t us)
  with assms earliest_nonzero [of t us] show ?thesis by (auto simp: earliest_def)
qed (simp add: earliest_def)

lemma loss_dues_nonzero: "0 < d \<Longrightarrow> 0 \<notin> set (loss_dues d lst largest ps)"
proof
  assume "0 < d" "0 \<in> set (loss_dues d lst largest ps)"
  then obtain p :: OSSL_ACKM_TX_PKT where "ossl_time_add (tx_time p) d = 0" by (auto simp: loss_dues_def)
  then have "unat (ossl_time_add (tx_time p) d) = 0" by simp
  with \<open>0 < d\<close> show False by (simp add: unat_ossl_time_add u64_nat)
qed

section \<open>The probe timeout\<close>

definition pto_base :: "'cc OSSL_ACKM \<Rightarrow> OSSL_TIME" where
  "pto_base a = ossl_time_multiply (ossl_time_add (smoothed_rtt (statm a))
     (ossl_time_max (ossl_time_multiply (rtt_variance (statm a)) 4) K_GRANULARITY)) (pto_backoff a)"

definition pto_for :: "'cc OSSL_ACKM \<Rightarrow> OSSL_TIME \<Rightarrow> pn_space \<Rightarrow> OSSL_TIME" where
  "pto_for a d s = (if s = QUIC_PN_SPACE_APP \<and> \<not> ossl_time_is_infinite (rx_max_ack_delay a)
     then ossl_time_add d (ossl_time_multiply (rx_max_ack_delay a) (pto_backoff a)) else d)"

lemma pto_loop_Cons:
  "pto_loop a (i # is) d t sp =
     (let t' = ossl_time_add (time_of_last_ack_eliciting_pkt a i) (pto_for a d i) in
      if ack_eliciting_bytes_in_flight a i = 0 \<and> (handshake_confirmed a \<or> is_server a) then pto_loop a is d t sp
      else if i = QUIC_PN_SPACE_APP \<and> \<not> handshake_confirmed a then (t, sp)
      else if time_of_last_ack_eliciting_pkt a i \<noteq> 0 \<and> t' < t then pto_loop a is (pto_for a d i) t' i
      else pto_loop a is (pto_for a d i) t sp)"
  by (auto simp: Let_def time_simps pto_for_def)

declare pto_loop.simps(2) [simp del]

lemma pto_loop_le: "fst (pto_loop a is d t sp) \<le> t"
proof (induction "is" arbitrary: d t sp)
  case (Cons i "is")
  let ?t = "ossl_time_add (time_of_last_ack_eliciting_pkt a i) (pto_for a d i)"
  have "?t < t \<Longrightarrow> fst (pto_loop a is (pto_for a d i) ?t i) \<le> t"
    using Cons [of "pto_for a d i" ?t i] by simp
  with Cons show ?case by (simp add: pto_loop_Cons Let_def)
qed simp

lemma pto_loop_hd:
  assumes "ack_eliciting_bytes_in_flight a i \<noteq> 0" "i \<noteq> QUIC_PN_SPACE_APP \<or> handshake_confirmed a"
    "time_of_last_ack_eliciting_pkt a i \<noteq> 0"
  shows "fst (pto_loop a (i # is) d t sp) \<le> ossl_time_add (time_of_last_ack_eliciting_pkt a i) (pto_for a d i)"
proof -
  let ?t = "ossl_time_add (time_of_last_ack_eliciting_pkt a i) (pto_for a d i)"
  have "\<not> ?t < t \<Longrightarrow> fst (pto_loop a is (pto_for a d i) t sp) \<le> ?t"
    using pto_loop_le [of a "is" "pto_for a d i" t sp] by simp
  with assms pto_loop_le [of a "is" "pto_for a d i" ?t i] show ?thesis
    by (auto simp: pto_loop_Cons Let_def)
qed

lemma pto_loop_skip:
  assumes "j \<noteq> QUIC_PN_SPACE_APP" "\<And>t sp. fst (pto_loop a is d t sp) \<le> b"
  shows "fst (pto_loop a (j # is) d t sp) \<le> b"
  using assms by (simp add: pto_loop_Cons Let_def pto_for_def)

lemma pto_loop_spaces:
  assumes "ack_eliciting_bytes_in_flight a s \<noteq> 0" "s \<noteq> QUIC_PN_SPACE_APP \<or> handshake_confirmed a"
    "time_of_last_ack_eliciting_pkt a s \<noteq> 0"
  shows "fst (pto_loop a pn_spaces d t sp) \<le>
    ossl_time_add (time_of_last_ack_eliciting_pkt a s) (pto_for a d s)"
proof -
  note hd = pto_loop_hd [OF assms, of _ d]
  show ?thesis
    unfolding pn_spaces_def
    using hd pto_loop_skip [OF _ hd] pto_loop_skip [OF _ pto_loop_skip [OF _ hd]] by (cases s) simp_all
qed

lemma pto_loop_pos: "0 < t \<Longrightarrow> 0 < fst (pto_loop a is d t sp)"
proof (induction "is" arbitrary: d t sp)
  case (Cons i "is")
  have "0 < ossl_time_add (time_of_last_ack_eliciting_pkt a i) x" if "time_of_last_ack_eliciting_pkt a i \<noteq> 0" for x
  proof -
    from that have "unat (time_of_last_ack_eliciting_pkt a i) \<noteq> 0" by (simp add: unat_u64_eq_0)
    then show ?thesis by (simp add: u64_less_unat unat_ossl_time_add)
  qed
  with Cons show ?case by (simp add: pto_loop_Cons Let_def)
qed simp

lemma eliciting_sum:
  assumes "(\<Sum>s\<in>UNIV. unat (ack_eliciting_bytes_in_flight a s)) < 2 ^ 64"
  shows "unat (ackm_ack_eliciting_bytes_in_flight a) = (\<Sum>s\<in>UNIV. unat (ack_eliciting_bytes_in_flight a s))"
  using assms
  by (simp add: ackm_ack_eliciting_bytes_in_flight_def pn_spaces_def UNIV_pn_space unat_u64_add)

lemma unat_pto_backoff: "unat (pto_backoff a) = 2 ^ min (unat (pto_count a)) 16"
proof -
  have "unat (min_u32 (pto_count a) MAX_PTO_COUNT) = min (unat (pto_count a)) 16"
    by (simp add: helper_simps MAX_PTO_COUNT_def min_def word_le_nat_alt)
  moreover have "(2 :: nat) ^ min (unat (pto_count a)) 16 < 2 ^ 64" by (rule power_strict_increasing) auto
  moreover have "(2 :: u64) ^ k = of_nat (2 ^ k)" for k by simp
  ultimately show ?thesis by (simp add: pto_backoff_def push_bit_eq_mult unat_of_nat del: of_nat_power)
qed

section \<open>Congestion signals\<close>

text \<open>Replacing the method \<open>on_ecn\<close> of the controller.\<close>

definition with_on_ecn :: "(OSSL_TIME \<Rightarrow> OSSL_CC_ECN_INFO \<Rightarrow> 'cc \<Rightarrow> 'cc \<times> bool) \<Rightarrow> 'cc OSSL_ACKM \<Rightarrow> 'cc OSSL_ACKM" where
  "with_on_ecn g a = a\<lparr>cc_method := (cc_method a)\<lparr>on_ecn := g\<rparr>\<rparr>"

lemma with_on_ecn_commute:
  "ackm_update_largest_acked (with_on_ecn g a) f s = with_on_ecn g (ackm_update_largest_acked a f s)"
  "(with_on_ecn g a)\<lparr>peer_completed_addr_validation := b\<rparr> = with_on_ecn g (a\<lparr>peer_completed_addr_validation := b\<rparr>)"
  "(with_on_ecn g a)\<lparr>pto_count := n\<rparr> = with_on_ecn g (a\<lparr>pto_count := n\<rparr>)"
  "ackm_update_rtt now (with_on_ecn g a) f ps = with_on_ecn g (ackm_update_rtt now a f ps)"
  "ackm_set_loss_detection_timer_actual (with_on_ecn g a) d = with_on_ecn g (ackm_set_loss_detection_timer_actual a d)"
  "ackm_acked_one p (with_on_ecn g a) = with_on_ecn g (ackm_acked_one p a)"
  "ackm_lost_one ps' p (with_on_ecn g a) = with_on_ecn g (ackm_lost_one ps' p a)"
  by (simp_all add: with_on_ecn_def ackm_update_largest_acked_def ackm_update_rtt_def Let_def
      ackm_set_loss_detection_timer_actual_def ackm_acked_one_def ackm_lost_one_def)

lemma with_on_ecn_fields [simp]:
  "tx_history (with_on_ecn g a) = tx_history a" "loss_time (with_on_ecn g a) = loss_time a"
  "peer_completed_addr_validation (with_on_ecn g a) = peer_completed_addr_validation a"
  "statm (with_on_ecn g a) = statm a" "largest_acked_pkt (with_on_ecn g a) = largest_acked_pkt a"
  "first_rtt_sample (with_on_ecn g a) = first_rtt_sample a"
  "discarded (with_on_ecn g a) = discarded a" "pto_count (with_on_ecn g a) = pto_count a"
  "ack_eliciting_bytes_in_flight (with_on_ecn g a) = ack_eliciting_bytes_in_flight a"
  "handshake_confirmed (with_on_ecn g a) = handshake_confirmed a" "is_server (with_on_ecn g a) = is_server a"
  "time_of_last_ack_eliciting_pkt (with_on_ecn g a) = time_of_last_ack_eliciting_pkt a"
  "rx_max_ack_delay (with_on_ecn g a) = rx_max_ack_delay a"
  by (simp_all add: with_on_ecn_def)

lemma with_on_ecn_pto_loop [simp]: "pto_loop (with_on_ecn g a) is d t sp = pto_loop a is d t sp"
  by (induction "is" arbitrary: d t sp) (auto simp: pto_loop_Cons Let_def pto_for_def pto_backoff_def)

lemma with_on_ecn_timer:
  "ackm_set_loss_detection_timer now (with_on_ecn g a) = with_on_ecn g (ackm_set_loss_detection_timer now a)"
proof -
  have "ackm_get_loss_time_and_space (with_on_ecn g a) = ackm_get_loss_time_and_space a"
    "ackm_ack_eliciting_bytes_in_flight (with_on_ecn g a) = ackm_ack_eliciting_bytes_in_flight a"
    by (simp_all add: ackm_get_loss_time_and_space_def ackm_ack_eliciting_bytes_in_flight_def)
  moreover from this have "ackm_get_pto_time_and_space now (with_on_ecn g a) = ackm_get_pto_time_and_space now a"
    by (simp add: ackm_get_pto_time_and_space_def pto_backoff_def Let_def)
  ultimately show ?thesis
    by (simp add: ackm_set_loss_detection_timer_def with_on_ecn_commute split: prod.split)
qed

lemma with_on_ecn_folds:
  "fold ackm_acked_one ps (with_on_ecn g a) = with_on_ecn g (fold ackm_acked_one ps a)"
  "fold (ackm_lost_one b) ps (with_on_ecn g a) = with_on_ecn g (fold (ackm_lost_one b) ps a)"
  by (induction ps arbitrary: a) (simp_all add: with_on_ecn_commute)

lemma with_on_ecn_handle_lost:
  "ackm_handle_lost now (with_on_ecn g a) s = with_on_ecn g (ackm_handle_lost now a s)"
proof -
  have "ackm_loss_delay (with_on_ecn g a) = ackm_loss_delay a"
    by (simp add: ackm_loss_delay_def)
  moreover have upd: "(with_on_ecn g a)\<lparr>tx_history := th, loss_time := lt\<rparr> =
      with_on_ecn g (a\<lparr>tx_history := th, loss_time := lt\<rparr>)" for th lt
    by (simp add: with_on_ecn_def)
  moreover have "cc_method (with_on_ecn g b) = (cc_method b)\<lparr>on_ecn := g\<rparr>" "cc_data (with_on_ecn g b) = cc_data b"
    "(with_on_ecn g b)\<lparr>cc_data := c\<rparr> = with_on_ecn g (b\<lparr>cc_data := c\<rparr>)" for b c
    by (simp_all add: with_on_ecn_def)
  ultimately show ?thesis
    by (simp add: ackm_handle_lost_def ackm_detect_and_remove_lost_pkts_def Let_def case_prod_beta
        ackm_on_pkts_lost_def ackm_in_persistent_congestion_def with_on_ecn_folds)
qed

lemma detect_with_on_ecn:
  "ackm_detect_and_remove_newly_acked_pkts (with_on_ecn g a) f s =
     (with_on_ecn g (fst (ackm_detect_and_remove_newly_acked_pkts a f s)),
      snd (ackm_detect_and_remove_newly_acked_pkts a f s))"
  by (simp add: ackm_detect_and_remove_newly_acked_pkts_def Let_def case_prod_beta with_on_ecn_def)

text \<open>The packet whose number heads the frame is in no history once the frame has been matched.\<close>

lemma largest_gone:
  assumes inv: "tx_hist_inv (tx_history a s)" and rs: "ack_ranges_ok (ack_ranges f)" "ack_ranges f \<noteq> []"
  shows "tx_pkt_history_by_pkt_num
    (tx_history (fst (ackm_detect_and_remove_newly_acked_pkts a f s)) s) (r_end (hd (ack_ranges f))) = None"
proof -
  let ?h = "tx_history a s" and ?acked = "filter (acks (ack_ranges f)) (rev (packets (tx_history a s)))"
  have "tx_hist_inv (hist_remove_all ?acked ?h)" using inv by (rule hist_remove_all_inv)
  moreover have "packets (hist_remove_all ?acked ?h) = filter (\<lambda>p. \<not> acks (ack_ranges f) p) (packets ?h)"
    using inv by (intro remove_all_filter) auto
  moreover have "acks (ack_ranges f) p" if "pkt_num p = r_end (hd (ack_ranges f))" for p
    using rs that by (cases "ack_ranges f") (auto simp: range_contains_def)
  ultimately have "tx_pkt_history_by_pkt_num (hist_remove_all ?acked ?h) (r_end (hd (ack_ranges f))) = None"
    by (auto simp: tx_pkt_history_by_pkt_num_def tx_hist_inv_def find_None_iff)
  then show ?thesis by (simp add: detect_newly_acked [OF inv rs])
qed

lemma process_ecn_silent:
  assumes "tx_pkt_history_by_pkt_num (tx_history a s) (r_end (hd (ack_ranges f))) = None"
  shows "ackm_process_ecn now (with_on_ecn g a) f s = with_on_ecn g (ackm_process_ecn now a f s)"
  using assms by (simp add: ackm_process_ecn_def Let_def with_on_ecn_def)

lemma on_rx_ack_frame_with_on_ecn:
  assumes inv: "tx_hist_inv (tx_history a s)" and rs: "ack_ranges_ok (ack_ranges f)" "ack_ranges f \<noteq> []"
  shows "fst (ossl_ackm_on_rx_ack_frame now (with_on_ecn g a) f s) =
    with_on_ecn g (fst (ossl_ackm_on_rx_ack_frame now a f s))"
proof -
  define a1 where "a1 = ackm_update_largest_acked a f s"
  define mst where "mst = (\<not> peer_completed_addr_validation a1 \<and> s = QUIC_PN_SPACE_HANDSHAKE)"
  define a2 where "a2 = (if mst then a1\<lparr>peer_completed_addr_validation := True\<rparr> else a1)"
  obtain a3 na where d: "ackm_detect_and_remove_newly_acked_pkts a2 f s = (a3, na)" by fastforce
  define a4 where "a4 = ackm_update_rtt now a3 f na"
  define a5 where "a5 = (if ecn_present f then ackm_process_ecn now a4 f s else a4)"
  define a6 where "a6 = ackm_on_pkts_acked (ackm_handle_lost now a5 s) na"
  define a7 where "a7 = (if peer_completed_addr_validation a6 then a6\<lparr>pto_count := 0\<rparr> else a6)"
  have eq: "fst (ossl_ackm_on_rx_ack_frame now a f s) =
      (if na = [] then if mst then ackm_set_loss_detection_timer now a3 else a3
       else ackm_set_loss_detection_timer now a7)"
    unfolding ossl_ackm_on_rx_ack_frame_def Let_def a1_def [symmetric] mst_def [symmetric]
      a2_def [symmetric] d prod.case a4_def [symmetric] a5_def [symmetric] a6_def [symmetric] a7_def [symmetric]
    by simp
  let ?w = "with_on_ecn g"
  have th: "tx_history a2 = tx_history a" by (simp add: a2_def a1_def ackm_update_largest_acked_def)
  have "tx_pkt_history_by_pkt_num (tx_history (fst (a3, na)) s) (r_end (hd (ack_ranges f))) = None"
    unfolding d [symmetric] by (rule largest_gone) (use inv rs th in auto)
  then have none: "tx_pkt_history_by_pkt_num (tx_history a4 s) (r_end (hd (ack_ranges f))) = None"
    by (simp add: a4_def ackm_update_rtt_def Let_def)
  have w1: "ackm_update_largest_acked (?w a) f s = ?w a1" by (simp add: a1_def with_on_ecn_commute)
  have w2: "(if mst then (?w a1)\<lparr>peer_completed_addr_validation := True\<rparr> else ?w a1) = ?w a2"
    by (simp add: a2_def with_on_ecn_commute)
  have w3: "ackm_detect_and_remove_newly_acked_pkts (?w a2) f s = (?w a3, na)"
    by (simp add: detect_with_on_ecn d)
  have w4: "ackm_update_rtt now (?w a3) f na = ?w a4" by (simp add: a4_def with_on_ecn_commute)
  have w5: "(if ecn_present f then ackm_process_ecn now (?w a4) f s else ?w a4) = ?w a5"
    by (simp add: a5_def process_ecn_silent [OF none])
  have w6: "ackm_on_pkts_acked (ackm_handle_lost now (?w a5) s) na = ?w a6"
    by (simp add: a6_def with_on_ecn_handle_lost ackm_on_pkts_acked_def with_on_ecn_folds)
  have w7: "(if peer_completed_addr_validation a6 then (?w a6)\<lparr>pto_count := 0\<rparr> else ?w a6) = ?w a7"
    by (simp add: a7_def with_on_ecn_commute)
  have "fst (ossl_ackm_on_rx_ack_frame now (?w a) f s) =
      (if na = [] then if mst then ackm_set_loss_detection_timer now (?w a3) else ?w a3
       else ackm_set_loss_detection_timer now (?w a7))"
    unfolding ossl_ackm_on_rx_ack_frame_def Let_def w1 with_on_ecn_fields mst_def [symmetric] w2 w3
      prod.case w4 w5 w6 w7
    by simp
  then show ?thesis by (simp add: eq with_on_ecn_timer)
qed

section \<open>Properties\<close>

text \<open>
  C5: matching an ACK frame. The backward walk, which starts from an indexed lookup and advances
  through packets and ranges at once, returns exactly the packets of the space whose numbers lie in
  one of the frame's ranges, newest first, leaves exactly the others in the history, and keeps the
  index consistent.
\<close>

theorem ackm_newly_acked_equivalence:
  fixes a :: "'cc OSSL_ACKM" and f :: OSSL_QUIC_FRAME_ACK and s :: pn_space
  assumes "tx_hist_inv (tx_history a s)" "ack_ranges_ok (ack_ranges f)" "ack_ranges f \<noteq> []"
  defines "res \<equiv> ackm_detect_and_remove_newly_acked_pkts a f s"
  shows "snd res = filter (\<lambda>p. ack_contains f (pkt_num p)) (rev (packets (tx_history a s))) \<and>
    packets (tx_history (fst res) s) = filter (\<lambda>p. \<not> ack_contains f (pkt_num p)) (packets (tx_history a s)) \<and>
    tx_hist_inv (tx_history (fst res) s)"
proof -
  let ?acked = "filter (acks (ack_ranges f)) (rev (packets (tx_history a s)))"
  have res: "res = (a\<lparr>tx_history := (tx_history a)(s := hist_remove_all ?acked (tx_history a s))\<rparr>, ?acked)"
    unfolding res_def by (rule detect_newly_acked) (use assms in auto)
  have "acks (ack_ranges f) = (\<lambda>p. ack_contains f (pkt_num p))"
    by (simp add: fun_eq_iff acks_def ack_contains_def)
  moreover have "packets (hist_remove_all ?acked (tx_history a s)) =
      filter (\<lambda>p. \<not> acks (ack_ranges f) p) (packets (tx_history a s))"
    using assms(1) by (intro remove_all_filter) auto
  ultimately show ?thesis
    using hist_remove_all_inv [OF assms(1), of ?acked] by (simp add: res)
qed

lemma hist_example_inv:
  "tx_hist_inv (fst (tx_pkt_history_add (fst (tx_pkt_history_add tx_pkt_history_init (pkt_example 3)))
     (pkt_example 5)))"
  by (intro tx_hist_add_inv)
    (simp_all add: tx_pkt_history_init_def tx_hist_inv_def pkt_example_def ossl_quic_pn_valid_def)

definition hist_example :: tx_pkt_history_st where
  "hist_example = fst (tx_pkt_history_add (fst (tx_pkt_history_add tx_pkt_history_init (pkt_example 3)))
     (pkt_example 5))"

lemma hist_example_packets: "packets hist_example = [pkt_example 3, pkt_example 5]"
  by (simp add: hist_example_def tx_pkt_history_add_def tx_pkt_history_add_actual_def
      tx_pkt_history_init_def pkt_example_def)

definition ackm_example :: "OSSL_CC_NEWRENO OSSL_ACKM" where
  "ackm_example = (the (ossl_ackm_new True ossl_statm_init ossl_cc_newreno_method nr_example False))
     \<lparr>tx_history := (\<lambda>_. hist_example)\<rparr>"

lemma ackm_example_fields [simp]:
  "tx_history ackm_example s = hist_example" "cc_method ackm_example = ossl_cc_newreno_method"
  "cc_data ackm_example = nr_example" "ack_eliciting_bytes_in_flight ackm_example = (\<lambda>_. 0)"
  "loss_time ackm_example = (\<lambda>_. 0)" "pto_count ackm_example = 0"
  by (simp_all add: ackm_example_def ossl_ackm_new_def)

theorem ackm_newly_acked_equivalence_witness:
  "snd (ackm_detect_and_remove_newly_acked_pkts ackm_example (ack_example 4 7) QUIC_PN_SPACE_APP) =
     [pkt_example 5]"
  using ackm_newly_acked_equivalence [of ackm_example QUIC_PN_SPACE_APP "ack_example 4 7"] hist_example_inv
  by (simp add: hist_example_def [symmetric] hist_example_packets)
    (simp add: ack_example_def ack_ranges_ok_def ack_contains_def range_contains_def pkt_example_def)

text \<open>
  C6: inferring losses. A packet is declared lost exactly when its number does not exceed the largest
  acknowledged one and it is either three numbers older or was sent at least the loss delay ago; the
  space's loss time becomes the earliest moment at which one of the other packets below the largest
  acknowledged one will be lost, and zero when there is none.
\<close>

theorem ackm_lost_equivalence:
  fixes a :: "'cc OSSL_ACKM" and s :: pn_space and now :: OSSL_TIME
  assumes "tx_hist_inv (tx_history a s)"
  defines "res \<equiv> ackm_detect_and_remove_lost_pkts now a s" and "d \<equiv> ackm_loss_delay a"
    and "below \<equiv> filter (\<lambda>p. pkt_num p \<le> largest_acked_pkt a s) (packets (tx_history a s))"
    and "late \<equiv> \<lambda>p. unat (tx_time p) \<le> unat now - unat (ackm_loss_delay a) \<or>
      pkt_num p + 3 \<le> largest_acked_pkt a s"
  shows "snd res = filter late below \<and>
    set (packets (tx_history (fst res) s)) = set (packets (tx_history a s)) - set (filter late below) \<and>
    loss_time (fst res) s = (if filter (\<lambda>p. \<not> late p) below = [] then 0
      else Min ((\<lambda>p. ossl_time_add (tx_time p) d) ` set (filter (\<lambda>p. \<not> late p) below)))"
proof -
  define lst where "lst = ossl_time_subtract now d"
  let ?ps = "packets (tx_history a s)" and ?L = "largest_acked_pkt a s"
  have late: "late p \<longleftrightarrow> tx_time p \<le> lst \<or> pkt_num p + K_PKT_THRESHOLD \<le> ?L" for p
    by (simp add: late_def lst_def d_def u64_le_unat unat_ossl_time_subtract K_PKT_THRESHOLD_def)
  have lost: "filter (is_lost lst ?L) ?ps = filter late below"
    by (auto simp: below_def is_lost_def late intro!: filter_cong)
  have dues: "loss_dues d lst ?L ?ps = map (\<lambda>p. ossl_time_add (tx_time p) d) (filter (\<lambda>p. \<not> late p) below)"
    by (auto simp: loss_dues_def below_def is_lost_def late intro!: filter_cong arg_cong [of _ _ "map _"])
  have res: "res = (a\<lparr>tx_history := (tx_history a)(s := hist_remove_all (filter late below) (tx_history a s)),
      loss_time := (loss_time a)(s := earliest 0 (loss_dues d lst ?L ?ps))\<rparr>, filter late below)"
    unfolding res_def detect_lost d_def [symmetric] lst_def [symmetric] lost ..
  have "packets (hist_remove_all (filter late below) (tx_history a s)) = filter (\<lambda>p. \<not> (p \<in> set below \<and> late p)) ?ps"
    using assms(1) by (intro remove_all_filter) (auto simp: below_def)
  then have "set (packets (tx_history (fst res) s)) = set ?ps - set (filter late below)"
    by (auto simp: res)
  moreover have "0 \<notin> set (loss_dues d lst ?L ?ps)"
    using loss_delay_pos [of a] by (intro loss_dues_nonzero) (simp add: d_def)
  ultimately show ?thesis
    using earliest_zero [of "loss_dues d lst ?L ?ps"] by (simp add: res dues)
qed

theorem ackm_lost_equivalence_witness:
  "snd (ackm_detect_and_remove_lost_pkts 1010 (ackm_example\<lparr>largest_acked_pkt := \<lambda>_. 6\<rparr>) QUIC_PN_SPACE_APP) =
     [pkt_example 3]"
proof -
  have "unat (1010 :: u64) - unat (ackm_loss_delay (ackm_example\<lparr>largest_acked_pkt := \<lambda>_. 6\<rparr>)) = 0"
    by (simp add: ackm_loss_delay_def Let_def time_simps K_GRANULARITY_def OSSL_TIME_MS_def
        OSSL_TIME_SECOND_def u64_nat max_def)
  then show ?thesis
    using ackm_lost_equivalence [of "ackm_example\<lparr>largest_acked_pkt := \<lambda>_. 6\<rparr>" QUIC_PN_SPACE_APP 1010]
      hist_example_inv
    by (simp add: hist_example_def [symmetric] hist_example_packets) (simp add: pkt_example_def)
qed



text \<open>
  C27: congestion signalled by ECN never reaches the congestion controller. Before the ECN counts of
  an ACK frame are looked at, the packets the frame acknowledges have been taken out of the history,
  and with them the packet whose sending time the signal needs; so the method \<open>on_ecn\<close> is not called,
  and replacing it by any other function changes nothing.
\<close>

theorem ackm_ecn_signal_dropped:
  assumes "tx_hist_inv (tx_history a s)" "ack_ranges_ok (ack_ranges f)" "ack_ranges f \<noteq> []"
  shows "fst (ossl_ackm_on_rx_ack_frame now (a\<lparr>cc_method := (cc_method a)\<lparr>on_ecn := g\<rparr>\<rparr>) f s) =
    (fst (ossl_ackm_on_rx_ack_frame now a f s))
      \<lparr>cc_method := (cc_method (fst (ossl_ackm_on_rx_ack_frame now a f s)))\<lparr>on_ecn := g\<rparr>\<rparr>"
  using on_rx_ack_frame_with_on_ecn [OF assms] by (simp add: with_on_ecn_def)

theorem ackm_ecn_signal_dropped_witness:
  "cc_data (fst (ossl_ackm_on_rx_ack_frame 1500
      (ackm_example\<lparr>cc_method := (cc_method ackm_example)\<lparr>on_ecn := \<lambda>_ _ _. (nr_example, False)\<rparr>\<rparr>)
      ((ack_example 3 5)\<lparr>ecn_present := True, ecnce := 9\<rparr>) QUIC_PN_SPACE_APP)) =
   cc_data (fst (ossl_ackm_on_rx_ack_frame 1500 ackm_example
      ((ack_example 3 5)\<lparr>ecn_present := True, ecnce := 9\<rparr>) QUIC_PN_SPACE_APP))"
  using ackm_ecn_signal_dropped [of ackm_example QUIC_PN_SPACE_APP "(ack_example 3 5)\<lparr>ecn_present := True, ecnce := 9\<rparr>"
      1500 "\<lambda>_ _ _. (nr_example, False)"] hist_example_inv
  by (simp add: hist_example_def [symmetric] ack_example_def ack_ranges_ok_def)

text \<open>
  C28: a pseudo-loss unbalances the accounts. Marking an in-flight packet as pseudo-lost takes its
  bytes out of the ACK manager's count, but the congestion controller is told nothing and goes on
  counting them as in flight.
\<close>

theorem ackm_pseudo_loss_leaks_bytes:
  fixes a :: "OSSL_CC_NEWRENO OSSL_ACKM" and p :: OSSL_ACKM_TX_PKT and now :: OSSL_TIME
  assumes "cc_method a = ossl_cc_newreno_method" "tx_pkt_history_by_pkt_num (tx_history a s) pn = Some p"
    "is_inflight p"
  defines "a' \<equiv> fst (ossl_ackm_mark_packet_pseudo_lost now a s pn)"
  shows "bytes_in_flight a' = bytes_in_flight a - num_bytes p \<and>
    nr_bytes_in_flight (cc_data a') = nr_bytes_in_flight (cc_data a) \<and>
    tx_pkt_history_by_pkt_num (tx_history a' s) (pkt_num p) = None"
  using assms
  by (simp add: ossl_ackm_mark_packet_pseudo_lost_def Let_def ackm_on_pkts_lost_def one_counters one_cc
      nrc.bif_finished tx_pkt_history_remove_def tx_pkt_history_by_pkt_num_def split: option.split)

theorem ackm_pseudo_loss_leaks_bytes_witness:
  "bytes_in_flight (fst (ossl_ackm_mark_packet_pseudo_lost 1500 (ackm_example\<lparr>bytes_in_flight := 9000\<rparr>)
     QUIC_PN_SPACE_APP 5)) = 7800 \<and>
   nr_bytes_in_flight (cc_data (fst (ossl_ackm_mark_packet_pseudo_lost 1500
     (ackm_example\<lparr>bytes_in_flight := 9000\<rparr>) QUIC_PN_SPACE_APP 5))) = 9000"
proof -
  have "tx_pkt_history_by_pkt_num hist_example 5 = Some (pkt_example 5)"
    by (simp add: hist_example_def tx_pkt_history_by_pkt_num_def tx_pkt_history_add_def
        tx_pkt_history_add_actual_def tx_pkt_history_init_def pkt_example_def)
  moreover have "nr_bytes_in_flight nr_example = 9000" by (simp add: nr_example_def)
  ultimately show ?thesis
    using ackm_pseudo_loss_leaks_bytes [of "ackm_example\<lparr>bytes_in_flight := 9000\<rparr>" QUIC_PN_SPACE_APP 5 "pkt_example 5" 1500]
    by (simp add: pkt_example_def)
qed

text \<open>
  C30: a loss time of the Initial space can be overlooked. When the Handshake space has none, its zero
  compares as earlier, so the answer is the loss time of the application space, even when that is
  zero too and the Initial space is waiting for one.
\<close>

theorem ackm_initial_loss_time_overlooked:
  assumes "loss_time a QUIC_PN_SPACE_HANDSHAKE = 0"
  shows "fst (ackm_get_loss_time_and_space a) = loss_time a QUIC_PN_SPACE_APP"
  using assms by (simp add: ackm_get_loss_time_and_space_def time_simps word_gt_0)

theorem ackm_initial_loss_time_overlooked_witness:
  "fst (ackm_get_loss_time_and_space (ackm_example\<lparr>loss_time := (\<lambda>_. 0)(QUIC_PN_SPACE_INITIAL := 70)\<rparr>)) = 0"
  using ackm_initial_loss_time_overlooked [of "ackm_example\<lparr>loss_time := (\<lambda>_. 0)(QUIC_PN_SPACE_INITIAL := 70)\<rparr>"]
  by simp


end
