(* ===== verification/Quic_Vlint.thy ===== *)
theory Quic_Vlint
  imports Quic_Prelude
begin

text \<open>
  QUIC variable-length integers: \<open>crypto/quic_vlint.c\<close> and the inline functions of
  \<open>include/internal/quic_vlint.h\<close>. The bytes \<open>ossl_quic_vlint_encode_n\<close> stores into its buffer are
  the result list; a read past the end of the buffer, which \<open>ossl_quic_vlint_decode_unchecked\<close> leaves
  to its caller to exclude, is \<open>None\<close>.
\<close>

unbundle bit_operations_syntax

definition OSSL_QUIC_VLINT_2B_MIN :: u64 where
  "OSSL_QUIC_VLINT_2B_MIN = 64"

definition OSSL_QUIC_VLINT_4B_MIN :: u64 where
  "OSSL_QUIC_VLINT_4B_MIN = 16384"

definition OSSL_QUIC_VLINT_8B_MIN :: u64 where
  "OSSL_QUIC_VLINT_8B_MIN = 1073741824"

definition OSSL_QUIC_VLINT_MAX :: u64 where
  "OSSL_QUIC_VLINT_MAX = push_bit 62 1 - 1"

lemmas vlint_consts = OSSL_QUIC_VLINT_2B_MIN_def OSSL_QUIC_VLINT_4B_MIN_def
  OSSL_QUIC_VLINT_8B_MIN_def OSSL_QUIC_VLINT_MAX_def

definition ossl_quic_vlint_encode_len :: "u64 \<Rightarrow> nat" where
  "ossl_quic_vlint_encode_len v =
     (if v < OSSL_QUIC_VLINT_2B_MIN then 1
      else if v < OSSL_QUIC_VLINT_4B_MIN then 2
      else if v < OSSL_QUIC_VLINT_8B_MIN then 4
      else if v \<le> OSSL_QUIC_VLINT_MAX then 8
      else 0)"

definition ossl_quic_vlint_encode_n :: "u64 \<Rightarrow> nat \<Rightarrow> u8 list" where
  "ossl_quic_vlint_encode_n v n =
     (if n = 1 then [ucast v]
      else if n = 2 then
        [ucast (0x40 OR (drop_bit 8 v AND 0x3F)), ucast v]
      else if n = 4 then
        [ucast (0x80 OR (drop_bit 24 v AND 0x3F)), ucast (drop_bit 16 v), ucast (drop_bit 8 v),
         ucast v]
      else
        [ucast (0xC0 OR (drop_bit 56 v AND 0x3F)), ucast (drop_bit 48 v), ucast (drop_bit 40 v),
         ucast (drop_bit 32 v), ucast (drop_bit 24 v), ucast (drop_bit 16 v), ucast (drop_bit 8 v),
         ucast v])"

definition ossl_quic_vlint_encode :: "u64 \<Rightarrow> u8 list" where
  "ossl_quic_vlint_encode v = ossl_quic_vlint_encode_n v (ossl_quic_vlint_encode_len v)"

definition ossl_quic_vlint_decode_len :: "u8 \<Rightarrow> nat" where
  "ossl_quic_vlint_decode_len first_byte = push_bit (unat (drop_bit 6 (first_byte AND 0xC0))) 1"

definition ossl_quic_vlint_decode_unchecked :: "u8 list \<Rightarrow> u64 option" where
  "ossl_quic_vlint_decode_unchecked buf =
     (case buf of [] \<Rightarrow> None
      | first_byte # _ \<Rightarrow>
        let sz = ossl_quic_vlint_decode_len first_byte;
            b = (\<lambda>i. ucast (buf ! i) :: u64)
        in if length buf < sz then None
           else if sz = 1 then Some (ucast (first_byte AND 0x3F))
           else if sz = 2 then Some (push_bit 8 (ucast (first_byte AND 0x3F)) OR b 1)
           else if sz = 4 then
             Some (push_bit 24 (ucast (first_byte AND 0x3F)) OR push_bit 16 (b 1)
                   OR push_bit 8 (b 2) OR b 3)
           else
             Some (push_bit 56 (ucast (first_byte AND 0x3F)) OR push_bit 48 (b 1)
                   OR push_bit 40 (b 2) OR push_bit 32 (b 3) OR push_bit 24 (b 4)
                   OR push_bit 16 (b 5) OR push_bit 8 (b 6) OR b 7))"

text \<open>
  \<open>None\<close> is the C return value 0; otherwise the number of bytes consumed with the value stored
  through \<open>v\<close>.
\<close>

definition ossl_quic_vlint_decode :: "u8 list \<Rightarrow> (nat \<times> u64) option" where
  "ossl_quic_vlint_decode buf =
     (if length buf < 1 then None
      else let dec_len = ossl_quic_vlint_decode_len (buf ! 0)
           in if length buf < dec_len then None
              else map_option (Pair dec_len) (ossl_quic_vlint_decode_unchecked buf))"

section \<open>Lengths\<close>

lemma encode_len_cases: "ossl_quic_vlint_encode_len v \<in> {0, 1, 2, 4, 8}"
  by (simp add: ossl_quic_vlint_encode_len_def)

lemma encode_len_0_iff: "ossl_quic_vlint_encode_len v = 0 \<longleftrightarrow> v > OSSL_QUIC_VLINT_MAX"
  by (auto simp: ossl_quic_vlint_encode_len_def vlint_consts u64_nat)

lemma length_encode_n: "n \<in> {1, 2, 4, 8} \<Longrightarrow> length (ossl_quic_vlint_encode_n v n) = n"
  by (auto simp: ossl_quic_vlint_encode_n_def)

lemma length_encode:
  "v \<le> OSSL_QUIC_VLINT_MAX \<Longrightarrow> length (ossl_quic_vlint_encode v) = ossl_quic_vlint_encode_len v"
  using encode_len_cases [of v] encode_len_0_iff [of v]
  by (auto simp: ossl_quic_vlint_encode_def length_encode_n not_less)

section \<open>Bit-level facts of the encoding\<close>

lemma vlint_bits:
  "bit (0x40 :: int) n \<longleftrightarrow> n = 6" "bit (0x80 :: int) n \<longleftrightarrow> n = 7"
  "bit (0xC0 :: int) n \<longleftrightarrow> n = 6 \<or> n = 7"
  "bit (0x3F :: int) n \<longleftrightarrow> n < 6" "bit (3 :: int) n \<longleftrightarrow> n < 2" "bit (2 :: int) n \<longleftrightarrow> n = 1"
proof -
  have c0: "(0xC0 :: int) = 2 ^ 6 OR 2 ^ 7" by simp
  have m: "(0x3F :: int) = mask 6" "(3 :: int) = mask 2"
    by (simp_all add: mask_eq_exp_minus_1)
  show "bit (0x40 :: int) n \<longleftrightarrow> n = 6" using bit_exp_iff [where 'a = int, of 6 n] by auto
  show "bit (0x80 :: int) n \<longleftrightarrow> n = 7" using bit_exp_iff [where 'a = int, of 7 n] by auto
  show "bit (2 :: int) n \<longleftrightarrow> n = 1" using bit_exp_iff [where 'a = int, of 1 n] by auto
  show "bit (0xC0 :: int) n \<longleftrightarrow> n = 6 \<or> n = 7"
    unfolding c0 bit_or_iff bit_exp_iff by auto
  show "bit (0x3F :: int) n \<longleftrightarrow> n < 6" "bit (3 :: int) n \<longleftrightarrow> n < 2"
    unfolding m bit_mask_iff by auto
qed

lemma tag_low:
  "(ucast (0x40 OR (w AND 0x3F :: u64)) :: u8) AND 0x3F = ucast w AND 0x3F"
  "(ucast (0x80 OR (w AND 0x3F :: u64)) :: u8) AND 0x3F = ucast w AND 0x3F"
  "(ucast (0xC0 OR (w AND 0x3F :: u64)) :: u8) AND 0x3F = ucast w AND 0x3F"
  by (auto intro!: bit_word_eqI simp: bit_simps vlint_bits)

lemma tag_hi:
  "drop_bit 6 ((ucast (0x40 OR (w AND 0x3F :: u64)) :: u8) AND 0xC0) = 1"
  "drop_bit 6 ((ucast (0x80 OR (w AND 0x3F :: u64)) :: u8) AND 0xC0) = 2"
  "drop_bit 6 ((ucast (0xC0 OR (w AND 0x3F :: u64)) :: u8) AND 0xC0) = 3"
  by (auto intro!: bit_word_eqI simp: bit_simps vlint_bits)

lemma byte_take: "ucast (ucast (w :: u64) :: u8) = take_bit 8 w"
  by (rule bit_word_eqI) (auto simp: bit_simps)

lemma six_take: "ucast (ucast (w :: u64) AND 0x3F :: u8) = take_bit 6 w"
  by (rule bit_word_eqI) (auto simp: bit_simps vlint_bits)

lemma take_bit_glue:
  "push_bit m (take_bit k (drop_bit m v)) OR take_bit m v = take_bit (m + k) (v::u64)"
  by (rule bit_word_eqI) (auto simp: bit_simps)

lemma take_bit_small: "unat (v::u64) < 2 ^ k \<Longrightarrow> take_bit k v = v"
  by (rule u64_unat_inj) (simp add: unsigned_take_bit_eq take_bit_nat_eq_self)

lemmas glue = take_bit_glue [of 8 8, simplified] take_bit_glue [of 16 8, simplified]
  take_bit_glue [of 24 8, simplified] take_bit_glue [of 32 8, simplified]
  take_bit_glue [of 40 8, simplified] take_bit_glue [of 48 8, simplified]
  take_bit_glue [of 8 6, simplified] take_bit_glue [of 24 6, simplified]
  take_bit_glue [of 56 6, simplified]

definition vlint_fits :: "u64 \<Rightarrow> nat \<Rightarrow> bool" where
  "vlint_fits v n \<longleftrightarrow> unat v < 2 ^ (8 * n - 2)"

lemma bit_small: "unat (v :: u64) < 2 ^ k \<Longrightarrow> k \<le> i \<Longrightarrow> \<not> bit v i"
  by (metis bit_take_bit_iff not_less take_bit_small)

lemma tag_hi_one: "unat (v :: u64) < 2 ^ 6 \<Longrightarrow> drop_bit 6 (ucast v AND 0xC0 :: u8) = 0"
  using bit_small [of v 6] by (auto intro!: bit_word_eqI simp: bit_simps vlint_bits)

lemma decode_len_tags:
  "unat (v :: u64) < 2 ^ 6 \<Longrightarrow> ossl_quic_vlint_decode_len (ucast v) = 1"
  "ossl_quic_vlint_decode_len (ucast (0x40 OR (w AND 0x3F :: u64))) = 2"
  "ossl_quic_vlint_decode_len (ucast (0x80 OR (w AND 0x3F :: u64))) = 4"
  "ossl_quic_vlint_decode_len (ucast (0xC0 OR (w AND 0x3F :: u64))) = 8"
  unfolding ossl_quic_vlint_decode_len_def tag_hi
  by (simp_all add: tag_hi_one del: drop_bit_and)

lemma decode_len_encode_n:
  "n \<in> {1, 2, 4, 8} \<Longrightarrow> vlint_fits v n \<Longrightarrow>
   ossl_quic_vlint_decode_len (ossl_quic_vlint_encode_n v n ! 0) = n"
  by (auto simp: ossl_quic_vlint_encode_n_def vlint_fits_def decode_len_tags)

lemma six_take_small: "unat (v :: u64) < 2 ^ 6 \<Longrightarrow> ucast (ucast v AND 0x3F :: u8) = v"
  by (simp add: six_take take_bit_small)

lemma decode_unchecked_encode_n:
  assumes "n \<in> {1, 2, 4, 8}" "vlint_fits v n"
  shows "ossl_quic_vlint_decode_unchecked (ossl_quic_vlint_encode_n v n @ rest) = Some v"
proof -
  note enc = ossl_quic_vlint_encode_n_def ossl_quic_vlint_decode_unchecked_def decode_len_tags
    tag_low byte_take six_take glue Let_def
  from assms consider "n = 1" "unat v < 2 ^ 6" | "n = 2" "unat v < 2 ^ 14"
    | "n = 4" "unat v < 2 ^ 30" | "n = 8" "unat v < 2 ^ 62"
    by (auto simp: vlint_fits_def)
  then show ?thesis
    by cases (simp_all add: enc take_bit_small)
qed

lemma decode_encode_n:
  "n \<in> {1, 2, 4, 8} \<Longrightarrow> vlint_fits v n \<Longrightarrow>
   ossl_quic_vlint_decode (ossl_quic_vlint_encode_n v n @ rest) = Some (n, v)"
  using decode_len_encode_n [of n v] decode_unchecked_encode_n [of n v rest] length_encode_n [of n v]
  by (auto simp: ossl_quic_vlint_decode_def Let_def nth_append)

lemma vlint_fits_encode_len:
  "v \<le> OSSL_QUIC_VLINT_MAX \<Longrightarrow> vlint_fits v (ossl_quic_vlint_encode_len v)"
  by (auto simp: vlint_fits_def ossl_quic_vlint_encode_len_def vlint_consts u64_nat)

lemma encode_len_least:
  "n \<in> {1, 2, 4, 8} \<Longrightarrow> vlint_fits v n \<Longrightarrow>
   ossl_quic_vlint_encode_len v \<le> n \<and> v \<le> OSSL_QUIC_VLINT_MAX"
  by (auto simp: vlint_fits_def ossl_quic_vlint_encode_len_def vlint_consts u64_nat)

lemma decode_len_cases: "ossl_quic_vlint_decode_len b \<in> {1,2,4,8}"
proof -
  have "unat (drop_bit 6 (b AND 0xC0)) = (unat (b AND 0xC0)) div 64"
    by (simp add: drop_bit_eq_div unat_div)
  moreover have "unat (b AND 0xC0) < 256" using unsigned_less [of "b AND 0xC0", where 'a = nat] by simp
  ultimately have "unat (drop_bit 6 (b AND 0xC0)) < 4" by simp
  then have "unat (drop_bit 6 (b AND 0xC0)) \<in> {0,1,2,3}" by auto
  then show ?thesis by (auto simp: ossl_quic_vlint_decode_len_def push_bit_eq_mult)
qed

lemma decode_None_iff:
  "ossl_quic_vlint_decode buf = None \<longleftrightarrow> buf = [] \<or> length buf < ossl_quic_vlint_decode_len (hd buf)"
  by (cases buf) (auto simp: ossl_quic_vlint_decode_def ossl_quic_vlint_decode_unchecked_def Let_def)

lemma decode_len_bits:
  "ossl_quic_vlint_decode_len b = 1 \<longleftrightarrow> \<not> bit b 6 \<and> \<not> bit b 7"
  "ossl_quic_vlint_decode_len b = 2 \<longleftrightarrow> bit b 6 \<and> \<not> bit b 7"
  "ossl_quic_vlint_decode_len b = 4 \<longleftrightarrow> \<not> bit b 6 \<and> bit b 7"
  "ossl_quic_vlint_decode_len b = 8 \<longleftrightarrow> bit b 6 \<and> bit b 7"
proof -
  have d: "drop_bit 6 (b AND 0xC0) = (if bit b 6 then 1 else 0) + (if bit b 7 then 2 else 0)"
    by (auto intro!: bit_word_eqI simp: bit_simps vlint_bits less_2_cases_iff)
  show
  "ossl_quic_vlint_decode_len b = 1 \<longleftrightarrow> \<not> bit b 6 \<and> \<not> bit b 7"
  "ossl_quic_vlint_decode_len b = 2 \<longleftrightarrow> bit b 6 \<and> \<not> bit b 7"
  "ossl_quic_vlint_decode_len b = 4 \<longleftrightarrow> \<not> bit b 6 \<and> bit b 7"
  "ossl_quic_vlint_decode_len b = 8 \<longleftrightarrow> bit b 6 \<and> bit b 7"
    unfolding ossl_quic_vlint_decode_len_def d
    by (auto simp: push_bit_eq_mult)
qed

lemma hi_byte:
  "bit (b::u8) 6 \<Longrightarrow> \<not> bit b 7 \<Longrightarrow> ucast (0x40 OR (ucast (b AND 0x3F) :: u64)) = b"
  "\<not> bit (b::u8) 6 \<Longrightarrow> bit b 7 \<Longrightarrow> ucast (0x80 OR (ucast (b AND 0x3F) :: u64)) = b"
  "bit (b::u8) 6 \<Longrightarrow> bit b 7 \<Longrightarrow> ucast (0xC0 OR (ucast (b AND 0x3F) :: u64)) = b"
  "\<not> bit (b::u8) 6 \<Longrightarrow> \<not> bit b 7 \<Longrightarrow> b AND 0x3F = b"
proof -
  have c: "n < 8 \<Longrightarrow> n < 6 \<or> n = 6 \<or> n = 7" for n :: nat by auto
  show "bit (b::u8) 6 \<Longrightarrow> \<not> bit b 7 \<Longrightarrow> ucast (0x40 OR (ucast (b AND 0x3F) :: u64)) = b"
  "\<not> bit (b::u8) 6 \<Longrightarrow> bit b 7 \<Longrightarrow> ucast (0x80 OR (ucast (b AND 0x3F) :: u64)) = b"
  "bit (b::u8) 6 \<Longrightarrow> bit b 7 \<Longrightarrow> ucast (0xC0 OR (ucast (b AND 0x3F) :: u64)) = b"
  "\<not> bit (b::u8) 6 \<Longrightarrow> \<not> bit b 7 \<Longrightarrow> b AND 0x3F = b"
  by (auto intro!: bit_word_eqI simp: bit_simps vlint_bits dest: c)
qed

lemma not_bit_u8: "8 \<le> i \<Longrightarrow> \<not> bit (b :: u8) i"
  using bit_imp_le_length [of b i] by auto

lemma byte_of_8:
  fixes a b c d e f g h :: u8
  defines "v \<equiv> push_bit 56 (ucast (a AND 0x3F) :: u64) OR push_bit 48 (ucast b)
    OR push_bit 40 (ucast c) OR push_bit 32 (ucast d) OR push_bit 24 (ucast e)
    OR push_bit 16 (ucast f) OR push_bit 8 (ucast g) OR ucast h"
  shows "drop_bit 56 v AND 0x3F = ucast (a AND 0x3F)" "ucast (drop_bit 48 v) = b"
    "ucast (drop_bit 40 v) = c" "ucast (drop_bit 32 v) = d" "ucast (drop_bit 24 v) = e"
    "ucast (drop_bit 16 v) = f" "ucast (drop_bit 8 v) = g" "ucast v = h"
  unfolding v_def by (auto intro!: bit_word_eqI simp: bit_simps vlint_bits not_bit_u8)

lemma byte_of_4:
  fixes a b c d :: u8
  defines "v \<equiv> push_bit 24 (ucast (a AND 0x3F) :: u64) OR push_bit 16 (ucast b)
    OR push_bit 8 (ucast c) OR ucast d"
  shows "drop_bit 24 v AND 0x3F = ucast (a AND 0x3F)" "ucast (drop_bit 16 v) = b"
    "ucast (drop_bit 8 v) = c" "ucast v = d"
  unfolding v_def by (auto intro!: bit_word_eqI simp: bit_simps vlint_bits not_bit_u8)

lemma byte_of_2:
  fixes a b :: u8
  defines "v \<equiv> push_bit 8 (ucast (a AND 0x3F) :: u64) OR ucast b"
  shows "drop_bit 8 v AND 0x3F = ucast (a AND 0x3F)" "ucast v = b"
  unfolding v_def by (auto intro!: bit_word_eqI simp: bit_simps vlint_bits not_bit_u8)

lemma take_map_nth: "k \<le> length xs \<Longrightarrow> take k xs = map ((!) xs) [0..<k]"
  by (rule nth_equalityI) auto

lemma take_1_3_7:
  "1 \<le> length xs \<Longrightarrow> take 1 xs = [xs ! 0]"
  "3 \<le> length xs \<Longrightarrow> take 3 xs = [xs ! 0, xs ! 1, xs ! 2]"
  "7 \<le> length xs \<Longrightarrow> take 7 xs = [xs ! 0, xs ! 1, xs ! 2, xs ! 3, xs ! 4, xs ! 5, xs ! 6]"
  by (simp_all add: take_map_nth upt_rec numeral_eq_Suc)

lemma ucast_down_up: "ucast (ucast (b :: u8) :: u64) = b"
  by (rule bit_word_eqI) (simp add: bit_simps)

lemma encode_n_bytes:
  "ossl_quic_vlint_decode_len a = 1 \<Longrightarrow> ossl_quic_vlint_encode_n (ucast (a AND 0x3F)) 1 = [a]"
  "ossl_quic_vlint_decode_len a = 2 \<Longrightarrow>
   ossl_quic_vlint_encode_n (push_bit 8 (ucast (a AND 0x3F)) OR ucast b) 2 = [a, b]"
  "ossl_quic_vlint_decode_len a = 4 \<Longrightarrow>
   ossl_quic_vlint_encode_n (push_bit 24 (ucast (a AND 0x3F)) OR push_bit 16 (ucast b)
     OR push_bit 8 (ucast c) OR ucast d) 4 = [a, b, c, d]"
  "ossl_quic_vlint_decode_len a = 8 \<Longrightarrow>
   ossl_quic_vlint_encode_n (push_bit 56 (ucast (a AND 0x3F)) OR push_bit 48 (ucast b)
     OR push_bit 40 (ucast c) OR push_bit 32 (ucast d) OR push_bit 24 (ucast e)
     OR push_bit 16 (ucast f) OR push_bit 8 (ucast g) OR ucast h) 8 = [a, b, c, d, e, f, g, h]"
  unfolding ossl_quic_vlint_encode_n_def byte_of_2 byte_of_4 byte_of_8 decode_len_bits
  by (simp_all add: hi_byte ucast_down_up)

lemma encode_n_decode:
  assumes "ossl_quic_vlint_decode buf = Some (n, v)"
  shows "ossl_quic_vlint_encode_n v n = take n buf"
proof -
  from assms obtain b0 bs where buf: "buf = b0 # bs"
    by (cases buf) (auto simp: ossl_quic_vlint_decode_def)
  from assms buf have n: "ossl_quic_vlint_decode_len b0 = n" and len: "n \<le> length buf"
    and v: "ossl_quic_vlint_decode_unchecked buf = Some v"
    by (auto simp: ossl_quic_vlint_decode_def Let_def split: if_splits)
  from decode_len_cases [of b0] n consider "n = 1" | "n = 2" | "n = 4" | "n = 8" by auto
  then show ?thesis
    by cases (use n len v buf in \<open>auto simp: ossl_quic_vlint_decode_unchecked_def Let_def
      encode_n_bytes [simplified] take_1_3_7 [simplified] split: if_splits\<close>)
qed

lemma decode_bounds:
  assumes "ossl_quic_vlint_decode buf = Some (n, v)"
  shows "n \<le> length buf" "n \<in> {1, 2, 4, 8}"
  using assms decode_len_cases [of "buf ! 0"]
  by (auto simp: ossl_quic_vlint_decode_def Let_def split: if_splits)

lemma no_high_bits:
  assumes "\<And>i. k \<le> i \<Longrightarrow> \<not> bit (v :: u64) i"
  shows "unat v < 2 ^ k"
proof -
  have "take_bit k v = v"
    using assms by (intro bit_word_eqI) (metis bit_take_bit_iff not_less)
  then have "unat v = take_bit k (unat v)"
    by (metis unsigned_take_bit_eq)
  then show ?thesis
    by (metis take_bit_nat_less_exp)
qed

lemma decode_fits:
  assumes "ossl_quic_vlint_decode buf = Some (n, v)"
  shows "vlint_fits v n"
  unfolding vlint_fits_def
proof (rule no_high_bits)
  fix i :: nat
  assume "8 * n - 2 \<le> i"
  then show "\<not> bit v i"
    using assms decode_bounds(2) [OF assms]
    by (auto simp: ossl_quic_vlint_decode_def ossl_quic_vlint_decode_unchecked_def Let_def bit_simps
        vlint_bits not_bit_u8 split: if_splits list.splits)
qed

lemma encode_len_valid: "v \<le> OSSL_QUIC_VLINT_MAX \<Longrightarrow> ossl_quic_vlint_encode_len v \<in> {1, 2, 4, 8}"
  using encode_len_cases [of v] encode_len_0_iff [of v] by auto

lemma decode_value_bound:
  assumes "ossl_quic_vlint_decode buf = Some (n, v)"
  shows "v \<le> OSSL_QUIC_VLINT_MAX"
  using encode_len_least [OF decode_bounds(2) [OF assms] decode_fits [OF assms]] by simp

end
