(* ===== verification/Quic_Packet.thy ===== *)
theory Quic_Packet
  imports Quic_Vlint "HOL-Library.Monad_Syntax"
begin

text \<open>
  The byte-level reader and writer the wire format is built on: \<open>PACKET\<close>
  (\<open>include/internal/packet.h\<close>, \<open>packet_quic.h\<close>) and \<open>WPACKET\<close> (\<open>crypto/packet.c\<close>) over a static
  buffer, as the packet assembly of the QUIC stack uses it (no enclosing sub-packet, written front to
  back).

  A \<open>PACKET\<close> is the list of the bytes from \<open>curr\<close> on, so \<open>PACKET_remaining\<close> is its length. A getter
  gives the value with the advanced packet, \<open>None\<close> is the C return value 0. A writer gives the new
  state together with its C return value; a writer that fails keeps what it wrote before the failure.
\<close>

section \<open>Reading\<close>

type_synonym PACKET = "u8 list"

definition PACKET_remaining :: "PACKET \<Rightarrow> nat" where
  "PACKET_remaining pkt = length pkt"

definition packet_forward :: "PACKET \<Rightarrow> nat \<Rightarrow> PACKET" where
  "packet_forward pkt len = drop len pkt"

definition PACKET_buf_init :: "u8 list \<Rightarrow> nat \<Rightarrow> PACKET option" where
  "PACKET_buf_init buf len = (if len > unat (SIZE_MAX div 2) then None else Some (take len buf))"

definition PACKET_peek_1 :: "PACKET \<Rightarrow> u32 option" where
  "PACKET_peek_1 pkt = (if PACKET_remaining pkt = 0 then None else Some (ucast (pkt ! 0)))"

definition PACKET_get_1 :: "PACKET \<Rightarrow> (u32 \<times> PACKET) option" where
  "PACKET_get_1 pkt = do { data \<leftarrow> PACKET_peek_1 pkt; Some (data, packet_forward pkt 1) }"

definition PACKET_peek_net_2 :: "PACKET \<Rightarrow> u32 option" where
  "PACKET_peek_net_2 pkt =
     (if PACKET_remaining pkt < 2 then None
      else Some (push_bit 8 (ucast (pkt ! 0)) OR ucast (pkt ! 1)))"

definition PACKET_get_net_2 :: "PACKET \<Rightarrow> (u32 \<times> PACKET) option" where
  "PACKET_get_net_2 pkt = do { data \<leftarrow> PACKET_peek_net_2 pkt; Some (data, packet_forward pkt 2) }"

definition PACKET_peek_net_8 :: "PACKET \<Rightarrow> u64 option" where
  "PACKET_peek_net_8 pkt =
     (if PACKET_remaining pkt < 8 then None
      else Some (push_bit 56 (ucast (pkt ! 0)) OR push_bit 48 (ucast (pkt ! 1))
             OR push_bit 40 (ucast (pkt ! 2)) OR push_bit 32 (ucast (pkt ! 3))
             OR push_bit 24 (ucast (pkt ! 4)) OR push_bit 16 (ucast (pkt ! 5))
             OR push_bit 8 (ucast (pkt ! 6)) OR ucast (pkt ! 7)))"

definition PACKET_get_net_8 :: "PACKET \<Rightarrow> (u64 \<times> PACKET) option" where
  "PACKET_get_net_8 pkt = do { data \<leftarrow> PACKET_peek_net_8 pkt; Some (data, packet_forward pkt 8) }"

definition PACKET_peek_bytes :: "PACKET \<Rightarrow> nat \<Rightarrow> u8 list option" where
  "PACKET_peek_bytes pkt len = (if PACKET_remaining pkt < len then None else Some (take len pkt))"

definition PACKET_get_bytes :: "PACKET \<Rightarrow> nat \<Rightarrow> (u8 list \<times> PACKET) option" where
  "PACKET_get_bytes pkt len =
     do { data \<leftarrow> PACKET_peek_bytes pkt len; Some (data, packet_forward pkt len) }"

definition PACKET_peek_copy_bytes :: "PACKET \<Rightarrow> nat \<Rightarrow> u8 list option" where
  "PACKET_peek_copy_bytes pkt len = (if PACKET_remaining pkt < len then None else Some (take len pkt))"

definition PACKET_copy_bytes :: "PACKET \<Rightarrow> nat \<Rightarrow> (u8 list \<times> PACKET) option" where
  "PACKET_copy_bytes pkt len =
     do { data \<leftarrow> PACKET_peek_copy_bytes pkt len; Some (data, packet_forward pkt len) }"

definition PACKET_forward :: "PACKET \<Rightarrow> nat \<Rightarrow> PACKET option" where
  "PACKET_forward pkt len =
     (if PACKET_remaining pkt < len then None else Some (packet_forward pkt len))"

text \<open>Variable-length integers.\<close>

definition PACKET_get_quic_vlint :: "PACKET \<Rightarrow> (u64 \<times> PACKET) option" where
  "PACKET_get_quic_vlint pkt =
     (if PACKET_remaining pkt < 1 then None
      else let enclen = ossl_quic_vlint_decode_len (pkt ! 0)
           in if PACKET_remaining pkt < enclen then None
              else do { data \<leftarrow> ossl_quic_vlint_decode_unchecked pkt;
                        Some (data, packet_forward pkt enclen) })"

definition PACKET_peek_quic_vlint_ex :: "PACKET \<Rightarrow> (u64 \<times> bool) option" where
  "PACKET_peek_quic_vlint_ex pkt =
     (if PACKET_remaining pkt < 1 then None
      else let enclen = ossl_quic_vlint_decode_len (pkt ! 0)
           in if PACKET_remaining pkt < enclen then None
              else do { data \<leftarrow> ossl_quic_vlint_decode_unchecked pkt;
                        Some (data, enclen = ossl_quic_vlint_encode_len data) })"

definition PACKET_peek_quic_vlint :: "PACKET \<Rightarrow> u64 option" where
  "PACKET_peek_quic_vlint pkt = map_option fst (PACKET_peek_quic_vlint_ex pkt)"

definition PACKET_skip_quic_vlint :: "PACKET \<Rightarrow> PACKET option" where
  "PACKET_skip_quic_vlint pkt =
     (if PACKET_remaining pkt < 1 then None
      else let enclen = ossl_quic_vlint_decode_len (pkt ! 0)
           in if PACKET_remaining pkt < enclen then None else Some (packet_forward pkt enclen))"

text \<open>The sub-packet comes first in the result, then the advanced packet.\<close>

definition PACKET_get_quic_length_prefixed :: "PACKET \<Rightarrow> (PACKET \<times> PACKET) option" where
  "PACKET_get_quic_length_prefixed pkt =
     do { (len, tmp) \<leftarrow> PACKET_get_quic_vlint pkt;
          if len > SIZE_MAX then None else PACKET_get_bytes tmp (unat len) }"

section \<open>Writing\<close>

record WPACKET =
  staticbuf :: "u8 list"
  written :: nat
  maxsize :: nat

text \<open>A position in the buffer stands for the pointer \<open>WPACKET_get_curr\<close> gives.\<close>

definition WPACKET_get_curr :: "WPACKET \<Rightarrow> nat" where
  "WPACKET_get_curr pkt = written pkt"

definition WPACKET_init_static_len :: "u8 list \<Rightarrow> WPACKET option" where
  "WPACKET_init_static_len buf =
     (if length buf = 0 then None
      else Some \<lparr>staticbuf = buf, written = 0, maxsize = length buf\<rparr>)"

definition WPACKET_reserve_bytes :: "WPACKET \<Rightarrow> nat \<Rightarrow> nat option" where
  "WPACKET_reserve_bytes pkt len =
     (if len = 0 then None
      else if maxsize pkt - written pkt < len then None
      else Some (WPACKET_get_curr pkt))"

definition WPACKET_allocate_bytes :: "WPACKET \<Rightarrow> nat \<Rightarrow> WPACKET \<times> nat option" where
  "WPACKET_allocate_bytes pkt len =
     (case WPACKET_reserve_bytes pkt len of
        None \<Rightarrow> (pkt, None)
      | Some allocbytes \<Rightarrow> (pkt\<lparr>written := written pkt + len\<rparr>, Some allocbytes))"

text \<open>\<open>memcpy\<close> into the buffer at position \<open>p\<close>.\<close>

definition wp_store :: "WPACKET \<Rightarrow> nat \<Rightarrow> u8 list \<Rightarrow> WPACKET" where
  "wp_store pkt p bs =
     pkt\<lparr>staticbuf := take p (staticbuf pkt) @ bs @ drop (p + length bs) (staticbuf pkt)\<rparr>"

text \<open>The loop of \<open>put_value\<close> fills the field from its last byte on; what remains is the overflow.\<close>

fun put_value_loop :: "nat \<Rightarrow> u64 \<Rightarrow> u8 list \<Rightarrow> u8 list \<times> u64" where
  "put_value_loop 0 value acc = (acc, value)"
| "put_value_loop (Suc len) value acc =
     put_value_loop len (drop_bit 8 value) (ucast (value AND 0xff) # acc)"

definition put_value :: "WPACKET \<Rightarrow> nat \<Rightarrow> u64 \<Rightarrow> nat \<Rightarrow> WPACKET \<times> bool" where
  "put_value pkt data value len =
     (case put_value_loop len value [] of (bs, value') \<Rightarrow> (wp_store pkt data bs, \<not> value' > 0))"

definition WPACKET_put_bytes :: "u64 \<Rightarrow> nat \<Rightarrow> WPACKET \<Rightarrow> WPACKET \<times> bool" where
  "WPACKET_put_bytes val sz pkt =
     (if \<not> sz \<le> 8 then (pkt, False)
      else case WPACKET_allocate_bytes pkt sz of
        (pkt', None) \<Rightarrow> (pkt', False)
      | (pkt', Some data) \<Rightarrow> put_value pkt' data val sz)"

abbreviation WPACKET_put_bytes_u8 :: "u64 \<Rightarrow> WPACKET \<Rightarrow> WPACKET \<times> bool" where
  "WPACKET_put_bytes_u8 val \<equiv> WPACKET_put_bytes val 1"

abbreviation WPACKET_put_bytes_u32 :: "u64 \<Rightarrow> WPACKET \<Rightarrow> WPACKET \<times> bool" where
  "WPACKET_put_bytes_u32 val \<equiv> WPACKET_put_bytes val 4"

abbreviation WPACKET_put_bytes_u64 :: "u64 \<Rightarrow> WPACKET \<Rightarrow> WPACKET \<times> bool" where
  "WPACKET_put_bytes_u64 val \<equiv> WPACKET_put_bytes val 8"

definition WPACKET_memset :: "u8 \<Rightarrow> nat \<Rightarrow> WPACKET \<Rightarrow> WPACKET \<times> bool" where
  "WPACKET_memset ch len pkt =
     (if len = 0 then (pkt, True)
      else case WPACKET_allocate_bytes pkt len of
        (pkt', None) \<Rightarrow> (pkt', False)
      | (pkt', Some dest) \<Rightarrow> (wp_store pkt' dest (replicate len ch), True))"

definition WPACKET_memcpy :: "u8 list \<Rightarrow> nat \<Rightarrow> WPACKET \<Rightarrow> WPACKET \<times> bool" where
  "WPACKET_memcpy src len pkt =
     (if len = 0 then (pkt, True)
      else case WPACKET_allocate_bytes pkt len of
        (pkt', None) \<Rightarrow> (pkt', False)
      | (pkt', Some dest) \<Rightarrow> (wp_store pkt' dest (take len src), True))"

definition WPACKET_quic_write_vlint :: "u64 \<Rightarrow> WPACKET \<Rightarrow> WPACKET \<times> bool" where
  "WPACKET_quic_write_vlint v pkt =
     (let enclen = ossl_quic_vlint_encode_len v
      in if enclen = 0 then (pkt, False)
         else case WPACKET_allocate_bytes pkt enclen of
           (pkt', None) \<Rightarrow> (pkt', False)
         | (pkt', Some b) \<Rightarrow> (wp_store pkt' b (ossl_quic_vlint_encode v), True))"

text \<open>A chain \<open>if (!f1(pkt) || !f2(pkt) ...) return 0; return 1;\<close> of writers.\<close>

fun wp_all :: "(WPACKET \<Rightarrow> WPACKET \<times> bool) list \<Rightarrow> WPACKET \<Rightarrow> WPACKET \<times> bool" where
  "wp_all [] pkt = (pkt, True)"
| "wp_all (f # fs) pkt = (case f pkt of (pkt', ok) \<Rightarrow> if ok then wp_all fs pkt' else (pkt', False))"

section \<open>What a writer emits\<close>

definition wp_ok :: "WPACKET \<Rightarrow> bool" where
  "wp_ok pkt \<longleftrightarrow> written pkt \<le> maxsize pkt \<and> maxsize pkt \<le> length (staticbuf pkt)"

text \<open>The bytes written so far, and the state after writing \<open>bs\<close> more.\<close>

definition wp_out :: "WPACKET \<Rightarrow> u8 list" where
  "wp_out pkt = take (written pkt) (staticbuf pkt)"

definition wp_append :: "u8 list \<Rightarrow> WPACKET \<Rightarrow> WPACKET" where
  "wp_append bs pkt =
     (wp_store pkt (written pkt) bs)\<lparr>written := written pkt + length bs\<rparr>"

definition wp_room :: "WPACKET \<Rightarrow> nat" where
  "wp_room pkt = maxsize pkt - written pkt"

text \<open>
  \<open>wp_spec f (Some bs)\<close>: \<open>f\<close> appends exactly \<open>bs\<close> if there is room for all of it, and otherwise fails
  having written some prefix of it. \<open>wp_spec f None\<close>: \<open>f\<close> fails whatever the room is. In neither case
  does it write beyond the limit.
\<close>

definition wp_spec :: "(WPACKET \<Rightarrow> WPACKET \<times> bool) \<Rightarrow> u8 list option \<Rightarrow> bool" where
  "wp_spec f out \<longleftrightarrow> (\<forall>pkt. wp_ok pkt \<longrightarrow>
     (case out of
        Some bs \<Rightarrow>
          if length bs \<le> wp_room pkt then f pkt = (wp_append bs pkt, True)
          else \<exists>n. length (take n bs) \<le> wp_room pkt \<and> f pkt = (wp_append (take n bs) pkt, False)
      | None \<Rightarrow> \<exists>bs. length bs \<le> wp_room pkt \<and> f pkt = (wp_append bs pkt, False)))"

definition vl :: "u64 \<Rightarrow> u8 list option" where
  "vl v = (if v \<le> OSSL_QUIC_VLINT_MAX then Some (ossl_quic_vlint_encode v) else None)"

fun cat :: "u8 list option list \<Rightarrow> u8 list option" where
  "cat [] = Some []"
| "cat (x # xs) = (case x of None \<Rightarrow> None | Some a \<Rightarrow> map_option ((@) a) (cat xs))"

lemma vl_Some [simp]:
  "vl v = Some bs \<longleftrightarrow> v \<le> OSSL_QUIC_VLINT_MAX \<and> bs = ossl_quic_vlint_encode v"
  by (auto simp: vl_def)

lemma cat_Some [simp]:
  "cat (x # xs) = Some bs \<longleftrightarrow> (\<exists>a b. x = Some a \<and> cat xs = Some b \<and> bs = a @ b)"
  by (auto split: option.splits)

lemma cat_eq: "cat xs = (if None \<in> set xs then None else Some (concat (map the xs)))"
  by (induction xs) (auto split: option.splits)

lemma cat_cat: "cat (cat xs # ys) = cat (xs @ ys)"
  by (auto simp: cat_eq)

lemma cat_Nil_elt: "cat (xs @ Some [] # ys) = cat (xs @ ys)"
  by (auto simp: cat_eq)

declare cat.simps(2) [simp del]

lemma wp_append_Nil [simp]: "wp_append [] pkt = pkt"
  by (simp add: wp_append_def wp_store_def)

lemma wp_append_simps [simp]:
  "written (wp_append bs pkt) = written pkt + length bs"
  "maxsize (wp_append bs pkt) = maxsize pkt"
  "wp_room (wp_append bs pkt) = wp_room pkt - length bs"
  by (simp_all add: wp_append_def wp_store_def wp_room_def)

lemma wp_ok_append: "wp_ok pkt \<Longrightarrow> length bs \<le> wp_room pkt \<Longrightarrow> wp_ok (wp_append bs pkt)"
  by (auto simp: wp_ok_def wp_append_def wp_store_def wp_room_def)

lemma wp_out_append:
  "wp_ok pkt \<Longrightarrow> length bs \<le> wp_room pkt \<Longrightarrow> wp_out (wp_append bs pkt) = wp_out pkt @ bs"
  by (auto simp: wp_ok_def wp_append_def wp_store_def wp_room_def wp_out_def min_def)

lemma wp_append_append:
  assumes "wp_ok pkt" "length a + length b \<le> wp_room pkt"
  shows "wp_append b (wp_append a pkt) = wp_append (a @ b) pkt"
  using assms by (auto simp: wp_ok_def wp_append_def wp_store_def wp_room_def min_def ac_simps)

lemma allocate_bytes_eq:
  "wp_ok pkt \<Longrightarrow> WPACKET_allocate_bytes pkt len =
     (if len \<noteq> 0 \<and> len \<le> wp_room pkt then (pkt\<lparr>written := written pkt + len\<rparr>, Some (written pkt))
      else (pkt, None))"
  by (auto simp: WPACKET_allocate_bytes_def WPACKET_reserve_bytes_def WPACKET_get_curr_def wp_room_def)

lemma store_allocated:
  "wp_store (pkt\<lparr>written := written pkt + length bs\<rparr>) (written pkt) bs = wp_append bs pkt"
  by (simp add: wp_store_def wp_append_def)

text \<open>A writer that allocates the length of its output and then stores it meets its specification.\<close>

lemma wp_spec_single:
  assumes "\<And>pkt. wp_ok pkt \<Longrightarrow> length bs \<le> wp_room pkt \<Longrightarrow> f pkt = (wp_append bs pkt, True)"
    and "\<And>pkt. wp_ok pkt \<Longrightarrow> wp_room pkt < length bs \<Longrightarrow> f pkt = (pkt, False)"
  shows "wp_spec f (Some bs)"
  using assms by (auto simp: wp_spec_def not_le intro!: exI [of _ "0::nat"])

lemma length_vlint_encode [simp]:
  "v \<le> OSSL_QUIC_VLINT_MAX \<Longrightarrow> length (ossl_quic_vlint_encode v) = ossl_quic_vlint_encode_len v"
  by (rule length_encode)

lemma encode_len_pos: "v \<le> OSSL_QUIC_VLINT_MAX \<Longrightarrow> 0 < ossl_quic_vlint_encode_len v"
  using encode_len_0_iff [of v] by (cases "ossl_quic_vlint_encode_len v") auto

named_theorems wp_specs

lemma wp_spec_vlint [wp_specs]: "wp_spec (WPACKET_quic_write_vlint v) (vl v)"
proof (cases "v \<le> OSSL_QUIC_VLINT_MAX")
  case True
  with encode_len_pos [OF True] store_allocated [of _ "ossl_quic_vlint_encode v"]
  have "wp_spec (WPACKET_quic_write_vlint v) (Some (ossl_quic_vlint_encode v))"
    by (intro wp_spec_single) (auto simp: WPACKET_quic_write_vlint_def allocate_bytes_eq Let_def)
  with True show ?thesis by (simp add: vl_def)
next
  case False
  then show ?thesis
    using encode_len_0_iff [of v]
    by (auto simp: WPACKET_quic_write_vlint_def vl_def wp_spec_def not_le intro!: exI [of _ "[]"])
qed

lemma wp_spec_memcpy [wp_specs]:
  "len \<le> length src \<Longrightarrow> wp_spec (WPACKET_memcpy src len) (Some (take len src))"
  using store_allocated [of _ "take len src"]
  by (intro wp_spec_single) (auto simp: WPACKET_memcpy_def allocate_bytes_eq min_absorb2)

lemma wp_spec_memset [wp_specs]: "wp_spec (WPACKET_memset ch len) (Some (replicate len ch))"
  using store_allocated [of _ "replicate len ch"]
  by (intro wp_spec_single) (auto simp: WPACKET_memset_def allocate_bytes_eq)

text \<open>Big-endian fields of a fixed width.\<close>

lemma put_value_loop_length: "length (fst (put_value_loop n v acc)) = n + length acc"
  by (induction n v acc rule: put_value_loop.induct) auto

lemma put_value_loop_rest: "snd (put_value_loop n v acc) = drop_bit (8 * n) v"
  by (induction n v acc rule: put_value_loop.induct) (auto simp: add.commute)

lemma bit_255: "n < 8 \<Longrightarrow> bit (0xff :: int) n"
proof -
  have "(0xff :: int) = mask 8" by (simp add: mask_eq_exp_minus_1)
  then show "n < 8 \<Longrightarrow> bit (0xff :: int) n" by (simp only: bit_mask_iff) simp
qed

definition be_bytes :: "nat \<Rightarrow> u64 \<Rightarrow> u8 list" where
  "be_bytes n v = fst (put_value_loop n v [])"

lemma length_be_bytes [simp]: "length (be_bytes n v) = n"
  by (simp add: be_bytes_def put_value_loop_length)

lemma wp_spec_put_bytes [wp_specs]:
  assumes "n \<in> {1..8}" "unat v < 2 ^ (8 * n)"
  shows "wp_spec (WPACKET_put_bytes v n) (Some (be_bytes n v))"
proof -
  from assms have "snd (put_value_loop n v []) = 0"
    by (auto simp: put_value_loop_rest unsigned_drop_bit_eq take_bit_nat_eq_self drop_bit_nat_def
        intro!: u64_unat_inj)
  then have pv: "put_value pkt p v n = (wp_store pkt p (be_bytes n v), True)" for pkt p
    by (cases "put_value_loop n v []") (simp add: put_value_def be_bytes_def)
  show ?thesis
    using assms store_allocated [of _ "be_bytes n v"]
    by (intro wp_spec_single) (auto simp: WPACKET_put_bytes_def allocate_bytes_eq pv)
qed

lemma ucast_low_byte: "ucast (w AND 0xff :: u64) = (ucast w :: u8)"
  by (rule bit_word_eqI) (auto simp: bit_simps bit_255)

lemma be_bytes_1: "be_bytes 1 v = [ucast v]"
  by (simp add: be_bytes_def ucast_low_byte)

lemma be_bytes_8:
  "be_bytes 8 v = [ucast (drop_bit 56 v), ucast (drop_bit 48 v), ucast (drop_bit 40 v),
     ucast (drop_bit 32 v), ucast (drop_bit 24 v), ucast (drop_bit 16 v), ucast (drop_bit 8 v), ucast v]"
  by (simp add: be_bytes_def numeral_eq_Suc ucast_low_byte)

text \<open>Writers in sequence.\<close>

lemma wp_spec_Nil: "wp_spec (wp_all []) (Some [])"
  by (simp add: wp_spec_def)

declare wp_all.simps [simp del]

lemma wp_spec_fail: "wp_spec (\<lambda>pkt. (pkt, False)) None"
  by (auto simp: wp_spec_def intro!: exI [of _ "[]"])

lemma wp_specD_Some:
  assumes "wp_spec f (Some bs)" "wp_ok pkt"
  shows "length bs \<le> wp_room pkt \<Longrightarrow> f pkt = (wp_append bs pkt, True)"
    and "wp_room pkt < length bs \<Longrightarrow>
      \<exists>n. length (take n bs) \<le> wp_room pkt \<and> f pkt = (wp_append (take n bs) pkt, False)"
  using assms by (auto simp: wp_spec_def)

lemma wp_specD_None:
  assumes "wp_spec f None" "wp_ok pkt"
  shows "\<exists>bs. length bs \<le> wp_room pkt \<and> f pkt = (wp_append bs pkt, False)"
  using assms by (auto simp: wp_spec_def)

lemma wp_spec_Cons_Some:
  assumes f: "wp_spec f (Some a)" and g: "wp_spec (wp_all fs) (Some b)"
  shows "wp_spec (wp_all (f # fs)) (Some (a @ b))"
  unfolding wp_spec_def
proof (intro allI impI, simp only: option.case)
  fix pkt assume ok: "wp_ok pkt"
  show "if length (a @ b) \<le> wp_room pkt then wp_all (f # fs) pkt = (wp_append (a @ b) pkt, True)
    else \<exists>n. length (take n (a @ b)) \<le> wp_room pkt \<and>
      wp_all (f # fs) pkt = (wp_append (take n (a @ b)) pkt, False)"
  proof (cases "length a \<le> wp_room pkt")
    case True
    note fa = wp_specD_Some(1) [OF f ok True] and ok' = wp_ok_append [OF ok True]
    show ?thesis
    proof (cases "length b \<le> wp_room (wp_append a pkt)")
      case True
      then show ?thesis
        using fa wp_specD_Some(1) [OF g ok'] wp_append_append [OF ok, of a b]
          \<open>length a \<le> wp_room pkt\<close> by (auto simp: wp_all.simps)
    next
      case False
      then obtain n where n: "length (take n b) \<le> wp_room (wp_append a pkt)"
        "wp_all fs (wp_append a pkt) = (wp_append (take n b) (wp_append a pkt), False)"
        using wp_specD_Some(2) [OF g ok'] by auto
      have "wp_append (take n b) (wp_append a pkt) = wp_append (take (length a + n) (a @ b)) pkt"
        using n(1) \<open>length a \<le> wp_room pkt\<close> by (subst wp_append_append [OF ok]) auto
      moreover have "length (take (length a + n) (a @ b)) \<le> wp_room pkt"
        using n(1) \<open>length a \<le> wp_room pkt\<close> by auto
      ultimately show ?thesis
        using fa n(2) False \<open>length a \<le> wp_room pkt\<close> 
        by (auto simp: wp_all.simps intro!: exI [of _ "length a + n"])
    qed
  next
    case False
    then obtain n where n: "length (take n a) \<le> wp_room pkt" "f pkt = (wp_append (take n a) pkt, False)"
      using wp_specD_Some(2) [OF f ok] by auto
    then have "n < length a" using False by auto
    then have "take n (a @ b) = take n a" by simp
    with n False show ?thesis by (auto simp: wp_all.simps intro!: exI [of _ n])
  qed
qed

lemma wp_spec_Cons_None:
  assumes f: "wp_spec f a" and g: "wp_spec (wp_all fs) b" and "a = None \<or> b = None"
  shows "wp_spec (wp_all (f # fs)) None"
  unfolding wp_spec_def
proof (intro allI impI, simp only: option.case)
  fix pkt assume ok: "wp_ok pkt"
  show "\<exists>bs. length bs \<le> wp_room pkt \<and> wp_all (f # fs) pkt = (wp_append bs pkt, False)"
  proof (cases a)
    case None
    then show ?thesis using wp_specD_None [OF f [unfolded None] ok] by (auto simp: wp_all.simps)
  next
    case (Some x)
    with assms have g: "wp_spec (wp_all fs) None" and f: "wp_spec f (Some x)" by auto
    show ?thesis
    proof (cases "length x \<le> wp_room pkt")
      case True
      note fa = wp_specD_Some(1) [OF f ok True] and ok' = wp_ok_append [OF ok True]
      obtain bs where bs: "length bs \<le> wp_room (wp_append x pkt)"
        "wp_all fs (wp_append x pkt) = (wp_append bs (wp_append x pkt), False)"
        using wp_specD_None [OF g ok'] by blast
      then show ?thesis
        using fa True wp_append_append [OF ok, of x bs]
        by (auto simp: wp_all.simps intro!: exI [of _ "x @ bs"])
    next
      case False
      then obtain n where "length (take n x) \<le> wp_room pkt" "f pkt = (wp_append (take n x) pkt, False)"
        using wp_specD_Some(2) [OF f ok] by auto
      then show ?thesis by (intro exI [of _ "take n x"]) (simp add: wp_all.simps)
    qed
  qed
qed

lemma wp_spec_Cons:
  assumes "wp_spec f a" "wp_spec (wp_all fs) (cat xs)"
  shows "wp_spec (wp_all (f # fs)) (cat (a # xs))"
  using wp_spec_Cons_None [OF assms] wp_spec_Cons_Some [of f _ fs] assms
  by (cases a; cases "cat xs") (auto simp: cat.simps)

lemma wp_spec_all:
  "list_all2 wp_spec fs xs \<Longrightarrow> wp_spec (wp_all fs) (cat xs)"
proof (induction rule: list_all2_induct)
  case Nil
  show ?case using wp_spec_Nil by simp
next
  case (Cons f fs x xs)
  then show ?case by (intro wp_spec_Cons)
qed

section \<open>Reading back what was written\<close>

named_theorems packet_simps

lemma PACKET_get_quic_vlint_eq:
  "PACKET_get_quic_vlint pkt =
     map_option (\<lambda>(n, v). (v, drop n pkt)) (ossl_quic_vlint_decode pkt)"
  by (auto simp: PACKET_get_quic_vlint_def ossl_quic_vlint_decode_def PACKET_remaining_def
      packet_forward_def Let_def option.map_comp comp_def map_conv_bind_option)

lemma PACKET_get_quic_vlint_encode [packet_simps]:
  "v \<le> OSSL_QUIC_VLINT_MAX \<Longrightarrow>
   PACKET_get_quic_vlint (ossl_quic_vlint_encode v @ rest) = Some (v, rest)"
  using decode_encode_n [of "ossl_quic_vlint_encode_len v" v rest] encode_len_cases [of v]
    encode_len_pos [of v] vlint_fits_encode_len [of v] length_encode [of v]
  by (auto simp: PACKET_get_quic_vlint_eq ossl_quic_vlint_encode_def)

lemma PACKET_skip_quic_vlint_eq: "PACKET_skip_quic_vlint pkt = map_option snd (PACKET_get_quic_vlint pkt)"
proof (cases pkt)
  case (Cons b bs)
  then show ?thesis
    by (auto simp: PACKET_skip_quic_vlint_def PACKET_get_quic_vlint_def PACKET_remaining_def Let_def
        ossl_quic_vlint_decode_unchecked_def)
qed (simp add: PACKET_skip_quic_vlint_def PACKET_get_quic_vlint_def PACKET_remaining_def)

lemma PACKET_get_bytes_append [packet_simps]:
  "length bs = n \<Longrightarrow> PACKET_get_bytes (bs @ rest) n = Some (bs, rest)"
  by (simp add: PACKET_get_bytes_def PACKET_peek_bytes_def PACKET_remaining_def packet_forward_def)

lemma PACKET_copy_bytes_append [packet_simps]:
  "length bs = n \<Longrightarrow> PACKET_copy_bytes (bs @ rest) n = Some (bs, rest)"
  by (simp add: PACKET_copy_bytes_def PACKET_peek_copy_bytes_def PACKET_remaining_def packet_forward_def)

lemma PACKET_forward_append [packet_simps]:
  "length bs = n \<Longrightarrow> PACKET_forward (bs @ rest) n = Some rest"
  by (simp add: PACKET_forward_def PACKET_remaining_def packet_forward_def)

lemma PACKET_forward_all [packet_simps]: "length bs = n \<Longrightarrow> PACKET_forward bs n = Some []"
  by (simp add: PACKET_forward_def PACKET_remaining_def packet_forward_def)

lemma PACKET_get_1_Cons [packet_simps]: "PACKET_get_1 (b # rest) = Some (ucast b, rest)"
  by (simp add: PACKET_get_1_def PACKET_peek_1_def PACKET_remaining_def packet_forward_def)

lemma eight_bytes:
  fixes v :: u64
  shows "push_bit 56 (ucast (ucast (drop_bit 56 v) :: u8)) OR push_bit 48 (ucast (ucast (drop_bit 48 v) :: u8))
     OR push_bit 40 (ucast (ucast (drop_bit 40 v) :: u8)) OR push_bit 32 (ucast (ucast (drop_bit 32 v) :: u8))
     OR push_bit 24 (ucast (ucast (drop_bit 24 v) :: u8)) OR push_bit 16 (ucast (ucast (drop_bit 16 v) :: u8))
     OR push_bit 8 (ucast (ucast (drop_bit 8 v) :: u8)) OR ucast (ucast v :: u8) = v"
  using take_bit_glue [of 56 8 v] take_bit_small [of v 64] by (simp add: byte_take glue)

lemma PACKET_get_net_8_be [packet_simps]: "PACKET_get_net_8 (be_bytes 8 v @ rest) = Some (v, rest)"
  by (simp add: PACKET_get_net_8_def PACKET_peek_net_8_def PACKET_remaining_def packet_forward_def
      be_bytes_8 eight_bytes)

text \<open>The getters consume input: what remains is a proper suffix.\<close>

lemma PACKET_get_quic_vlint_Some:
  assumes "PACKET_get_quic_vlint pkt = Some (v, rest)"
  shows "v \<le> OSSL_QUIC_VLINT_MAX" "length rest < length pkt" "\<exists>n>0. rest = drop n pkt"
proof -
  from assms obtain n where n: "ossl_quic_vlint_decode pkt = Some (n, v)" "rest = drop n pkt"
    by (auto simp: PACKET_get_quic_vlint_eq)
  have b: "0 < n" "n \<le> length pkt" using decode_bounds [OF n(1)] by auto
  then show "length rest < length pkt" "\<exists>n>0. rest = drop n pkt" using n(2) by auto
  show "v \<le> OSSL_QUIC_VLINT_MAX" using decode_value_bound [OF n(1)] .
qed

text \<open>
  The contract of an encoder and its decoder: the encoder appends the bytes of the value when there
  is room, the decoder reads the value back from them and leaves what follows.
\<close>

locale codec =
  fixes enc :: "'a \<Rightarrow> WPACKET \<Rightarrow> WPACKET \<times> bool"
    and dec :: "PACKET \<Rightarrow> ('a \<times> PACKET) option"
    and bytes :: "'a \<Rightarrow> u8 list option"
    and fits :: "'a \<Rightarrow> u8 list \<Rightarrow> bool"
  assumes enc_spec: "fits x rest \<Longrightarrow> wp_spec (enc x) (bytes x)"
    and dec_bytes: "fits x rest \<Longrightarrow> bytes x = Some bs \<Longrightarrow> dec (bs @ rest) = Some (x, rest)"
begin

lemma enc_succeeds_iff:
  assumes "fits x rest" "wp_ok pkt"
  shows "snd (enc x pkt) \<longleftrightarrow> (\<exists>bs. bytes x = Some bs \<and> length bs \<le> wp_room pkt)"
proof (cases "bytes x")
  case None
  then show ?thesis
    using wp_specD_None [of "enc x" pkt] enc_spec [OF assms(1)] assms(2) by auto
next
  case (Some bs)
  then show ?thesis
    using wp_specD_Some [of "enc x" bs pkt] enc_spec [OF assms(1)] assms(2)
    by (cases "length bs \<le> wp_room pkt") auto
qed

lemma round_trip:
  assumes "fits x rest" "wp_ok pkt" "enc x pkt = (pkt', True)"
  shows "\<exists>bs. wp_out pkt' = wp_out pkt @ bs \<and> dec (bs @ rest) = Some (x, rest)"
proof -
  obtain bs where bs: "bytes x = Some bs" "length bs \<le> wp_room pkt"
    using enc_succeeds_iff [OF assms(1,2)] assms(3) by auto
  then have "pkt' = wp_append bs pkt"
    using wp_specD_Some(1) [of "enc x" bs pkt] enc_spec [OF assms(1)] assms(2,3) by auto
  then show ?thesis
    using wp_out_append [OF assms(2) bs(2)] dec_bytes [OF assms(1) bs(1)] by auto
qed

end

interpretation vlint: codec WPACKET_quic_write_vlint PACKET_get_quic_vlint vl "\<lambda>_ _. True"
  by unfold_locales (auto simp: wp_specs packet_simps)

interpretation net8: codec WPACKET_put_bytes_u64 PACKET_get_net_8 "\<lambda>v. Some (be_bytes 8 v)" "\<lambda>_ _. True"
  by unfold_locales (auto intro: wp_specs simp: packet_simps)

end
