(* ===== verification/Quic_Wire.thy ===== *)
theory Quic_Wire
  imports Quic_Packet Ackm_Tx
begin

text \<open>
  The QUIC frame and transport parameter codec of \<open>ssl/quic/quic_wire.c\<close>, with the frame structures of
  \<open>include/internal/quic_wire.h\<close>: one definition per encoder and decoder. A data pointer of a frame
  structure is the list of the bytes it points to, \<open>None\<close> the NULL pointer. A decoder that fails
  returns \<open>None\<close>; how far it had advanced the packet is not represented.
\<close>

section \<open>Frame types\<close>

definition OSSL_QUIC_FRAME_TYPE_PADDING :: u64 where "OSSL_QUIC_FRAME_TYPE_PADDING = 0x00"
definition OSSL_QUIC_FRAME_TYPE_PING :: u64 where "OSSL_QUIC_FRAME_TYPE_PING = 0x01"
definition OSSL_QUIC_FRAME_TYPE_ACK_WITHOUT_ECN :: u64 where "OSSL_QUIC_FRAME_TYPE_ACK_WITHOUT_ECN = 0x02"
definition OSSL_QUIC_FRAME_TYPE_ACK_WITH_ECN :: u64 where "OSSL_QUIC_FRAME_TYPE_ACK_WITH_ECN = 0x03"
definition OSSL_QUIC_FRAME_TYPE_RESET_STREAM :: u64 where "OSSL_QUIC_FRAME_TYPE_RESET_STREAM = 0x04"
definition OSSL_QUIC_FRAME_TYPE_STOP_SENDING :: u64 where "OSSL_QUIC_FRAME_TYPE_STOP_SENDING = 0x05"
definition OSSL_QUIC_FRAME_TYPE_CRYPTO :: u64 where "OSSL_QUIC_FRAME_TYPE_CRYPTO = 0x06"
definition OSSL_QUIC_FRAME_TYPE_NEW_TOKEN :: u64 where "OSSL_QUIC_FRAME_TYPE_NEW_TOKEN = 0x07"
definition OSSL_QUIC_FRAME_TYPE_STREAM :: u64 where "OSSL_QUIC_FRAME_TYPE_STREAM = 0x08"
definition OSSL_QUIC_FRAME_TYPE_MAX_DATA :: u64 where "OSSL_QUIC_FRAME_TYPE_MAX_DATA = 0x10"
definition OSSL_QUIC_FRAME_TYPE_MAX_STREAM_DATA :: u64 where "OSSL_QUIC_FRAME_TYPE_MAX_STREAM_DATA = 0x11"
definition OSSL_QUIC_FRAME_TYPE_MAX_STREAMS_BIDI :: u64 where "OSSL_QUIC_FRAME_TYPE_MAX_STREAMS_BIDI = 0x12"
definition OSSL_QUIC_FRAME_TYPE_MAX_STREAMS_UNI :: u64 where "OSSL_QUIC_FRAME_TYPE_MAX_STREAMS_UNI = 0x13"
definition OSSL_QUIC_FRAME_TYPE_DATA_BLOCKED :: u64 where "OSSL_QUIC_FRAME_TYPE_DATA_BLOCKED = 0x14"
definition OSSL_QUIC_FRAME_TYPE_STREAM_DATA_BLOCKED :: u64 where
  "OSSL_QUIC_FRAME_TYPE_STREAM_DATA_BLOCKED = 0x15"
definition OSSL_QUIC_FRAME_TYPE_STREAMS_BLOCKED_BIDI :: u64 where
  "OSSL_QUIC_FRAME_TYPE_STREAMS_BLOCKED_BIDI = 0x16"
definition OSSL_QUIC_FRAME_TYPE_STREAMS_BLOCKED_UNI :: u64 where
  "OSSL_QUIC_FRAME_TYPE_STREAMS_BLOCKED_UNI = 0x17"
definition OSSL_QUIC_FRAME_TYPE_NEW_CONN_ID :: u64 where "OSSL_QUIC_FRAME_TYPE_NEW_CONN_ID = 0x18"
definition OSSL_QUIC_FRAME_TYPE_RETIRE_CONN_ID :: u64 where "OSSL_QUIC_FRAME_TYPE_RETIRE_CONN_ID = 0x19"
definition OSSL_QUIC_FRAME_TYPE_PATH_CHALLENGE :: u64 where "OSSL_QUIC_FRAME_TYPE_PATH_CHALLENGE = 0x1A"
definition OSSL_QUIC_FRAME_TYPE_PATH_RESPONSE :: u64 where "OSSL_QUIC_FRAME_TYPE_PATH_RESPONSE = 0x1B"
definition OSSL_QUIC_FRAME_TYPE_CONN_CLOSE_TRANSPORT :: u64 where
  "OSSL_QUIC_FRAME_TYPE_CONN_CLOSE_TRANSPORT = 0x1C"
definition OSSL_QUIC_FRAME_TYPE_CONN_CLOSE_APP :: u64 where "OSSL_QUIC_FRAME_TYPE_CONN_CLOSE_APP = 0x1D"
definition OSSL_QUIC_FRAME_TYPE_HANDSHAKE_DONE :: u64 where "OSSL_QUIC_FRAME_TYPE_HANDSHAKE_DONE = 0x1E"

definition OSSL_QUIC_FRAME_FLAG_STREAM_FIN :: u64 where "OSSL_QUIC_FRAME_FLAG_STREAM_FIN = 0x01"
definition OSSL_QUIC_FRAME_FLAG_STREAM_LEN :: u64 where "OSSL_QUIC_FRAME_FLAG_STREAM_LEN = 0x02"
definition OSSL_QUIC_FRAME_FLAG_STREAM_OFF :: u64 where "OSSL_QUIC_FRAME_FLAG_STREAM_OFF = 0x04"
definition OSSL_QUIC_FRAME_FLAG_STREAM_MASK :: u64 where "OSSL_QUIC_FRAME_FLAG_STREAM_MASK = 0x07"

lemmas frame_types = OSSL_QUIC_FRAME_TYPE_PADDING_def OSSL_QUIC_FRAME_TYPE_PING_def
  OSSL_QUIC_FRAME_TYPE_ACK_WITHOUT_ECN_def OSSL_QUIC_FRAME_TYPE_ACK_WITH_ECN_def
  OSSL_QUIC_FRAME_TYPE_RESET_STREAM_def OSSL_QUIC_FRAME_TYPE_STOP_SENDING_def
  OSSL_QUIC_FRAME_TYPE_CRYPTO_def OSSL_QUIC_FRAME_TYPE_NEW_TOKEN_def OSSL_QUIC_FRAME_TYPE_STREAM_def
  OSSL_QUIC_FRAME_TYPE_MAX_DATA_def OSSL_QUIC_FRAME_TYPE_MAX_STREAM_DATA_def
  OSSL_QUIC_FRAME_TYPE_MAX_STREAMS_BIDI_def OSSL_QUIC_FRAME_TYPE_MAX_STREAMS_UNI_def
  OSSL_QUIC_FRAME_TYPE_DATA_BLOCKED_def OSSL_QUIC_FRAME_TYPE_STREAM_DATA_BLOCKED_def
  OSSL_QUIC_FRAME_TYPE_STREAMS_BLOCKED_BIDI_def OSSL_QUIC_FRAME_TYPE_STREAMS_BLOCKED_UNI_def
  OSSL_QUIC_FRAME_TYPE_NEW_CONN_ID_def OSSL_QUIC_FRAME_TYPE_RETIRE_CONN_ID_def
  OSSL_QUIC_FRAME_TYPE_PATH_CHALLENGE_def OSSL_QUIC_FRAME_TYPE_PATH_RESPONSE_def
  OSSL_QUIC_FRAME_TYPE_CONN_CLOSE_TRANSPORT_def OSSL_QUIC_FRAME_TYPE_CONN_CLOSE_APP_def
  OSSL_QUIC_FRAME_TYPE_HANDSHAKE_DONE_def OSSL_QUIC_FRAME_FLAG_STREAM_FIN_def
  OSSL_QUIC_FRAME_FLAG_STREAM_LEN_def OSSL_QUIC_FRAME_FLAG_STREAM_OFF_def
  OSSL_QUIC_FRAME_FLAG_STREAM_MASK_def

definition ossl_quic_frame_type_is_ack_eliciting :: "u64 \<Rightarrow> bool" where
  "ossl_quic_frame_type_is_ack_eliciting frame_type \<longleftrightarrow>
     frame_type \<notin> {OSSL_QUIC_FRAME_TYPE_PADDING, OSSL_QUIC_FRAME_TYPE_ACK_WITHOUT_ECN,
       OSSL_QUIC_FRAME_TYPE_ACK_WITH_ECN, OSSL_QUIC_FRAME_TYPE_CONN_CLOSE_TRANSPORT,
       OSSL_QUIC_FRAME_TYPE_CONN_CLOSE_APP}"

section \<open>Frame structures\<close>

definition QUIC_MAX_CONN_ID_LEN :: nat where
  "QUIC_MAX_CONN_ID_LEN = 20"

definition QUIC_STATELESS_RESET_TOKEN_LEN :: nat where
  "QUIC_STATELESS_RESET_TOKEN_LEN = 16"

record QUIC_CONN_ID =
  id_len :: u8
  cid_id :: "u8 list"

definition ossl_quic_conn_id_eq :: "QUIC_CONN_ID \<Rightarrow> QUIC_CONN_ID \<Rightarrow> bool" where
  "ossl_quic_conn_id_eq a b =
     (if id_len a \<noteq> id_len b \<or> unat (id_len a) > QUIC_MAX_CONN_ID_LEN then False
      else take (unat (id_len a)) (cid_id a) = take (unat (id_len a)) (cid_id b))"

record OSSL_QUIC_FRAME_STREAM =
  sf_stream_id :: u64
  sf_offset :: u64
  sf_len :: u64
  sf_data :: "u8 list option"
  sf_has_explicit_len :: bool
  sf_is_fin :: bool

record OSSL_QUIC_FRAME_CRYPTO =
  cf_offset :: u64
  cf_len :: u64
  cf_data :: "u8 list option"

record OSSL_QUIC_FRAME_RESET_STREAM =
  rs_stream_id :: u64
  rs_app_error_code :: u64
  rs_final_size :: u64

record OSSL_QUIC_FRAME_STOP_SENDING =
  ss_stream_id :: u64
  ss_app_error_code :: u64

record OSSL_QUIC_FRAME_NEW_CONN_ID =
  nc_seq_num :: u64
  nc_retire_prior_to :: u64
  nc_conn_id :: QUIC_CONN_ID
  nc_stateless_reset :: "u8 list"

record OSSL_QUIC_FRAME_CONN_CLOSE =
  cc_is_app :: bool
  cc_error_code :: u64
  cc_frame_type :: u64
  cc_reason :: "u8 list"
  cc_reason_len :: u64

definition ossl_quic_frame_ack_contains_pn :: "OSSL_QUIC_FRAME_ACK \<Rightarrow> QUIC_PN \<Rightarrow> bool" where
  "ossl_quic_frame_ack_contains_pn a pn = list_ex (\<lambda>r. pn \<ge> r_start r \<and> pn \<le> r_end r) (ack_ranges a)"

section \<open>Encoding\<close>

definition ossl_quic_wire_encode_padding :: "nat \<Rightarrow> WPACKET \<Rightarrow> WPACKET \<times> bool" where
  "ossl_quic_wire_encode_padding n_bytes = WPACKET_memset 0 n_bytes"

definition encode_frame_hdr :: "u64 \<Rightarrow> WPACKET \<Rightarrow> WPACKET \<times> bool" where
  "encode_frame_hdr frame_type = WPACKET_quic_write_vlint frame_type"

definition ossl_quic_wire_encode_frame_ping :: "WPACKET \<Rightarrow> WPACKET \<times> bool" where
  "ossl_quic_wire_encode_frame_ping = encode_frame_hdr OSSL_QUIC_FRAME_TYPE_PING"

text \<open>The loop over the ranges after the first; \<open>prev\<close> is the range before.\<close>

fun encode_ack_ranges :: "OSSL_QUIC_ACK_RANGE \<Rightarrow> OSSL_QUIC_ACK_RANGE list \<Rightarrow> WPACKET \<Rightarrow> WPACKET \<times> bool" where
  "encode_ack_ranges prev [] pkt = (pkt, True)"
| "encode_ack_ranges prev (r # rs) pkt =
     (let gap = r_start prev - r_end r - 2; range_len = r_end r - r_start r
      in wp_all [WPACKET_quic_write_vlint gap, WPACKET_quic_write_vlint range_len,
                 encode_ack_ranges r rs] pkt)"

definition ack_delay_enc :: "u32 \<Rightarrow> OSSL_TIME \<Rightarrow> u64" where
  "ack_delay_enc ack_delay_exponent delay =
     ossl_time_divide (ossl_time_divide delay OSSL_TIME_US) (push_bit (unat ack_delay_exponent) 1)"

definition ossl_quic_wire_encode_frame_ack :: "u32 \<Rightarrow> OSSL_QUIC_FRAME_ACK \<Rightarrow> WPACKET \<Rightarrow> WPACKET \<times> bool" where
  "ossl_quic_wire_encode_frame_ack ack_delay_exponent a pkt =
     (let frame_type = (if ecn_present a then OSSL_QUIC_FRAME_TYPE_ACK_WITH_ECN
                        else OSSL_QUIC_FRAME_TYPE_ACK_WITHOUT_ECN)
      in case ack_ranges a of
           [] \<Rightarrow> (pkt, False)
         | r # rs \<Rightarrow>
           wp_all ([encode_frame_hdr frame_type, WPACKET_quic_write_vlint (r_end r),
                    WPACKET_quic_write_vlint (ack_delay_enc ack_delay_exponent (delay_time a)),
                    WPACKET_quic_write_vlint (of_nat (length (ack_ranges a)) - 1),
                    WPACKET_quic_write_vlint (r_end r - r_start r),
                    encode_ack_ranges r rs] @
                   (if ecn_present a then
                      [WPACKET_quic_write_vlint (ect0 a), WPACKET_quic_write_vlint (ect1 a),
                       WPACKET_quic_write_vlint (ecnce a)]
                    else [])) pkt)"

definition ossl_quic_wire_encode_frame_reset_stream ::
  "OSSL_QUIC_FRAME_RESET_STREAM \<Rightarrow> WPACKET \<Rightarrow> WPACKET \<times> bool" where
  "ossl_quic_wire_encode_frame_reset_stream f =
     wp_all [encode_frame_hdr OSSL_QUIC_FRAME_TYPE_RESET_STREAM, WPACKET_quic_write_vlint (rs_stream_id f),
       WPACKET_quic_write_vlint (rs_app_error_code f), WPACKET_quic_write_vlint (rs_final_size f)]"

definition ossl_quic_wire_encode_frame_stop_sending ::
  "OSSL_QUIC_FRAME_STOP_SENDING \<Rightarrow> WPACKET \<Rightarrow> WPACKET \<times> bool" where
  "ossl_quic_wire_encode_frame_stop_sending f =
     wp_all [encode_frame_hdr OSSL_QUIC_FRAME_TYPE_STOP_SENDING, WPACKET_quic_write_vlint (ss_stream_id f),
       WPACKET_quic_write_vlint (ss_app_error_code f)]"

definition ossl_quic_wire_encode_frame_crypto_hdr ::
  "OSSL_QUIC_FRAME_CRYPTO \<Rightarrow> WPACKET \<Rightarrow> WPACKET \<times> bool" where
  "ossl_quic_wire_encode_frame_crypto_hdr f =
     wp_all [encode_frame_hdr OSSL_QUIC_FRAME_TYPE_CRYPTO, WPACKET_quic_write_vlint (cf_offset f),
       WPACKET_quic_write_vlint (cf_len f)]"

definition ossl_quic_wire_get_encoded_frame_len_crypto_hdr :: "OSSL_QUIC_FRAME_CRYPTO \<Rightarrow> nat" where
  "ossl_quic_wire_get_encoded_frame_len_crypto_hdr f =
     (let a = ossl_quic_vlint_encode_len OSSL_QUIC_FRAME_TYPE_CRYPTO;
          b = ossl_quic_vlint_encode_len (cf_offset f);
          c = ossl_quic_vlint_encode_len (cf_len f)
      in if a = 0 \<or> b = 0 \<or> c = 0 then 0 else a + b + c)"

text \<open>The payload encoders return the position of the payload, \<open>None\<close> for NULL.\<close>

definition ossl_quic_wire_encode_frame_crypto ::
  "OSSL_QUIC_FRAME_CRYPTO \<Rightarrow> WPACKET \<Rightarrow> WPACKET \<times> nat option" where
  "ossl_quic_wire_encode_frame_crypto f pkt =
     (case ossl_quic_wire_encode_frame_crypto_hdr f pkt of
        (pkt', False) \<Rightarrow> (pkt', None)
      | (pkt', True) \<Rightarrow>
        if cf_len f > SIZE_MAX then (pkt', None)
        else case WPACKET_allocate_bytes pkt' (unat (cf_len f)) of
          (pkt'', None) \<Rightarrow> (pkt'', None)
        | (pkt'', Some p) \<Rightarrow>
          (case cf_data f of
             None \<Rightarrow> (pkt'', Some p)
           | Some data \<Rightarrow> (wp_store pkt'' p (take (unat (cf_len f)) data), Some p)))"

definition ossl_quic_wire_encode_frame_new_token ::
  "u8 list \<Rightarrow> u64 \<Rightarrow> WPACKET \<Rightarrow> WPACKET \<times> bool" where
  "ossl_quic_wire_encode_frame_new_token token token_len =
     wp_all [encode_frame_hdr OSSL_QUIC_FRAME_TYPE_NEW_TOKEN, WPACKET_quic_write_vlint token_len,
       WPACKET_memcpy token (unat token_len)]"

definition stream_frame_type :: "OSSL_QUIC_FRAME_STREAM \<Rightarrow> u64" where
  "stream_frame_type f =
     (let ft = OSSL_QUIC_FRAME_TYPE_STREAM;
          ft = (if sf_offset f \<noteq> 0 then ft OR OSSL_QUIC_FRAME_FLAG_STREAM_OFF else ft);
          ft = (if sf_has_explicit_len f then ft OR OSSL_QUIC_FRAME_FLAG_STREAM_LEN else ft)
      in if sf_is_fin f then ft OR OSSL_QUIC_FRAME_FLAG_STREAM_FIN else ft)"

definition ossl_quic_wire_encode_frame_stream_hdr ::
  "OSSL_QUIC_FRAME_STREAM \<Rightarrow> WPACKET \<Rightarrow> WPACKET \<times> bool" where
  "ossl_quic_wire_encode_frame_stream_hdr f =
     wp_all ([encode_frame_hdr (stream_frame_type f), WPACKET_quic_write_vlint (sf_stream_id f)] @
       (if sf_offset f \<noteq> 0 then [WPACKET_quic_write_vlint (sf_offset f)] else []) @
       (if sf_has_explicit_len f then [WPACKET_quic_write_vlint (sf_len f)] else []))"

definition ossl_quic_wire_get_encoded_frame_len_stream_hdr :: "OSSL_QUIC_FRAME_STREAM \<Rightarrow> nat" where
  "ossl_quic_wire_get_encoded_frame_len_stream_hdr f =
     (let a = ossl_quic_vlint_encode_len OSSL_QUIC_FRAME_TYPE_STREAM;
          b = ossl_quic_vlint_encode_len (sf_stream_id f)
      in if a = 0 \<or> b = 0 then 0
         else let c = (if sf_offset f > 0 then ossl_quic_vlint_encode_len (sf_offset f) else 0)
              in if sf_offset f > 0 \<and> c = 0 then 0
                 else let d = (if sf_has_explicit_len f then ossl_quic_vlint_encode_len (sf_len f) else 0)
                      in if sf_has_explicit_len f \<and> d = 0 then 0 else a + b + c + d)"

definition ossl_quic_wire_encode_frame_stream ::
  "OSSL_QUIC_FRAME_STREAM \<Rightarrow> WPACKET \<Rightarrow> WPACKET \<times> nat option" where
  "ossl_quic_wire_encode_frame_stream f pkt =
     (case ossl_quic_wire_encode_frame_stream_hdr f pkt of
        (pkt', False) \<Rightarrow> (pkt', None)
      | (pkt', True) \<Rightarrow>
        if sf_len f > SIZE_MAX then (pkt', None)
        else case WPACKET_allocate_bytes pkt' (unat (sf_len f)) of
          (pkt'', None) \<Rightarrow> (pkt'', None)
        | (pkt'', Some p) \<Rightarrow>
          (case sf_data f of
             None \<Rightarrow> (pkt'', Some p)
           | Some data \<Rightarrow> (wp_store pkt'' p (take (unat (sf_len f)) data), Some p)))"

definition ossl_quic_wire_encode_frame_max_data :: "u64 \<Rightarrow> WPACKET \<Rightarrow> WPACKET \<times> bool" where
  "ossl_quic_wire_encode_frame_max_data max_data =
     wp_all [encode_frame_hdr OSSL_QUIC_FRAME_TYPE_MAX_DATA, WPACKET_quic_write_vlint max_data]"

definition ossl_quic_wire_encode_frame_max_stream_data ::
  "u64 \<Rightarrow> u64 \<Rightarrow> WPACKET \<Rightarrow> WPACKET \<times> bool" where
  "ossl_quic_wire_encode_frame_max_stream_data stream_id max_data =
     wp_all [encode_frame_hdr OSSL_QUIC_FRAME_TYPE_MAX_STREAM_DATA, WPACKET_quic_write_vlint stream_id,
       WPACKET_quic_write_vlint max_data]"

definition ossl_quic_wire_encode_frame_max_streams ::
  "bool \<Rightarrow> u64 \<Rightarrow> WPACKET \<Rightarrow> WPACKET \<times> bool" where
  "ossl_quic_wire_encode_frame_max_streams is_uni max_streams =
     wp_all [encode_frame_hdr (if is_uni then OSSL_QUIC_FRAME_TYPE_MAX_STREAMS_UNI
                               else OSSL_QUIC_FRAME_TYPE_MAX_STREAMS_BIDI),
       WPACKET_quic_write_vlint max_streams]"

definition ossl_quic_wire_encode_frame_data_blocked :: "u64 \<Rightarrow> WPACKET \<Rightarrow> WPACKET \<times> bool" where
  "ossl_quic_wire_encode_frame_data_blocked max_data =
     wp_all [encode_frame_hdr OSSL_QUIC_FRAME_TYPE_DATA_BLOCKED, WPACKET_quic_write_vlint max_data]"

definition ossl_quic_wire_encode_frame_stream_data_blocked ::
  "u64 \<Rightarrow> u64 \<Rightarrow> WPACKET \<Rightarrow> WPACKET \<times> bool" where
  "ossl_quic_wire_encode_frame_stream_data_blocked stream_id max_stream_data =
     wp_all [encode_frame_hdr OSSL_QUIC_FRAME_TYPE_STREAM_DATA_BLOCKED,
       WPACKET_quic_write_vlint stream_id, WPACKET_quic_write_vlint max_stream_data]"

definition ossl_quic_wire_encode_frame_streams_blocked ::
  "bool \<Rightarrow> u64 \<Rightarrow> WPACKET \<Rightarrow> WPACKET \<times> bool" where
  "ossl_quic_wire_encode_frame_streams_blocked is_uni max_streams =
     wp_all [encode_frame_hdr (if is_uni then OSSL_QUIC_FRAME_TYPE_STREAMS_BLOCKED_UNI
                               else OSSL_QUIC_FRAME_TYPE_STREAMS_BLOCKED_BIDI),
       WPACKET_quic_write_vlint max_streams]"

definition ossl_quic_wire_encode_frame_new_conn_id ::
  "OSSL_QUIC_FRAME_NEW_CONN_ID \<Rightarrow> WPACKET \<Rightarrow> WPACKET \<times> bool" where
  "ossl_quic_wire_encode_frame_new_conn_id f pkt =
     (if unat (id_len (nc_conn_id f)) < 1 \<or> unat (id_len (nc_conn_id f)) > QUIC_MAX_CONN_ID_LEN
      then (pkt, False)
      else wp_all [encode_frame_hdr OSSL_QUIC_FRAME_TYPE_NEW_CONN_ID,
             WPACKET_quic_write_vlint (nc_seq_num f), WPACKET_quic_write_vlint (nc_retire_prior_to f),
             WPACKET_put_bytes_u8 (ucast (id_len (nc_conn_id f))),
             WPACKET_memcpy (cid_id (nc_conn_id f)) (unat (id_len (nc_conn_id f))),
             WPACKET_memcpy (nc_stateless_reset f) QUIC_STATELESS_RESET_TOKEN_LEN] pkt)"

definition ossl_quic_wire_encode_frame_retire_conn_id :: "u64 \<Rightarrow> WPACKET \<Rightarrow> WPACKET \<times> bool" where
  "ossl_quic_wire_encode_frame_retire_conn_id seq_num =
     wp_all [encode_frame_hdr OSSL_QUIC_FRAME_TYPE_RETIRE_CONN_ID, WPACKET_quic_write_vlint seq_num]"

definition ossl_quic_wire_encode_frame_path_challenge :: "u64 \<Rightarrow> WPACKET \<Rightarrow> WPACKET \<times> bool" where
  "ossl_quic_wire_encode_frame_path_challenge data =
     wp_all [encode_frame_hdr OSSL_QUIC_FRAME_TYPE_PATH_CHALLENGE, WPACKET_put_bytes_u64 data]"

definition ossl_quic_wire_encode_frame_path_response :: "u64 \<Rightarrow> WPACKET \<Rightarrow> WPACKET \<times> bool" where
  "ossl_quic_wire_encode_frame_path_response data =
     wp_all [encode_frame_hdr OSSL_QUIC_FRAME_TYPE_PATH_RESPONSE, WPACKET_put_bytes_u64 data]"

definition ossl_quic_wire_encode_frame_conn_close ::
  "OSSL_QUIC_FRAME_CONN_CLOSE \<Rightarrow> WPACKET \<Rightarrow> WPACKET \<times> bool" where
  "ossl_quic_wire_encode_frame_conn_close f =
     wp_all ([encode_frame_hdr (if cc_is_app f then OSSL_QUIC_FRAME_TYPE_CONN_CLOSE_APP
                                else OSSL_QUIC_FRAME_TYPE_CONN_CLOSE_TRANSPORT),
              WPACKET_quic_write_vlint (cc_error_code f)] @
       (if \<not> cc_is_app f then [WPACKET_quic_write_vlint (cc_frame_type f)] else []) @
       [WPACKET_quic_write_vlint (cc_reason_len f),
        WPACKET_memcpy (cc_reason f) (unat (cc_reason_len f))])"

definition ossl_quic_wire_encode_frame_handshake_done :: "WPACKET \<Rightarrow> WPACKET \<times> bool" where
  "ossl_quic_wire_encode_frame_handshake_done = encode_frame_hdr OSSL_QUIC_FRAME_TYPE_HANDSHAKE_DONE"

definition ossl_quic_wire_encode_transport_param_bytes ::
  "u64 \<Rightarrow> u8 list option \<Rightarrow> u64 \<Rightarrow> WPACKET \<Rightarrow> WPACKET \<times> nat option" where
  "ossl_quic_wire_encode_transport_param_bytes param_id val value_len pkt =
     (case wp_all [WPACKET_quic_write_vlint param_id, WPACKET_quic_write_vlint value_len] pkt of
        (pkt', False) \<Rightarrow> (pkt', None)
      | (pkt', True) \<Rightarrow>
        (case (if value_len = 0 then (pkt', Some (WPACKET_get_curr pkt'))
               else WPACKET_allocate_bytes pkt' (unat value_len)) of
           (pkt'', None) \<Rightarrow> (pkt'', None)
         | (pkt'', Some b) \<Rightarrow>
           (case val of
              None \<Rightarrow> (pkt'', Some b)
            | Some v \<Rightarrow> (wp_store pkt'' b (take (unat value_len) v), Some b))))"

definition ossl_quic_wire_encode_transport_param_int ::
  "u64 \<Rightarrow> u64 \<Rightarrow> WPACKET \<Rightarrow> WPACKET \<times> bool" where
  "ossl_quic_wire_encode_transport_param_int param_id val =
     wp_all [WPACKET_quic_write_vlint param_id,
       WPACKET_quic_write_vlint (of_nat (ossl_quic_vlint_encode_len val)), WPACKET_quic_write_vlint val]"

definition ossl_quic_wire_encode_transport_param_cid ::
  "u64 \<Rightarrow> QUIC_CONN_ID \<Rightarrow> WPACKET \<Rightarrow> WPACKET \<times> bool" where
  "ossl_quic_wire_encode_transport_param_cid param_id cid wpkt =
     (if unat (id_len cid) > QUIC_MAX_CONN_ID_LEN then (wpkt, False)
      else case ossl_quic_wire_encode_transport_param_bytes param_id (Some (cid_id cid)) (ucast (id_len cid)) wpkt of
        (wpkt', None) \<Rightarrow> (wpkt', False)
      | (wpkt', Some _) \<Rightarrow> (wpkt', True))"

section \<open>Decoding\<close>

definition ossl_quic_wire_peek_frame_header :: "PACKET \<Rightarrow> (u64 \<times> bool) option" where
  "ossl_quic_wire_peek_frame_header pkt = PACKET_peek_quic_vlint_ex pkt"

definition ossl_quic_wire_skip_frame_header :: "PACKET \<Rightarrow> (u64 \<times> PACKET) option" where
  "ossl_quic_wire_skip_frame_header pkt = PACKET_get_quic_vlint pkt"

definition expect_frame_header_mask :: "PACKET \<Rightarrow> u64 \<Rightarrow> u64 \<Rightarrow> (u64 \<times> PACKET) option" where
  "expect_frame_header_mask pkt expected_frame_type mask_bits =
     do { (actual_frame_type, pkt) \<leftarrow> ossl_quic_wire_skip_frame_header pkt;
          if (actual_frame_type AND NOT mask_bits) \<noteq> expected_frame_type then None
          else Some (actual_frame_type, pkt) }"

definition expect_frame_header :: "PACKET \<Rightarrow> u64 \<Rightarrow> PACKET option" where
  "expect_frame_header pkt expected_frame_type =
     do { (actual_frame_type, pkt) \<leftarrow> ossl_quic_wire_skip_frame_header pkt;
          if actual_frame_type \<noteq> expected_frame_type then None else Some pkt }"

fun skip_ack_ranges :: "nat \<Rightarrow> PACKET \<Rightarrow> PACKET option" where
  "skip_ack_ranges 0 pkt = Some pkt"
| "skip_ack_ranges (Suc n) pkt =
     do { pkt \<leftarrow> PACKET_skip_quic_vlint pkt; pkt \<leftarrow> PACKET_skip_quic_vlint pkt; skip_ack_ranges n pkt }"

definition ossl_quic_wire_peek_frame_ack_num_ranges :: "PACKET \<Rightarrow> u64 option" where
  "ossl_quic_wire_peek_frame_ack_num_ranges orig_pkt =
     do { (_, pkt) \<leftarrow> expect_frame_header_mask orig_pkt OSSL_QUIC_FRAME_TYPE_ACK_WITHOUT_ECN 1;
          pkt \<leftarrow> PACKET_skip_quic_vlint pkt;
          pkt \<leftarrow> PACKET_skip_quic_vlint pkt;
          (ack_range_count, pkt) \<leftarrow> PACKET_get_quic_vlint pkt;
          _ \<leftarrow> skip_ack_ranges (unat ack_range_count) pkt;
          Some (ack_range_count + 1) }"

text \<open>
  The loop over the ranges after the first. The array \<open>ack->ack_ranges\<close> is a list of
  \<open>num_ack_ranges\<close> entries, \<open>None\<close> when \<open>ack\<close> is NULL; \<open>n\<close> iterations remain after the first \<open>i\<close>.
\<close>

fun decode_ack_ranges :: "nat \<Rightarrow> nat \<Rightarrow> u64 \<Rightarrow> OSSL_QUIC_ACK_RANGE list option \<Rightarrow> PACKET \<Rightarrow>
    (OSSL_QUIC_ACK_RANGE list option \<times> PACKET) option" where
  "decode_ack_ranges 0 i start rs pkt = Some (rs, pkt)"
| "decode_ack_ranges (Suc n) i start rs pkt =
     do { (gap, pkt) \<leftarrow> PACKET_get_quic_vlint pkt;
          (len, pkt) \<leftarrow> PACKET_get_quic_vlint pkt;
          let e = start - gap - 2;
          if start < gap + 2 \<or> len > e then None
          else case rs of
            None \<Rightarrow> decode_ack_ranges n (i + 1) start None pkt
          | Some rs' \<Rightarrow>
            if i + 1 < length rs' then
              decode_ack_ranges n (i + 1) (e - len)
                (Some (rs'[i + 1 := \<lparr>r_start = e - len, r_end = e\<rparr>])) pkt
            else decode_ack_ranges n (i + 1) start rs pkt }"

definition ack_delay_dec :: "u32 \<Rightarrow> u64 \<Rightarrow> OSSL_TIME" where
  "ack_delay_dec ack_delay_exponent ack_delay_raw =
     (case safe_mul_u64 ack_delay_raw (push_bit (unat ack_delay_exponent) 1) of (m, err) \<Rightarrow>
        if err then ossl_time_infinite else ossl_time_multiply OSSL_TIME_US m)"

text \<open>
  The result is the filled-in structure (\<open>None\<close> if \<open>ack\<close> is NULL), the value of \<open>*total_ranges\<close> and
  the advanced packet. \<open>num_ack_ranges\<close> is the length of the list of ranges.
\<close>

definition ossl_quic_wire_decode_frame_ack ::
  "PACKET \<Rightarrow> u32 \<Rightarrow> OSSL_QUIC_FRAME_ACK option \<Rightarrow>
     (OSSL_QUIC_FRAME_ACK option \<times> u64 \<times> PACKET) option" where
  "ossl_quic_wire_decode_frame_ack pkt ack_delay_exponent a =
     do { (frame_type, pkt) \<leftarrow> expect_frame_header_mask pkt OSSL_QUIC_FRAME_TYPE_ACK_WITHOUT_ECN 1;
          (largest_ackd, pkt) \<leftarrow> PACKET_get_quic_vlint pkt;
          (ack_delay_raw, pkt) \<leftarrow> PACKET_get_quic_vlint pkt;
          (ack_range_count, pkt) \<leftarrow> PACKET_get_quic_vlint pkt;
          (first_ack_range, pkt) \<leftarrow> PACKET_get_quic_vlint pkt;
          if first_ack_range > largest_ackd then None
          else if ack_range_count > SIZE_MAX then None
          else do {
            let start = largest_ackd - first_ack_range;
            let a1 = map_option (\<lambda>a. a\<lparr>delay_time := ack_delay_dec ack_delay_exponent ack_delay_raw,
                       ack_ranges := (case ack_ranges a of [] \<Rightarrow> []
                         | _ # rs \<Rightarrow> \<lparr>r_start = start, r_end = largest_ackd\<rparr> # rs)\<rparr>) a;
            (rs, pkt) \<leftarrow> decode_ack_ranges (unat ack_range_count) 0 start (map_option ack_ranges a1) pkt;
            let rs' = map_option (\<lambda>rs. if unat ack_range_count + 1 < length rs
                       then take (unat ack_range_count + 1) rs else rs) rs;
            let a2 = map_option (\<lambda>a. a\<lparr>ack_ranges := the rs'\<rparr>) a1;
            if frame_type = OSSL_QUIC_FRAME_TYPE_ACK_WITH_ECN then
              do { (e0, pkt) \<leftarrow> PACKET_get_quic_vlint pkt;
                   (e1, pkt) \<leftarrow> PACKET_get_quic_vlint pkt;
                   (ce, pkt) \<leftarrow> PACKET_get_quic_vlint pkt;
                   Some (map_option (\<lambda>a. a\<lparr>ect0 := e0, ect1 := e1, ecnce := ce, ecn_present := True\<rparr>) a2,
                         ack_range_count + 1, pkt) }
            else Some (map_option (\<lambda>a. a\<lparr>ecn_present := False\<rparr>) a2, ack_range_count + 1, pkt) } }"

definition ossl_quic_wire_decode_frame_reset_stream ::
  "PACKET \<Rightarrow> (OSSL_QUIC_FRAME_RESET_STREAM \<times> PACKET) option" where
  "ossl_quic_wire_decode_frame_reset_stream pkt =
     do { pkt \<leftarrow> expect_frame_header pkt OSSL_QUIC_FRAME_TYPE_RESET_STREAM;
          (stream_id, pkt) \<leftarrow> PACKET_get_quic_vlint pkt;
          (app_error_code, pkt) \<leftarrow> PACKET_get_quic_vlint pkt;
          (final_size, pkt) \<leftarrow> PACKET_get_quic_vlint pkt;
          Some (\<lparr>rs_stream_id = stream_id, rs_app_error_code = app_error_code,
                 rs_final_size = final_size\<rparr>, pkt) }"

definition ossl_quic_wire_decode_frame_stop_sending ::
  "PACKET \<Rightarrow> (OSSL_QUIC_FRAME_STOP_SENDING \<times> PACKET) option" where
  "ossl_quic_wire_decode_frame_stop_sending pkt =
     do { pkt \<leftarrow> expect_frame_header pkt OSSL_QUIC_FRAME_TYPE_STOP_SENDING;
          (stream_id, pkt) \<leftarrow> PACKET_get_quic_vlint pkt;
          (app_error_code, pkt) \<leftarrow> PACKET_get_quic_vlint pkt;
          Some (\<lparr>ss_stream_id = stream_id, ss_app_error_code = app_error_code\<rparr>, pkt) }"

definition ossl_quic_wire_decode_frame_crypto ::
  "PACKET \<Rightarrow> bool \<Rightarrow> (OSSL_QUIC_FRAME_CRYPTO \<times> PACKET) option" where
  "ossl_quic_wire_decode_frame_crypto pkt nodata =
     do { pkt \<leftarrow> expect_frame_header pkt OSSL_QUIC_FRAME_TYPE_CRYPTO;
          (offs, pkt) \<leftarrow> PACKET_get_quic_vlint pkt;
          (len, pkt) \<leftarrow> PACKET_get_quic_vlint pkt;
          if len > SIZE_MAX then None
          else if offs + len > push_bit 62 1 - 1 then None
          else if nodata then Some (\<lparr>cf_offset = offs, cf_len = len, cf_data = None\<rparr>, pkt)
          else if PACKET_remaining pkt < unat len then None
          else do { pkt' \<leftarrow> PACKET_forward pkt (unat len);
                    Some (\<lparr>cf_offset = offs, cf_len = len, cf_data = Some (take (unat len) pkt)\<rparr>, pkt') } }"

definition ossl_quic_wire_decode_frame_new_token :: "PACKET \<Rightarrow> ((u8 list \<times> u64) \<times> PACKET) option" where
  "ossl_quic_wire_decode_frame_new_token pkt =
     do { pkt \<leftarrow> expect_frame_header pkt OSSL_QUIC_FRAME_TYPE_NEW_TOKEN;
          (token_len, pkt) \<leftarrow> PACKET_get_quic_vlint pkt;
          if token_len > SIZE_MAX then None
          else do { pkt' \<leftarrow> PACKET_forward pkt (unat token_len);
                    Some ((take (unat token_len) pkt, token_len), pkt') } }"

definition ossl_quic_wire_decode_frame_stream ::
  "PACKET \<Rightarrow> bool \<Rightarrow> (OSSL_QUIC_FRAME_STREAM \<times> PACKET) option" where
  "ossl_quic_wire_decode_frame_stream pkt nodata =
     do { (frame_type, pkt) \<leftarrow> expect_frame_header_mask pkt OSSL_QUIC_FRAME_TYPE_STREAM
                                 OSSL_QUIC_FRAME_FLAG_STREAM_MASK;
          (stream_id, pkt) \<leftarrow> PACKET_get_quic_vlint pkt;
          (offs, pkt) \<leftarrow> (if (frame_type AND OSSL_QUIC_FRAME_FLAG_STREAM_OFF) \<noteq> 0
                            then PACKET_get_quic_vlint pkt else Some (0, pkt));
          let has_explicit_len = ((frame_type AND OSSL_QUIC_FRAME_FLAG_STREAM_LEN) \<noteq> 0);
          let is_fin = ((frame_type AND OSSL_QUIC_FRAME_FLAG_STREAM_FIN) \<noteq> 0);
          (len, pkt) \<leftarrow> (if has_explicit_len then PACKET_get_quic_vlint pkt
                         else if nodata then Some (0, pkt)
                         else Some (of_nat (PACKET_remaining pkt), pkt));
          let f = \<lparr>sf_stream_id = stream_id, sf_offset = offs, sf_len = len, sf_data = None,
                   sf_has_explicit_len = has_explicit_len, sf_is_fin = is_fin\<rparr>;
          if offs + len > push_bit 62 1 - 1 then None
          else if nodata then Some (f, pkt)
          else if len > SIZE_MAX then None
          else do { pkt' \<leftarrow> PACKET_forward pkt (unat len);
                    Some (f\<lparr>sf_data := Some (take (unat len) pkt)\<rparr>, pkt') } }"

definition ossl_quic_wire_decode_frame_max_data :: "PACKET \<Rightarrow> (u64 \<times> PACKET) option" where
  "ossl_quic_wire_decode_frame_max_data pkt =
     do { pkt \<leftarrow> expect_frame_header pkt OSSL_QUIC_FRAME_TYPE_MAX_DATA; PACKET_get_quic_vlint pkt }"

definition ossl_quic_wire_decode_frame_max_stream_data ::
  "PACKET \<Rightarrow> ((u64 \<times> u64) \<times> PACKET) option" where
  "ossl_quic_wire_decode_frame_max_stream_data pkt =
     do { pkt \<leftarrow> expect_frame_header pkt OSSL_QUIC_FRAME_TYPE_MAX_STREAM_DATA;
          (stream_id, pkt) \<leftarrow> PACKET_get_quic_vlint pkt;
          (max_stream_data, pkt) \<leftarrow> PACKET_get_quic_vlint pkt;
          Some ((stream_id, max_stream_data), pkt) }"

definition ossl_quic_wire_decode_frame_max_streams :: "PACKET \<Rightarrow> (u64 \<times> PACKET) option" where
  "ossl_quic_wire_decode_frame_max_streams pkt =
     do { (_, pkt) \<leftarrow> expect_frame_header_mask pkt OSSL_QUIC_FRAME_TYPE_MAX_STREAMS_BIDI 1;
          PACKET_get_quic_vlint pkt }"

definition ossl_quic_wire_decode_frame_data_blocked :: "PACKET \<Rightarrow> (u64 \<times> PACKET) option" where
  "ossl_quic_wire_decode_frame_data_blocked pkt =
     do { pkt \<leftarrow> expect_frame_header pkt OSSL_QUIC_FRAME_TYPE_DATA_BLOCKED; PACKET_get_quic_vlint pkt }"

definition ossl_quic_wire_decode_frame_stream_data_blocked ::
  "PACKET \<Rightarrow> ((u64 \<times> u64) \<times> PACKET) option" where
  "ossl_quic_wire_decode_frame_stream_data_blocked pkt =
     do { pkt \<leftarrow> expect_frame_header pkt OSSL_QUIC_FRAME_TYPE_STREAM_DATA_BLOCKED;
          (stream_id, pkt) \<leftarrow> PACKET_get_quic_vlint pkt;
          (max_stream_data, pkt) \<leftarrow> PACKET_get_quic_vlint pkt;
          Some ((stream_id, max_stream_data), pkt) }"

definition ossl_quic_wire_decode_frame_streams_blocked :: "PACKET \<Rightarrow> (u64 \<times> PACKET) option" where
  "ossl_quic_wire_decode_frame_streams_blocked pkt =
     do { (_, pkt) \<leftarrow> expect_frame_header_mask pkt OSSL_QUIC_FRAME_TYPE_STREAMS_BLOCKED_BIDI 1;
          PACKET_get_quic_vlint pkt }"

definition ossl_quic_wire_decode_frame_new_conn_id ::
  "PACKET \<Rightarrow> (OSSL_QUIC_FRAME_NEW_CONN_ID \<times> PACKET) option" where
  "ossl_quic_wire_decode_frame_new_conn_id pkt =
     do { pkt \<leftarrow> expect_frame_header pkt OSSL_QUIC_FRAME_TYPE_NEW_CONN_ID;
          (seq_num, pkt) \<leftarrow> PACKET_get_quic_vlint pkt;
          (retire_prior_to, pkt) \<leftarrow> PACKET_get_quic_vlint pkt;
          if seq_num < retire_prior_to then None
          else do {
            (len, pkt) \<leftarrow> PACKET_get_1 pkt;
            if len < 1 \<or> unat len > QUIC_MAX_CONN_ID_LEN then None
            else do {
              (cid, pkt) \<leftarrow> PACKET_copy_bytes pkt (unat len);
              (token, pkt) \<leftarrow> PACKET_copy_bytes pkt QUIC_STATELESS_RESET_TOKEN_LEN;
              Some (\<lparr>nc_seq_num = seq_num, nc_retire_prior_to = retire_prior_to,
                     nc_conn_id = \<lparr>id_len = ucast len,
                       cid_id = cid @ replicate (QUIC_MAX_CONN_ID_LEN - unat len) 0\<rparr>,
                     nc_stateless_reset = token\<rparr>, pkt) } } }"

definition ossl_quic_wire_decode_frame_retire_conn_id :: "PACKET \<Rightarrow> (u64 \<times> PACKET) option" where
  "ossl_quic_wire_decode_frame_retire_conn_id pkt =
     do { pkt \<leftarrow> expect_frame_header pkt OSSL_QUIC_FRAME_TYPE_RETIRE_CONN_ID; PACKET_get_quic_vlint pkt }"

definition ossl_quic_wire_decode_frame_path_challenge :: "PACKET \<Rightarrow> (u64 \<times> PACKET) option" where
  "ossl_quic_wire_decode_frame_path_challenge pkt =
     do { pkt \<leftarrow> expect_frame_header pkt OSSL_QUIC_FRAME_TYPE_PATH_CHALLENGE; PACKET_get_net_8 pkt }"

definition ossl_quic_wire_decode_frame_path_response :: "PACKET \<Rightarrow> (u64 \<times> PACKET) option" where
  "ossl_quic_wire_decode_frame_path_response pkt =
     do { pkt \<leftarrow> expect_frame_header pkt OSSL_QUIC_FRAME_TYPE_PATH_RESPONSE; PACKET_get_net_8 pkt }"

definition ossl_quic_wire_decode_frame_conn_close ::
  "PACKET \<Rightarrow> (OSSL_QUIC_FRAME_CONN_CLOSE \<times> PACKET) option" where
  "ossl_quic_wire_decode_frame_conn_close pkt =
     do { (frame_type, pkt) \<leftarrow> expect_frame_header_mask pkt OSSL_QUIC_FRAME_TYPE_CONN_CLOSE_TRANSPORT 1;
          (error_code, pkt) \<leftarrow> PACKET_get_quic_vlint pkt;
          let is_app = ((frame_type AND 1) \<noteq> 0);
          (ft, pkt) \<leftarrow> (if \<not> is_app then PACKET_get_quic_vlint pkt else Some (0, pkt));
          (reason_len, pkt) \<leftarrow> PACKET_get_quic_vlint pkt;
          if reason_len > SIZE_MAX then None
          else do { (reason, pkt) \<leftarrow> PACKET_get_bytes pkt (unat reason_len);
                    Some (\<lparr>cc_is_app = is_app, cc_error_code = error_code, cc_frame_type = ft,
                           cc_reason = reason, cc_reason_len = reason_len\<rparr>, pkt) } }"

text \<open>The number of padding bytes and the packet after them.\<close>

definition ossl_quic_wire_decode_padding :: "PACKET \<Rightarrow> nat \<times> PACKET" where
  "ossl_quic_wire_decode_padding pkt =
     (let n = length (takeWhile (\<lambda>b. b = 0) pkt)
      in case PACKET_forward pkt n of None \<Rightarrow> (0, pkt) | Some pkt' \<Rightarrow> (n, pkt'))"

definition ossl_quic_wire_decode_frame_ping :: "PACKET \<Rightarrow> PACKET option" where
  "ossl_quic_wire_decode_frame_ping pkt = expect_frame_header pkt OSSL_QUIC_FRAME_TYPE_PING"

definition ossl_quic_wire_decode_frame_handshake_done :: "PACKET \<Rightarrow> PACKET option" where
  "ossl_quic_wire_decode_frame_handshake_done pkt =
     expect_frame_header pkt OSSL_QUIC_FRAME_TYPE_HANDSHAKE_DONE"

section \<open>Transport parameters\<close>

definition ossl_quic_wire_peek_transport_param :: "PACKET \<Rightarrow> u64 option" where
  "ossl_quic_wire_peek_transport_param pkt = PACKET_peek_quic_vlint pkt"

text \<open>The parameter id and body.\<close>

definition ossl_quic_wire_decode_transport_param_bytes ::
  "PACKET \<Rightarrow> ((u64 \<times> u8 list) \<times> PACKET) option" where
  "ossl_quic_wire_decode_transport_param_bytes pkt =
     do { (param_id, pkt) \<leftarrow> PACKET_get_quic_vlint pkt;
          (len, pkt) \<leftarrow> PACKET_get_quic_vlint pkt;
          if len > SIZE_MAX then None
          else do { (b, pkt) \<leftarrow> PACKET_get_bytes pkt (unat len); Some ((param_id, b), pkt) } }"

definition ossl_quic_wire_decode_transport_param_int :: "PACKET \<Rightarrow> ((u64 \<times> u64) \<times> PACKET) option" where
  "ossl_quic_wire_decode_transport_param_int pkt =
     do { ((param_id, sub), pkt) \<leftarrow> ossl_quic_wire_decode_transport_param_bytes pkt;
          (val, sub) \<leftarrow> PACKET_get_quic_vlint sub;
          if PACKET_remaining sub > 0 then None else Some ((param_id, val), pkt) }"

text \<open>\<open>cid\<close> is the structure before the call: bytes beyond the new length keep their value.\<close>

definition ossl_quic_wire_decode_transport_param_cid ::
  "PACKET \<Rightarrow> QUIC_CONN_ID \<Rightarrow> ((u64 \<times> QUIC_CONN_ID) \<times> PACKET) option" where
  "ossl_quic_wire_decode_transport_param_cid pkt cid =
     do { ((param_id, body), pkt) \<leftarrow> ossl_quic_wire_decode_transport_param_bytes pkt;
          if length body > QUIC_MAX_CONN_ID_LEN then None
          else Some ((param_id, \<lparr>id_len = of_nat (length body),
                       cid_id = body @ drop (length body) (cid_id cid)\<rparr>), pkt) }"

record QUIC_PREFERRED_ADDR =
  ipv4_port :: "16 word"
  ipv6_port :: "16 word"
  ipv4 :: "u8 list"
  ipv6 :: "u8 list"
  pa_stateless_reset :: "u8 list"
  pa_cid :: QUIC_CONN_ID

definition QUIC_MIN_ENCODED_PREFERRED_ADDR_LEN :: nat where
  "QUIC_MIN_ENCODED_PREFERRED_ADDR_LEN = 41"

definition QUIC_MAX_ENCODED_PREFERRED_ADDR_LEN :: nat where
  "QUIC_MAX_ENCODED_PREFERRED_ADDR_LEN = 61"

definition QUIC_TPARAM_PREFERRED_ADDR :: u64 where
  "QUIC_TPARAM_PREFERRED_ADDR = 0x0D"

definition ossl_quic_wire_decode_transport_param_preferred_addr ::
  "PACKET \<Rightarrow> QUIC_PREFERRED_ADDR \<Rightarrow> (QUIC_PREFERRED_ADDR \<times> PACKET) option" where
  "ossl_quic_wire_decode_transport_param_preferred_addr pkt p =
     do { ((param_id, body), pkt) \<leftarrow> ossl_quic_wire_decode_transport_param_bytes pkt;
          if length body < QUIC_MIN_ENCODED_PREFERRED_ADDR_LEN
             \<or> length body > QUIC_MAX_ENCODED_PREFERRED_ADDR_LEN
             \<or> param_id \<noteq> QUIC_TPARAM_PREFERRED_ADDR then None
          else do {
            pkt2 \<leftarrow> PACKET_buf_init body (length body);
            (v4, pkt2) \<leftarrow> PACKET_copy_bytes pkt2 4;
            (v4_port, pkt2) \<leftarrow> PACKET_get_net_2 pkt2;
            (v6, pkt2) \<leftarrow> PACKET_copy_bytes pkt2 16;
            (v6_port, pkt2) \<leftarrow> PACKET_get_net_2 pkt2;
            (cidl, pkt2) \<leftarrow> PACKET_get_1 pkt2;
            if unat cidl > QUIC_MAX_CONN_ID_LEN then None
            else do {
              (cid, pkt2) \<leftarrow> PACKET_copy_bytes pkt2 (unat cidl);
              (token, pkt2) \<leftarrow> PACKET_copy_bytes pkt2 QUIC_STATELESS_RESET_TOKEN_LEN;
              Some (\<lparr>ipv4_port = ucast v4_port, ipv6_port = ucast v6_port, ipv4 = v4, ipv6 = v6,
                     pa_stateless_reset = token,
                     pa_cid = \<lparr>id_len = ucast cidl,
                       cid_id = cid @ drop (unat cidl) (cid_id (pa_cid p))\<rparr>\<rparr>, pkt) } } }"

end
