(* ===== verification/Quic_Codec.thy ===== *)
theory Quic_Codec
  imports Quic_Wire
begin

text \<open>
  Correctness of the frame codec: every encoder of \<^theory_text>\<open>Quic_Wire\<close> writes exactly the bytes of its frame or
  fails, and the receiver, choosing the decoder by the frame type as \<open>depack_process_frames\<close> does, reads
  the same frame back. Frames without ranges share one contract (the locale \<open>codec\<close>); the ACK frame,
  whose delay field is rounded, has its own theorem.
\<close>

section \<open>Headers\<close>

lemma expect_frame_header_encode [packet_simps]:
  "t \<le> OSSL_QUIC_VLINT_MAX \<Longrightarrow>
   expect_frame_header (ossl_quic_vlint_encode t @ rest) t' = (if t = t' then Some rest else None)"
  by (simp add: expect_frame_header_def ossl_quic_wire_skip_frame_header_def packet_simps)

lemma expect_frame_header_mask_encode [packet_simps]:
  "t \<le> OSSL_QUIC_VLINT_MAX \<Longrightarrow>
   expect_frame_header_mask (ossl_quic_vlint_encode t @ rest) t' m =
     (if t AND NOT m = t' then Some (t, rest) else None)"
  by (simp add: expect_frame_header_mask_def ossl_quic_wire_skip_frame_header_def packet_simps)

lemma peek_frame_header_encode [packet_simps]:
  assumes "t \<le> OSSL_QUIC_VLINT_MAX"
  shows "ossl_quic_wire_peek_frame_header (ossl_quic_vlint_encode t @ rest) = Some (t, True)"
proof -
  let ?n = "ossl_quic_vlint_encode_len t"
  have n: "?n \<in> {1, 2, 4, 8}" "vlint_fits t ?n"
    using assms encode_len_cases [of t] encode_len_pos [of t] vlint_fits_encode_len [of t] by auto
  note facts = decode_len_encode_n [OF n] decode_unchecked_encode_n [OF n, of rest] length_encode_n [OF n(1), of t]
  have "(ossl_quic_vlint_encode t @ rest) ! 0 = ossl_quic_vlint_encode_n t ?n ! 0"
    using n(1) facts(3) by (auto simp: ossl_quic_vlint_encode_def nth_append)
  then show ?thesis
    using n(1) facts
    by (auto simp: ossl_quic_wire_peek_frame_header_def PACKET_peek_quic_vlint_ex_def PACKET_remaining_def
        ossl_quic_vlint_encode_def Let_def)
qed

lemma frame_types_fit [packet_simps]:
  "OSSL_QUIC_FRAME_TYPE_PADDING \<le> OSSL_QUIC_VLINT_MAX" "OSSL_QUIC_FRAME_TYPE_PING \<le> OSSL_QUIC_VLINT_MAX"
  "OSSL_QUIC_FRAME_TYPE_RESET_STREAM \<le> OSSL_QUIC_VLINT_MAX"
  "OSSL_QUIC_FRAME_TYPE_STOP_SENDING \<le> OSSL_QUIC_VLINT_MAX"
  "OSSL_QUIC_FRAME_TYPE_CRYPTO \<le> OSSL_QUIC_VLINT_MAX" "OSSL_QUIC_FRAME_TYPE_NEW_TOKEN \<le> OSSL_QUIC_VLINT_MAX"
  "OSSL_QUIC_FRAME_TYPE_MAX_DATA \<le> OSSL_QUIC_VLINT_MAX"
  "OSSL_QUIC_FRAME_TYPE_MAX_STREAM_DATA \<le> OSSL_QUIC_VLINT_MAX"
  "OSSL_QUIC_FRAME_TYPE_DATA_BLOCKED \<le> OSSL_QUIC_VLINT_MAX"
  "OSSL_QUIC_FRAME_TYPE_STREAM_DATA_BLOCKED \<le> OSSL_QUIC_VLINT_MAX"
  by (simp_all add: frame_types vlint_consts)

section \<open>One frame type\<close>

datatype wire_frame =
    Ping
  | Reset_Stream OSSL_QUIC_FRAME_RESET_STREAM
  | Stop_Sending OSSL_QUIC_FRAME_STOP_SENDING
  | Crypto OSSL_QUIC_FRAME_CRYPTO
  | New_Token "u8 list" u64
  | Stream OSSL_QUIC_FRAME_STREAM
  | Max_Data u64
  | Max_Stream_Data u64 u64
  | Max_Streams bool u64
  | Data_Blocked u64
  | Stream_Data_Blocked u64 u64
  | Streams_Blocked bool u64
  | New_Conn_Id OSSL_QUIC_FRAME_NEW_CONN_ID
  | Retire_Conn_Id u64
  | Path_Challenge u64
  | Path_Response u64
  | Conn_Close OSSL_QUIC_FRAME_CONN_CLOSE
  | Handshake_Done

fun encode_frame :: "wire_frame \<Rightarrow> WPACKET \<Rightarrow> WPACKET \<times> bool" where
  "encode_frame Ping pkt = ossl_quic_wire_encode_frame_ping pkt"
| "encode_frame (Reset_Stream f) pkt = ossl_quic_wire_encode_frame_reset_stream f pkt"
| "encode_frame (Stop_Sending f) pkt = ossl_quic_wire_encode_frame_stop_sending f pkt"
| "encode_frame (Crypto f) pkt = apsnd (\<lambda>p. p \<noteq> None) (ossl_quic_wire_encode_frame_crypto f pkt)"
| "encode_frame (New_Token t n) pkt = ossl_quic_wire_encode_frame_new_token t n pkt"
| "encode_frame (Stream f) pkt = apsnd (\<lambda>p. p \<noteq> None) (ossl_quic_wire_encode_frame_stream f pkt)"
| "encode_frame (Max_Data n) pkt = ossl_quic_wire_encode_frame_max_data n pkt"
| "encode_frame (Max_Stream_Data i n) pkt = ossl_quic_wire_encode_frame_max_stream_data i n pkt"
| "encode_frame (Max_Streams u n) pkt = ossl_quic_wire_encode_frame_max_streams u n pkt"
| "encode_frame (Data_Blocked n) pkt = ossl_quic_wire_encode_frame_data_blocked n pkt"
| "encode_frame (Stream_Data_Blocked i n) pkt = ossl_quic_wire_encode_frame_stream_data_blocked i n pkt"
| "encode_frame (Streams_Blocked u n) pkt = ossl_quic_wire_encode_frame_streams_blocked u n pkt"
| "encode_frame (New_Conn_Id f) pkt = ossl_quic_wire_encode_frame_new_conn_id f pkt"
| "encode_frame (Retire_Conn_Id n) pkt = ossl_quic_wire_encode_frame_retire_conn_id n pkt"
| "encode_frame (Path_Challenge d) pkt = ossl_quic_wire_encode_frame_path_challenge d pkt"
| "encode_frame (Path_Response d) pkt = ossl_quic_wire_encode_frame_path_response d pkt"
| "encode_frame (Conn_Close f) pkt = ossl_quic_wire_encode_frame_conn_close f pkt"
| "encode_frame Handshake_Done pkt = ossl_quic_wire_encode_frame_handshake_done pkt"

text \<open>The receiver looks at the type and calls the decoder for it.\<close>

definition frame_decoders :: "(u64 \<times> (PACKET \<Rightarrow> (wire_frame \<times> PACKET) option)) list" where
  "frame_decoders =
    [(OSSL_QUIC_FRAME_TYPE_PING, \<lambda>p. map_option (Pair Ping) (ossl_quic_wire_decode_frame_ping p)),
     (OSSL_QUIC_FRAME_TYPE_RESET_STREAM, map_option (apfst Reset_Stream) \<circ> ossl_quic_wire_decode_frame_reset_stream),
     (OSSL_QUIC_FRAME_TYPE_STOP_SENDING, map_option (apfst Stop_Sending) \<circ> ossl_quic_wire_decode_frame_stop_sending),
     (OSSL_QUIC_FRAME_TYPE_CRYPTO, \<lambda>p. map_option (apfst Crypto) (ossl_quic_wire_decode_frame_crypto p False)),
     (OSSL_QUIC_FRAME_TYPE_NEW_TOKEN, map_option (apfst (case_prod New_Token)) \<circ> ossl_quic_wire_decode_frame_new_token),
     (OSSL_QUIC_FRAME_TYPE_MAX_DATA, map_option (apfst Max_Data) \<circ> ossl_quic_wire_decode_frame_max_data),
     (OSSL_QUIC_FRAME_TYPE_MAX_STREAM_DATA,
        map_option (apfst (case_prod Max_Stream_Data)) \<circ> ossl_quic_wire_decode_frame_max_stream_data),
     (OSSL_QUIC_FRAME_TYPE_MAX_STREAMS_BIDI, map_option (apfst (Max_Streams False)) \<circ> ossl_quic_wire_decode_frame_max_streams),
     (OSSL_QUIC_FRAME_TYPE_MAX_STREAMS_UNI, map_option (apfst (Max_Streams True)) \<circ> ossl_quic_wire_decode_frame_max_streams),
     (OSSL_QUIC_FRAME_TYPE_DATA_BLOCKED, map_option (apfst Data_Blocked) \<circ> ossl_quic_wire_decode_frame_data_blocked),
     (OSSL_QUIC_FRAME_TYPE_STREAM_DATA_BLOCKED,
        map_option (apfst (case_prod Stream_Data_Blocked)) \<circ> ossl_quic_wire_decode_frame_stream_data_blocked),
     (OSSL_QUIC_FRAME_TYPE_STREAMS_BLOCKED_BIDI,
        map_option (apfst (Streams_Blocked False)) \<circ> ossl_quic_wire_decode_frame_streams_blocked),
     (OSSL_QUIC_FRAME_TYPE_STREAMS_BLOCKED_UNI,
        map_option (apfst (Streams_Blocked True)) \<circ> ossl_quic_wire_decode_frame_streams_blocked),
     (OSSL_QUIC_FRAME_TYPE_NEW_CONN_ID, map_option (apfst New_Conn_Id) \<circ> ossl_quic_wire_decode_frame_new_conn_id),
     (OSSL_QUIC_FRAME_TYPE_RETIRE_CONN_ID, map_option (apfst Retire_Conn_Id) \<circ> ossl_quic_wire_decode_frame_retire_conn_id),
     (OSSL_QUIC_FRAME_TYPE_PATH_CHALLENGE, map_option (apfst Path_Challenge) \<circ> ossl_quic_wire_decode_frame_path_challenge),
     (OSSL_QUIC_FRAME_TYPE_PATH_RESPONSE, map_option (apfst Path_Response) \<circ> ossl_quic_wire_decode_frame_path_response),
     (OSSL_QUIC_FRAME_TYPE_CONN_CLOSE_TRANSPORT, map_option (apfst Conn_Close) \<circ> ossl_quic_wire_decode_frame_conn_close),
     (OSSL_QUIC_FRAME_TYPE_CONN_CLOSE_APP, map_option (apfst Conn_Close) \<circ> ossl_quic_wire_decode_frame_conn_close),
     (OSSL_QUIC_FRAME_TYPE_HANDSHAKE_DONE, \<lambda>p. map_option (Pair Handshake_Done) (ossl_quic_wire_decode_frame_handshake_done p))]"

definition decode_frame :: "PACKET \<Rightarrow> (wire_frame \<times> PACKET) option" where
  "decode_frame pkt =
     do { (frame_type, _) \<leftarrow> ossl_quic_wire_peek_frame_header pkt;
          if frame_type AND NOT OSSL_QUIC_FRAME_FLAG_STREAM_MASK = OSSL_QUIC_FRAME_TYPE_STREAM
          then map_option (apfst Stream) (ossl_quic_wire_decode_frame_stream pkt False)
          else do { dec \<leftarrow> map_of frame_decoders frame_type; dec pkt } }"

text \<open>The bytes of a frame; \<open>None\<close> if some field has no encoding.\<close>

fun frame_bytes :: "wire_frame \<Rightarrow> u8 list option" where
  "frame_bytes Ping = cat [vl OSSL_QUIC_FRAME_TYPE_PING]"
| "frame_bytes (Reset_Stream f) = cat [vl OSSL_QUIC_FRAME_TYPE_RESET_STREAM, vl (rs_stream_id f),
     vl (rs_app_error_code f), vl (rs_final_size f)]"
| "frame_bytes (Stop_Sending f) = cat [vl OSSL_QUIC_FRAME_TYPE_STOP_SENDING, vl (ss_stream_id f),
     vl (ss_app_error_code f)]"
| "frame_bytes (Crypto f) = cat [vl OSSL_QUIC_FRAME_TYPE_CRYPTO, vl (cf_offset f), vl (cf_len f), cf_data f]"
| "frame_bytes (New_Token t n) = cat [vl OSSL_QUIC_FRAME_TYPE_NEW_TOKEN, vl n, Some t]"
| "frame_bytes (Stream f) = cat [vl (stream_frame_type f), vl (sf_stream_id f),
     if sf_offset f \<noteq> 0 then vl (sf_offset f) else Some [],
     if sf_has_explicit_len f then vl (sf_len f) else Some [], sf_data f]"
| "frame_bytes (Max_Data n) = cat [vl OSSL_QUIC_FRAME_TYPE_MAX_DATA, vl n]"
| "frame_bytes (Max_Stream_Data i n) = cat [vl OSSL_QUIC_FRAME_TYPE_MAX_STREAM_DATA, vl i, vl n]"
| "frame_bytes (Max_Streams u n) = cat [vl (if u then OSSL_QUIC_FRAME_TYPE_MAX_STREAMS_UNI
     else OSSL_QUIC_FRAME_TYPE_MAX_STREAMS_BIDI), vl n]"
| "frame_bytes (Data_Blocked n) = cat [vl OSSL_QUIC_FRAME_TYPE_DATA_BLOCKED, vl n]"
| "frame_bytes (Stream_Data_Blocked i n) = cat [vl OSSL_QUIC_FRAME_TYPE_STREAM_DATA_BLOCKED, vl i, vl n]"
| "frame_bytes (Streams_Blocked u n) = cat [vl (if u then OSSL_QUIC_FRAME_TYPE_STREAMS_BLOCKED_UNI
     else OSSL_QUIC_FRAME_TYPE_STREAMS_BLOCKED_BIDI), vl n]"
| "frame_bytes (New_Conn_Id f) = cat [vl OSSL_QUIC_FRAME_TYPE_NEW_CONN_ID, vl (nc_seq_num f),
     vl (nc_retire_prior_to f), Some [id_len (nc_conn_id f)],
     Some (take (unat (id_len (nc_conn_id f))) (cid_id (nc_conn_id f))), Some (nc_stateless_reset f)]"
| "frame_bytes (Retire_Conn_Id n) = cat [vl OSSL_QUIC_FRAME_TYPE_RETIRE_CONN_ID, vl n]"
| "frame_bytes (Path_Challenge d) = cat [vl OSSL_QUIC_FRAME_TYPE_PATH_CHALLENGE, Some (be_bytes 8 d)]"
| "frame_bytes (Path_Response d) = cat [vl OSSL_QUIC_FRAME_TYPE_PATH_RESPONSE, Some (be_bytes 8 d)]"
| "frame_bytes (Conn_Close f) = cat [vl (if cc_is_app f then OSSL_QUIC_FRAME_TYPE_CONN_CLOSE_APP
     else OSSL_QUIC_FRAME_TYPE_CONN_CLOSE_TRANSPORT), vl (cc_error_code f),
     if cc_is_app f then Some [] else vl (cc_frame_type f), vl (cc_reason_len f), Some (cc_reason f)]"
| "frame_bytes Handshake_Done = cat [vl OSSL_QUIC_FRAME_TYPE_HANDSHAKE_DONE]"

text \<open>
  The structures a caller builds: pointer and length agree, offsets stay within a stream's range,
  unused bytes of a connection id are zero. A STREAM frame without a length runs to the end.
\<close>

fun frame_ok :: "wire_frame \<Rightarrow> u8 list \<Rightarrow> bool" where
  "frame_ok (Crypto f) rest \<longleftrightarrow> cf_len f \<noteq> 0 \<and> unat (cf_offset f) + unat (cf_len f) < 2 ^ 62 \<and>
     map_option length (cf_data f) = Some (unat (cf_len f))"
| "frame_ok (New_Token t n) rest \<longleftrightarrow> length t = unat n"
| "frame_ok (Stream f) rest \<longleftrightarrow> sf_len f \<noteq> 0 \<and> unat (sf_offset f) + unat (sf_len f) < 2 ^ 62 \<and>
     map_option length (sf_data f) = Some (unat (sf_len f)) \<and> (sf_has_explicit_len f \<or> rest = [])"
| "frame_ok (New_Conn_Id f) rest \<longleftrightarrow> nc_retire_prior_to f \<le> nc_seq_num f \<and>
     unat (id_len (nc_conn_id f)) \<in> {1..QUIC_MAX_CONN_ID_LEN} \<and>
     length (cid_id (nc_conn_id f)) = QUIC_MAX_CONN_ID_LEN \<and>
     drop (unat (id_len (nc_conn_id f))) (cid_id (nc_conn_id f)) =
       replicate (QUIC_MAX_CONN_ID_LEN - unat (id_len (nc_conn_id f))) 0 \<and>
     length (nc_stateless_reset f) = QUIC_STATELESS_RESET_TOKEN_LEN"
| "frame_ok (Conn_Close f) rest \<longleftrightarrow> length (cc_reason f) = unat (cc_reason_len f) \<and>
     (cc_is_app f \<longrightarrow> cc_frame_type f = 0)"
| "frame_ok _ rest \<longleftrightarrow> True"

section \<open>Every encoder writes the bytes of its frame\<close>

lemma wp_spec_hdr [wp_specs]: "wp_spec (encode_frame_hdr t) (vl t)"
  by (simp add: encode_frame_hdr_def wp_specs)

lemma wp_spec_seq: "wp_spec (wp_all fs) (cat xs) \<Longrightarrow> wp_spec f y \<Longrightarrow> wp_spec (wp_all [wp_all fs, f]) (cat (xs @ [y]))"
  using wp_spec_all [of "[wp_all fs, f]" "[cat xs, y]"] by (simp add: cat_cat)

text \<open>With the data present and not empty, the payload encoders are a copy after the header.\<close>

lemma encode_crypto_eq:
  assumes "cf_data f = Some d" "cf_len f \<noteq> 0"
  shows "apsnd (\<lambda>p. p \<noteq> None) (ossl_quic_wire_encode_frame_crypto f pkt) =
    wp_all [ossl_quic_wire_encode_frame_crypto_hdr f, WPACKET_memcpy d (unat (cf_len f))] pkt"
  using assms
  by (auto simp: ossl_quic_wire_encode_frame_crypto_def wp_all.simps WPACKET_memcpy_def unat_eq_0
      not_less split: prod.splits option.splits)

lemma encode_stream_eq:
  assumes "sf_data f = Some d" "sf_len f \<noteq> 0"
  shows "apsnd (\<lambda>p. p \<noteq> None) (ossl_quic_wire_encode_frame_stream f pkt) =
    wp_all [ossl_quic_wire_encode_frame_stream_hdr f, WPACKET_memcpy d (unat (sf_len f))] pkt"
  using assms
  by (auto simp: ossl_quic_wire_encode_frame_stream_def wp_all.simps WPACKET_memcpy_def unat_eq_0
      not_less split: prod.splits option.splits)

lemma wp_spec_crypto_hdr:
  "wp_spec (ossl_quic_wire_encode_frame_crypto_hdr f)
     (cat [vl OSSL_QUIC_FRAME_TYPE_CRYPTO, vl (cf_offset f), vl (cf_len f)])"
  unfolding ossl_quic_wire_encode_frame_crypto_hdr_def by (rule wp_spec_all) (simp add: wp_specs)

lemma wp_spec_stream_hdr:
  "wp_spec (ossl_quic_wire_encode_frame_stream_hdr f)
     (cat [vl (stream_frame_type f), vl (sf_stream_id f),
       if sf_offset f \<noteq> 0 then vl (sf_offset f) else Some [],
       if sf_has_explicit_len f then vl (sf_len f) else Some []])"
proof -
  have "wp_spec (ossl_quic_wire_encode_frame_stream_hdr f)
     (cat ([vl (stream_frame_type f), vl (sf_stream_id f)] @
       (if sf_offset f \<noteq> 0 then [vl (sf_offset f)] else []) @
       (if sf_has_explicit_len f then [vl (sf_len f)] else [])))"
    unfolding ossl_quic_wire_encode_frame_stream_hdr_def by (rule wp_spec_all) (simp add: wp_specs)
  moreover have "cat ([vl (stream_frame_type f), vl (sf_stream_id f)] @
       (if sf_offset f \<noteq> 0 then [vl (sf_offset f)] else []) @
       (if sf_has_explicit_len f then [vl (sf_len f)] else [])) =
     cat [vl (stream_frame_type f), vl (sf_stream_id f),
       if sf_offset f \<noteq> 0 then vl (sf_offset f) else Some [],
       if sf_has_explicit_len f then vl (sf_len f) else Some []]"
    by (auto simp: cat_eq)
  ultimately show ?thesis by (simp only:)
qed

lemma wp_spec_conn_close:
  assumes "length (cc_reason f) = unat (cc_reason_len f)"
  shows "wp_spec (ossl_quic_wire_encode_frame_conn_close f) (frame_bytes (Conn_Close f))"
proof -
  have "wp_spec (ossl_quic_wire_encode_frame_conn_close f)
     (cat ([vl (if cc_is_app f then OSSL_QUIC_FRAME_TYPE_CONN_CLOSE_APP
                else OSSL_QUIC_FRAME_TYPE_CONN_CLOSE_TRANSPORT), vl (cc_error_code f)] @
       (if \<not> cc_is_app f then [vl (cc_frame_type f)] else []) @
       [vl (cc_reason_len f), Some (cc_reason f)]))"
    unfolding ossl_quic_wire_encode_frame_conn_close_def
    using wp_spec_memcpy [of "unat (cc_reason_len f)" "cc_reason f"] assms
    by (intro wp_spec_all) (simp add: wp_specs)
  moreover have "cat ([vl (if cc_is_app f then OSSL_QUIC_FRAME_TYPE_CONN_CLOSE_APP
                else OSSL_QUIC_FRAME_TYPE_CONN_CLOSE_TRANSPORT), vl (cc_error_code f)] @
       (if \<not> cc_is_app f then [vl (cc_frame_type f)] else []) @
       [vl (cc_reason_len f), Some (cc_reason f)]) = frame_bytes (Conn_Close f)"
    by (auto simp: cat_eq)
  ultimately show ?thesis by (simp only:)
qed

lemma wp_spec_new_conn_id:
  assumes "frame_ok (New_Conn_Id f) rest"
  shows "wp_spec (ossl_quic_wire_encode_frame_new_conn_id f) (frame_bytes (New_Conn_Id f))"
proof -
  let ?n = "id_len (nc_conn_id f)"
  from assms have *: "\<not> (unat ?n < 1 \<or> unat ?n > QUIC_MAX_CONN_ID_LEN)"
    "unat ?n \<le> length (cid_id (nc_conn_id f))"
    "length (nc_stateless_reset f) = QUIC_STATELESS_RESET_TOKEN_LEN" by auto
  have one: "wp_spec (WPACKET_put_bytes_u8 (ucast ?n)) (Some [?n])"
    using wp_spec_put_bytes [of 1 "ucast ?n"] unsigned_less [of ?n, where 'a = nat]
    by (simp add: be_bytes_1 [simplified] ucast_down_up unsigned_ucast_eq take_bit_nat_eq_self)
  show ?thesis
    unfolding ossl_quic_wire_encode_frame_new_conn_id_def frame_bytes.simps if_not_P [OF *(1)]
    using one wp_spec_memcpy [OF *(2)]
      wp_spec_memcpy [of QUIC_STATELESS_RESET_TOKEN_LEN "nc_stateless_reset f"] *(3)
    by (intro wp_spec_all) (simp add: wp_specs)
qed

lemmas encoder_defs = ossl_quic_wire_encode_frame_reset_stream_def
  ossl_quic_wire_encode_frame_stop_sending_def ossl_quic_wire_encode_frame_new_token_def
  ossl_quic_wire_encode_frame_max_data_def ossl_quic_wire_encode_frame_max_stream_data_def
  ossl_quic_wire_encode_frame_max_streams_def ossl_quic_wire_encode_frame_data_blocked_def
  ossl_quic_wire_encode_frame_stream_data_blocked_def ossl_quic_wire_encode_frame_streams_blocked_def
  ossl_quic_wire_encode_frame_retire_conn_id_def ossl_quic_wire_encode_frame_path_challenge_def
  ossl_quic_wire_encode_frame_path_response_def

lemma encode_frame_eta:
  "encode_frame Ping = encode_frame_hdr OSSL_QUIC_FRAME_TYPE_PING"
  "encode_frame Handshake_Done = encode_frame_hdr OSSL_QUIC_FRAME_TYPE_HANDSHAKE_DONE"
  "encode_frame (Reset_Stream rs) = ossl_quic_wire_encode_frame_reset_stream rs"
  "encode_frame (Stop_Sending ss) = ossl_quic_wire_encode_frame_stop_sending ss"
  "encode_frame (New_Token t n) = ossl_quic_wire_encode_frame_new_token t n"
  "encode_frame (Max_Data n) = ossl_quic_wire_encode_frame_max_data n"
  "encode_frame (Max_Stream_Data i n) = ossl_quic_wire_encode_frame_max_stream_data i n"
  "encode_frame (Max_Streams u n) = ossl_quic_wire_encode_frame_max_streams u n"
  "encode_frame (Data_Blocked n) = ossl_quic_wire_encode_frame_data_blocked n"
  "encode_frame (Stream_Data_Blocked i n) = ossl_quic_wire_encode_frame_stream_data_blocked i n"
  "encode_frame (Streams_Blocked u n) = ossl_quic_wire_encode_frame_streams_blocked u n"
  "encode_frame (New_Conn_Id nc) = ossl_quic_wire_encode_frame_new_conn_id nc"
  "encode_frame (Retire_Conn_Id n) = ossl_quic_wire_encode_frame_retire_conn_id n"
  "encode_frame (Path_Challenge n) = ossl_quic_wire_encode_frame_path_challenge n"
  "encode_frame (Path_Response n) = ossl_quic_wire_encode_frame_path_response n"
  "encode_frame (Conn_Close cl) = ossl_quic_wire_encode_frame_conn_close cl"
  by (simp_all add: fun_eq_iff ossl_quic_wire_encode_frame_ping_def
      ossl_quic_wire_encode_frame_handshake_done_def)

lemma wp_spec_single_vl: "wp_spec f (vl t) \<Longrightarrow> wp_spec f (cat [vl t])"
  by (auto simp: cat_eq split: if_splits)

lemma wp_spec_crypto:
  assumes "frame_ok (Crypto f) rest"
  shows "wp_spec (encode_frame (Crypto f)) (frame_bytes (Crypto f))"
proof -
  from assms obtain d where d: "cf_data f = Some d" "length d = unat (cf_len f)" "cf_len f \<noteq> 0"
    by (cases "cf_data f") auto
  have "encode_frame (Crypto f) =
    wp_all [ossl_quic_wire_encode_frame_crypto_hdr f, WPACKET_memcpy d (unat (cf_len f))]"
    by (rule ext) (simp only: encode_frame.simps encode_crypto_eq [OF d(1,3)])
  moreover have "wp_spec \<dots> (cat [cat [vl OSSL_QUIC_FRAME_TYPE_CRYPTO, vl (cf_offset f), vl (cf_len f)], Some d])"
    using wp_spec_crypto_hdr [of f] wp_spec_memcpy [of "unat (cf_len f)" d] d(2)
    by (intro wp_spec_all) simp
  ultimately show ?thesis by (simp only: cat_cat frame_bytes.simps d(1)) simp
qed

lemma wp_spec_stream:
  assumes "frame_ok (Stream f) rest"
  shows "wp_spec (encode_frame (Stream f)) (frame_bytes (Stream f))"
proof -
  from assms obtain d where d: "sf_data f = Some d" "length d = unat (sf_len f)" "sf_len f \<noteq> 0"
    by (cases "sf_data f") auto
  have "encode_frame (Stream f) =
    wp_all [ossl_quic_wire_encode_frame_stream_hdr f, WPACKET_memcpy d (unat (sf_len f))]"
    by (rule ext) (simp only: encode_frame.simps encode_stream_eq [OF d(1,3)])
  moreover have "wp_spec \<dots> (cat [cat [vl (stream_frame_type f), vl (sf_stream_id f),
       if sf_offset f \<noteq> 0 then vl (sf_offset f) else Some [],
       if sf_has_explicit_len f then vl (sf_len f) else Some []], Some d])"
    using wp_spec_stream_hdr [of f] wp_spec_memcpy [of "unat (sf_len f)" d] d(2)
    by (intro wp_spec_all) (simp del: frame_bytes.simps)
  ultimately show ?thesis by (simp only: cat_cat frame_bytes.simps d(1)) simp
qed

lemma wp_spec_frame:
  assumes "frame_ok f rest"
  shows "wp_spec (encode_frame f) (frame_bytes f)"
proof (cases f)
  case (New_Token t n)
  then show ?thesis
    using assms wp_spec_memcpy [of "unat n" t]
    by (simp only: encode_frame_eta encoder_defs frame_bytes.simps)
       (intro wp_spec_all, simp add: wp_specs)
next
  case (Crypto c)
  then show ?thesis using assms wp_spec_crypto by blast
next
  case (Stream c)
  then show ?thesis using assms wp_spec_stream by blast
next
  case (New_Conn_Id c)
  then show ?thesis using assms wp_spec_new_conn_id by (simp only: encode_frame_eta)
next
  case (Conn_Close c)
  then show ?thesis using assms wp_spec_conn_close by (simp only: encode_frame_eta) auto
qed (simp_all only: encode_frame_eta encoder_defs frame_bytes.simps,
     auto intro!: wp_spec_all wp_spec_single_vl wp_specs)

section \<open>The receiver reads the frame back\<close>

lemmas decoder_defs = ossl_quic_wire_decode_frame_ping_def ossl_quic_wire_decode_frame_reset_stream_def
  ossl_quic_wire_decode_frame_stop_sending_def ossl_quic_wire_decode_frame_new_token_def
  ossl_quic_wire_decode_frame_max_data_def ossl_quic_wire_decode_frame_max_stream_data_def
  ossl_quic_wire_decode_frame_max_streams_def ossl_quic_wire_decode_frame_data_blocked_def
  ossl_quic_wire_decode_frame_stream_data_blocked_def ossl_quic_wire_decode_frame_streams_blocked_def
  ossl_quic_wire_decode_frame_retire_conn_id_def ossl_quic_wire_decode_frame_path_challenge_def
  ossl_quic_wire_decode_frame_path_response_def ossl_quic_wire_decode_frame_handshake_done_def

text \<open>Which decoder a type selects.\<close>

lemma decode_frame_select:
  assumes "t \<le> OSSL_QUIC_VLINT_MAX" "t AND NOT OSSL_QUIC_FRAME_FLAG_STREAM_MASK \<noteq> OSSL_QUIC_FRAME_TYPE_STREAM"
  shows "decode_frame (ossl_quic_vlint_encode t @ bs) =
    (case map_of frame_decoders t of None \<Rightarrow> None | Some dec \<Rightarrow> dec (ossl_quic_vlint_encode t @ bs))"
  using assms by (simp add: decode_frame_def packet_simps split: option.splits)

lemma decode_new_token:
  assumes "n \<le> OSSL_QUIC_VLINT_MAX" "length t = unat n"
  shows "ossl_quic_wire_decode_frame_new_token
    (ossl_quic_vlint_encode OSSL_QUIC_FRAME_TYPE_NEW_TOKEN @ ossl_quic_vlint_encode n @ t @ rest) =
    Some ((t, n), rest)"
  using assms by (simp add: ossl_quic_wire_decode_frame_new_token_def packet_simps)

lemma offset_len_fit:
  assumes "unat (a :: u64) + unat b < 2 ^ 62"
  shows "\<not> 4611686018427387903 < a + b" "a \<le> OSSL_QUIC_VLINT_MAX" "b \<le> OSSL_QUIC_VLINT_MAX"
  using assms by (simp_all add: vlint_consts u64_nat unat_u64_add not_less)

lemma decode_crypto:
  assumes "frame_ok (Crypto f) rest" "frame_bytes (Crypto f) = Some bs"
  shows "ossl_quic_wire_decode_frame_crypto (bs @ rest) False = Some (f, rest)"
proof -
  from assms(1) obtain d where d: "cf_data f = Some d" "length d = unat (cf_len f)"
    by (cases "cf_data f") auto
  with assms show ?thesis
    using offset_len_fit [of "cf_offset f" "cf_len f"]
    by (auto simp: ossl_quic_wire_decode_frame_crypto_def packet_simps PACKET_remaining_def)
qed

text \<open>The flags of a STREAM frame's type are read back as they were set.\<close>

lemma stream_frame_type_props:
  "stream_frame_type f \<le> OSSL_QUIC_VLINT_MAX"
  "stream_frame_type f AND NOT OSSL_QUIC_FRAME_FLAG_STREAM_MASK = OSSL_QUIC_FRAME_TYPE_STREAM"
  "stream_frame_type f AND OSSL_QUIC_FRAME_FLAG_STREAM_OFF \<noteq> 0 \<longleftrightarrow> sf_offset f \<noteq> 0"
  "stream_frame_type f AND OSSL_QUIC_FRAME_FLAG_STREAM_LEN \<noteq> 0 \<longleftrightarrow> sf_has_explicit_len f"
  "stream_frame_type f AND OSSL_QUIC_FRAME_FLAG_STREAM_FIN \<noteq> 0 \<longleftrightarrow> sf_is_fin f"
  by (auto simp: stream_frame_type_def Let_def frame_types vlint_consts)

lemma decode_stream:
  assumes "frame_ok (Stream f) rest" "frame_bytes (Stream f) = Some bs"
  shows "ossl_quic_wire_decode_frame_stream (bs @ rest) False = Some (f, rest)"
proof -
  from assms(1) obtain d where d: "sf_data f = Some d" "length d = unat (sf_len f)"
    by (cases "sf_data f") auto
  have l: "of_nat (length d) = sf_len f" by (simp add: d(2))
  from assms d show ?thesis
    using offset_len_fit [of "sf_offset f" "sf_len f"] stream_frame_type_props [of f] l
    by (cases "sf_offset f = 0"; cases "sf_has_explicit_len f")
       (auto simp: ossl_quic_wire_decode_frame_stream_def packet_simps PACKET_remaining_def Let_def)
qed

lemma decode_new_conn_id:
  assumes "frame_ok (New_Conn_Id f) rest" "frame_bytes (New_Conn_Id f) = Some bs"
  shows "ossl_quic_wire_decode_frame_new_conn_id (bs @ rest) = Some (f, rest)"
proof -
  let ?n = "id_len (nc_conn_id f)"
  have u: "unat (ucast ?n :: u32) = unat ?n" "ucast (ucast ?n :: u32) = ?n"
    by (auto simp: unsigned_ucast_eq take_bit_nat_eq_self order_less_trans [OF unsigned_less]
        intro!: bit_word_eqI simp: bit_simps)
  have c: "take (unat ?n) (cid_id (nc_conn_id f)) @ replicate (QUIC_MAX_CONN_ID_LEN - unat ?n) 0 =
    cid_id (nc_conn_id f)"
    using assms(1) append_take_drop_id [of "unat ?n" "cid_id (nc_conn_id f)"] by auto
  have "\<not> (ucast ?n :: u32) < 1"
    using assms(1) u(1) by (simp add: word_less_nat_alt)
  with assms u c show ?thesis
    by (auto simp: ossl_quic_wire_decode_frame_new_conn_id_def packet_simps)
qed

lemma decode_conn_close:
  assumes "frame_ok (Conn_Close f) rest" "frame_bytes (Conn_Close f) = Some bs"
  shows "ossl_quic_wire_decode_frame_conn_close (bs @ rest) = Some (f, rest)"
  using assms
  by (cases "cc_is_app f")
     (auto simp: ossl_quic_wire_decode_frame_conn_close_def packet_simps frame_types vlint_consts)

lemma decode_frame_bytes:
  assumes "frame_ok f rest" "frame_bytes f = Some bs"
  shows "decode_frame (bs @ rest) = Some (f, rest)"
proof (cases f)
  case (Crypto c)
  then show ?thesis using assms decode_crypto [of c rest bs]
    by (auto simp: decode_frame_select frame_types vlint_consts frame_decoders_def)
next
  case (Stream c)
  then show ?thesis using assms decode_stream [of c rest bs] stream_frame_type_props [of c]
    by (auto simp: decode_frame_def packet_simps)
next
  case (New_Conn_Id c)
  then show ?thesis using assms decode_new_conn_id [of c rest bs]
    by (auto simp: decode_frame_select frame_types vlint_consts frame_decoders_def)
next
  case (Conn_Close c)
  then show ?thesis using assms decode_conn_close [of c rest bs]
    by (auto simp: decode_frame_select frame_types vlint_consts frame_decoders_def)
qed (use assms in \<open>auto simp: decode_frame_select frame_types vlint_consts frame_decoders_def decoder_defs packet_simps\<close>)

interpretation wire: codec encode_frame decode_frame frame_bytes frame_ok
  by unfold_locales (auto intro: wp_spec_frame decode_frame_bytes)

section \<open>ACK frames\<close>

fun ack_tail :: "OSSL_QUIC_ACK_RANGE \<Rightarrow> OSSL_QUIC_ACK_RANGE list \<Rightarrow> u8 list option list" where
  "ack_tail prev [] = []"
| "ack_tail prev (r # rs) =
     vl (r_start prev - r_end r - 2) # vl (r_end r - r_start r) # ack_tail r rs"

definition ack_bytes :: "u32 \<Rightarrow> OSSL_QUIC_FRAME_ACK \<Rightarrow> u8 list option" where
  "ack_bytes e a = (case ack_ranges a of [] \<Rightarrow> None | r # rs \<Rightarrow>
     cat ([vl (if ecn_present a then OSSL_QUIC_FRAME_TYPE_ACK_WITH_ECN
               else OSSL_QUIC_FRAME_TYPE_ACK_WITHOUT_ECN), vl (r_end r),
           vl (ack_delay_enc e (delay_time a)), vl (of_nat (length (ack_ranges a)) - 1),
           vl (r_end r - r_start r), cat (ack_tail r rs)] @
          (if ecn_present a then [vl (ect0 a), vl (ect1 a), vl (ecnce a)] else [])))"

lemma wp_spec_ack_ranges: "wp_spec (encode_ack_ranges prev rs) (cat (ack_tail prev rs))"
proof (induction prev rs rule: ack_tail.induct)
  case (1 prev)
  have "encode_ack_ranges prev [] = wp_all []"
    by (rule ext) (simp add: wp_all.simps)
  then show ?case using wp_spec_Nil by simp
next
  case (2 prev r rs)
  have eq: "encode_ack_ranges prev (r # rs) = wp_all [WPACKET_quic_write_vlint (r_start prev - r_end r - 2),
      WPACKET_quic_write_vlint (r_end r - r_start r), encode_ack_ranges r rs]"
    by (rule ext) (simp add: Let_def)
  have "wp_spec (encode_ack_ranges prev (r # rs))
    (cat [vl (r_start prev - r_end r - 2), vl (r_end r - r_start r), cat (ack_tail r rs)])"
    unfolding eq using 2 by (intro wp_spec_all) (simp add: wp_specs)
  moreover have "cat [vl (r_start prev - r_end r - 2), vl (r_end r - r_start r), cat (ack_tail r rs)] =
    cat (ack_tail prev (r # rs))"
    by (auto simp: cat_eq)
  ultimately show ?case by (simp only:)
qed

lemma wp_spec_ack: "wp_spec (ossl_quic_wire_encode_frame_ack e a) (ack_bytes e a)"
proof (cases "ack_ranges a")
  case Nil
  then have "ossl_quic_wire_encode_frame_ack e a = (\<lambda>pkt. (pkt, False))"
    by (intro ext) (simp add: ossl_quic_wire_encode_frame_ack_def)
  with Nil wp_spec_fail show ?thesis by (simp add: ack_bytes_def)
next
  case (Cons r rs)
  then have eq: "ossl_quic_wire_encode_frame_ack e a =
    wp_all ([encode_frame_hdr (if ecn_present a then OSSL_QUIC_FRAME_TYPE_ACK_WITH_ECN
                        else OSSL_QUIC_FRAME_TYPE_ACK_WITHOUT_ECN), WPACKET_quic_write_vlint (r_end r),
                    WPACKET_quic_write_vlint (ack_delay_enc e (delay_time a)),
                    WPACKET_quic_write_vlint (of_nat (length (ack_ranges a)) - 1),
                    WPACKET_quic_write_vlint (r_end r - r_start r), encode_ack_ranges r rs] @
                   (if ecn_present a then
                      [WPACKET_quic_write_vlint (ect0 a), WPACKET_quic_write_vlint (ect1 a),
                       WPACKET_quic_write_vlint (ecnce a)]
                    else []))"
    by (intro ext) (simp add: ossl_quic_wire_encode_frame_ack_def)
  show ?thesis
    unfolding eq ack_bytes_def Cons list.case
    by (rule wp_spec_all) (simp add: wp_specs wp_spec_ack_ranges)
qed

text \<open>The two halves of the ACK Delay field: the decoder gives the delay rounded down to its granularity.\<close>

lemma unat_two_power: "e \<le> 20 \<Longrightarrow> unat (2 ^ e :: u64) = 2 ^ e"
proof -
  assume e: "e \<le> 20"
  have "(2::nat) ^ e \<le> 2 ^ 20" using e by (intro power_increasing) auto
  then have "unat (of_nat (2 ^ e) :: u64) = 2 ^ e"
    by (simp only: unat_of_nat) (simp add: take_bit_nat_def)
  then show ?thesis by simp
qed

lemma ack_delay_roundtrip:
  assumes "unat e \<le> 20"
  shows "ack_delay_enc e d \<le> OSSL_QUIC_VLINT_MAX"
    and "unat (ack_delay_dec e (ack_delay_enc e d)) = unat d div (1000 * 2 ^ unat e) * (1000 * 2 ^ unat e)"
proof -
  let ?g = "2 ^ unat e :: nat"
  have us: "unat OSSL_TIME_US = 1000"
    by (simp add: OSSL_TIME_US_def OSSL_TIME_MS_def OSSL_TIME_SECOND_def)
  have g: "unat (2 ^ unat e :: u64) = ?g" using assms by (rule unat_two_power)
  have enc: "unat (ack_delay_enc e d) = unat d div (1000 * ?g)"
    by (simp add: ack_delay_enc_def unat_time us g div_mult2_eq)
  have "unat d div (1000 * ?g) \<le> unat d div 1000"
    by (simp add: div_mult2_eq div_le_dividend)
  moreover have "unat d div 1000 \<le> 18446744073709551615 div 1000"
    by (intro div_le_mono) simp
  ultimately show "ack_delay_enc e d \<le> OSSL_QUIC_VLINT_MAX"
    by (simp add: u64_nat enc vlint_consts)
  have le: "unat d div (1000 * ?g) * (1000 * ?g) \<le> unat d" by (rule div_times_less_eq_dividend)
  then have le': "unat d div (1000 * ?g) * ?g \<le> unat d" by (simp add: algebra_simps)
  note lt = order.strict_trans1 [OF le' unat_u64_lt]
  have sm: "safe_mul_u64 (ack_delay_enc e d) (2 ^ unat e) = (ack_delay_enc e d * 2 ^ unat e, False)"
    using lt by (simp add: safe_mul_u64_def enc g)
  have "unat (ack_delay_enc e d * 2 ^ unat e) = unat d div (1000 * ?g) * ?g"
    using lt by (simp add: unat_u64_mult enc g)
  then show "unat (ack_delay_dec e (ack_delay_enc e d)) = unat d div (1000 * ?g) * (1000 * ?g)"
    using order.trans [OF le unat_u64_le] by (simp add: ack_delay_dec_def sm unat_time us algebra_simps)
qed

lemma range_gap:
  assumes "r_end r < (start :: u64)" "start - r_end r - 2 \<le> OSSL_QUIC_VLINT_MAX"
  shows "\<not> start < (start - r_end r - 2) + 2" "start - (start - r_end r - 2) - 2 = r_end r"
proof -
  have "r_end r + 2 \<le> start \<and> unat (r_end r + 2) = unat (r_end r) + 2"
  proof (rule ccontr)
    assume n: "\<not> ?thesis"
    have le: "unat (r_end r) + 1 \<le> unat start" using assms(1) by (simp add: u64_nat)
    have "unat start = unat (r_end r) + 1"
    proof (rule ccontr)
      assume "unat start \<noteq> unat (r_end r) + 1"
      with le have le2: "unat (r_end r) + 2 \<le> unat start" by simp
      then have "unat (r_end r) + 2 < 18446744073709551616"
        using unat_u64_lt order.strict_trans1 by blast
      then have "unat (r_end r + 2) = unat (r_end r) + 2" by (simp add: unat_u64_add)
      with le2 n show False by (simp add: u64_nat)
    qed
    then have "start = r_end r + 1"
      using unat_u64_lt [of start] by (intro u64_unat_inj) (simp only: unat_u64_add unat_1)
    then have "start - r_end r - 2 = UINT64_MAX" by simp
    with assms(2) show False by (simp add: vlint_consts)
  qed
  then show "\<not> start < (start - r_end r - 2) + 2"
    by (simp add: u64_nat diff_diff_eq unat_u64_sub)
  show "start - (start - r_end r - 2) - 2 = r_end r" by simp
qed

lemma decode_ack_ranges_tail:
  assumes "ack_ranges_ok (prev # rs)" "cat (ack_tail prev rs) = Some bs" "i + length rs < length arr"
  shows "decode_ack_ranges (length rs) i (r_start prev) (Some arr) (bs @ rest) =
    Some (Some (take (i + 1) arr @ rs @ drop (i + 1 + length rs) arr), rest)"
  using assms
proof (induction rs arbitrary: prev i arr bs)
  case Nil
  then show ?case by simp
next
  case (Cons r rs)
  let ?gap = "r_start prev - r_end r - 2" and ?len = "r_end r - r_start r"
  from Cons.prems obtain bs' where bs': "cat (ack_tail r rs) = Some bs'"
    "bs = ossl_quic_vlint_encode ?gap @ ossl_quic_vlint_encode ?len @ bs'"
    and fit: "?gap \<le> OSSL_QUIC_VLINT_MAX" "?len \<le> OSSL_QUIC_VLINT_MAX"
    by auto
  from Cons.prems(1) have r: "r_end r < r_start prev" "r_start r \<le> r_end r" "ack_ranges_ok (r # rs)"
    by auto
  note gap = range_gap [OF r(1) fit(1)]
  have len: "\<not> r_end r < ?len" "r_end r - ?len = r_start r" "\<lparr>r_start = r_start r, r_end = r_end r\<rparr> = r"
    using r(2) by (auto simp: u64_nat unat_u64_sub)
  have step: "decode_ack_ranges (length (r # rs)) i (r_start prev) (Some arr) (bs @ rest) =
    decode_ack_ranges (length rs) (i + 1) (r_start r) (Some (arr[i + 1 := r])) (bs' @ rest)"
    using Cons.prems(3) gap len fit
    by (simp add: bs'(2) packet_simps Let_def del: diff_diff_eq) (cases r; simp)
  have "i + 1 + length rs < length (arr[i + 1 := r])" using Cons.prems(3) by simp
  note IH = Cons.IH [OF r(3) bs'(1) this]
  have "take (i + 1 + 1) (arr[i + 1 := r]) = take (i + 1) arr @ [r]"
    using Cons.prems(3) by (simp add: take_Suc_conv_app_nth take_update_cancel)
  then show ?case
    unfolding step IH using Cons.prems(3) by (simp add: drop_update_cancel)
qed

text \<open>What a receiver sees of a frame sent as \<open>a\<close>, in a structure that held \<open>a0\<close> before.\<close>

definition received_ack :: "u32 \<Rightarrow> OSSL_QUIC_FRAME_ACK \<Rightarrow> OSSL_QUIC_FRAME_ACK \<Rightarrow> OSSL_QUIC_FRAME_ACK" where
  "received_ack e a a0 =
     \<lparr>ack_ranges = ack_ranges a,
      delay_time = of_nat (unat (delay_time a) div (1000 * 2 ^ unat e) * (1000 * 2 ^ unat e)),
      ect0 = if ecn_present a then ect0 a else ect0 a0,
      ect1 = if ecn_present a then ect1 a else ect1 a0,
      ecnce = if ecn_present a then ecnce a else ecnce a0, ecn_present = ecn_present a\<rparr>"

lemma ack_count:
  assumes "length (rs :: OSSL_QUIC_ACK_RANGE list) = Suc n" "length rs < 2 ^ 64"
  shows "of_nat (length rs) - 1 = (of_nat n :: u64)" "unat (of_nat n :: u64) = n"
  using assms by (simp_all add: unat_of_nat take_bit_nat_def)

lemma decode_ack_bytes:
  assumes ok: "ack_ranges_ok (ack_ranges a)" and bs: "ack_bytes e a = Some bs" and e: "unat e \<le> 20"
    and room: "length (ack_ranges a) \<le> length (ack_ranges a0)" "length (ack_ranges a) < 2 ^ 64"
  shows "ossl_quic_wire_decode_frame_ack (bs @ rest) e (Some a0) =
    Some (Some (received_ack e a a0), of_nat (length (ack_ranges a)), rest)"
proof -
  from bs obtain r rs where rs: "ack_ranges a = r # rs"
    by (auto simp: ack_bytes_def split: list.splits)
  from room rs obtain x xs where xs: "ack_ranges a0 = x # xs" by (cases "ack_ranges a0") auto
  have cnt: "of_nat (length (ack_ranges a)) - 1 = (of_nat (length rs) :: u64)"
    "unat (of_nat (length rs) :: u64) = length rs"
    using ack_count [of "r # rs" "length rs"] room(2) by (simp_all add: rs)
  from ok rs have r: "r_start r \<le> r_end r" "ack_ranges_ok (r # rs)" by auto
  have first: "\<not> r_end r < r_end r - r_start r" "r_end r - (r_end r - r_start r) = r_start r"
    "\<lparr>r_start = r_start r, r_end = r_end r\<rparr> = r"
    using r(1) by (auto simp: u64_nat unat_u64_sub)
  note dl = ack_delay_roundtrip [OF e, of "delay_time a"]
  have dl': "ack_delay_dec e (ack_delay_enc e (delay_time a)) =
    of_nat (unat (delay_time a) div (1000 * 2 ^ unat e) * (1000 * 2 ^ unat e))"
    unfolding dl(2) [symmetric] by simp
  have tail: "cat (ack_tail r rs) = Some tl \<Longrightarrow>
    decode_ack_ranges (length rs) 0 (r_start r) (Some (r # xs)) (tl @ rest') =
    Some (Some (r # rs @ drop (length rs) xs), rest')" for tl rest'
    using decode_ack_ranges_tail [OF r(2), of tl 0 "r # xs" rest'] room(1) rs xs by simp
  define ft where "ft = (if ecn_present a then OSSL_QUIC_FRAME_TYPE_ACK_WITH_ECN
    else OSSL_QUIC_FRAME_TYPE_ACK_WITHOUT_ECN)"
  have ft: "ft \<le> OSSL_QUIC_VLINT_MAX" "ft AND NOT 1 = OSSL_QUIC_FRAME_TYPE_ACK_WITHOUT_ECN"
    "ft = OSSL_QUIC_FRAME_TYPE_ACK_WITH_ECN \<longleftrightarrow> ecn_present a"
    by (simp_all add: ft_def frame_types vlint_consts)
  define eb where "eb = (if ecn_present a then ossl_quic_vlint_encode (ect0 a) @
    ossl_quic_vlint_encode (ect1 a) @ ossl_quic_vlint_encode (ecnce a) else [])"
  obtain tl where tl: "cat (ack_tail r rs) = Some tl"
    "bs = ossl_quic_vlint_encode ft @ ossl_quic_vlint_encode (r_end r) @
      ossl_quic_vlint_encode (ack_delay_enc e (delay_time a)) @ ossl_quic_vlint_encode (of_nat (length rs)) @
      ossl_quic_vlint_encode (r_end r - r_start r) @ tl @ eb"
    "r_end r \<le> OSSL_QUIC_VLINT_MAX" "of_nat (length rs) \<le> OSSL_QUIC_VLINT_MAX"
    "r_end r - r_start r \<le> OSSL_QUIC_VLINT_MAX"
    "ecn_present a \<Longrightarrow> ect0 a \<le> OSSL_QUIC_VLINT_MAX \<and> ect1 a \<le> OSSL_QUIC_VLINT_MAX \<and>
      ecnce a \<le> OSSL_QUIC_VLINT_MAX"
    using bs cnt(1) by (cases "ecn_present a") (auto simp: ack_bytes_def rs ft_def eb_def)
  have tailx: "decode_ack_ranges (length rs) 0 (r_start r)
      (Some (\<lparr>r_start = r_start r, r_end = r_end r\<rparr> # xs)) (tl @ rest') =
    Some (Some (r # rs @ drop (length rs) xs), rest')" for rest'
    unfolding first(3) by (rule tail [OF tl(1)])
  note facts = ft first(1,2) dl(1) cnt tailx xs rs tl
  show ?thesis
  proof (cases "ecn_present a")
    case True
    with facts show ?thesis
      by (simp add: ossl_quic_wire_decode_frame_ack_def packet_simps Let_def received_ack_def dl' eb_def)
  next
    case False
    with facts show ?thesis
      by (simp add: ossl_quic_wire_decode_frame_ack_def packet_simps Let_def received_ack_def dl' eb_def)
  qed
qed

section \<open>What the ACK decoder guarantees on any input\<close>

lemma ack_ranges_ok_snoc:
  assumes "ack_ranges_ok xs" "xs \<noteq> []" "r_end r < r_start (last xs)" "r_start r \<le> r_end r"
  shows "ack_ranges_ok (xs @ [r])"
proof (cases xs rule: rev_cases)
  case (snoc ys l)
  have "r_end r < r_start x" if "x \<in> set ys" for x
  proof -
    from that assms(1) snoc have "r_end l < r_start x" "r_start l \<le> r_end l"
      by (auto simp: ack_ranges_ok_def sorted_wrt_append)
    with assms(3) snoc show ?thesis by simp
  qed
  with assms snoc show ?thesis
    by (auto simp: ack_ranges_ok_def sorted_wrt_append)
qed (use assms in simp)

lemma decode_ack_ranges_sound:
  assumes "decode_ack_ranges n i start (Some arr) pkt = Some (res, pkt')"
    and "0 < length arr" "ack_ranges_ok (take (i + 1) arr)"
    and "start = r_start (last (take (i + 1) arr))"
  shows "\<exists>arr'. res = Some arr' \<and> length arr' = length arr \<and> arr' ! 0 = arr ! 0 \<and>
    ack_ranges_ok (take (i + 1 + n) arr')"
  using assms
proof (induction n arbitrary: i start arr pkt)
  case 0
  then show ?case by auto
next
  case (Suc n)
  from Suc.prems(1) obtain gap len pkt1 pkt2 where g: "PACKET_get_quic_vlint pkt = Some (gap, pkt1)"
    "PACKET_get_quic_vlint pkt1 = Some (len, pkt2)"
    and v: "\<not> start < gap + 2" "\<not> start - gap - 2 < len"
    by (auto simp: bind_eq_Some_conv Let_def split: if_splits)
  let ?e = "start - gap - 2"
  let ?r = "\<lparr>r_start = ?e - len, r_end = ?e\<rparr> :: OSSL_QUIC_ACK_RANGE"
  show ?case
  proof (cases "i + 1 < length arr")
    case True
    with Suc.prems(1) g v have run: "decode_ack_ranges n (i + 1) (?e - len)
        (Some (arr[i + 1 := ?r])) pkt2 = Some (res, pkt')"
      by (simp add: Let_def)
    have "unat gap + 2 < 18446744073709551616"
      using PACKET_get_quic_vlint_Some(1) [OF g(1)] by (simp add: vlint_consts u64_nat)
    then have "?e < start"
      using v(1) by (simp add: u64_nat unat_u64_add unat_u64_sub diff_diff_eq)
    moreover have "?e - len \<le> ?e"
      using v(2) unat_u64_sub [of len ?e] by (simp add: not_less word_le_nat_alt)
    ultimately have "?e < start" "?e - len \<le> ?e" .
    then have snoc: "ack_ranges_ok (take (i + 1) arr @ [?r])"
      using Suc.prems(2,3,4) by (intro ack_ranges_ok_snoc) auto
    have "take (i + 1 + 1) (arr[i + 1 := ?r]) = take (i + 1) arr @ [?r]"
      using True by (simp add: take_Suc_conv_app_nth take_update_cancel)
    then show ?thesis
      using Suc.IH [OF run] snoc Suc.prems(2) by simp
  next
    case False
    with Suc.prems(1) g v have run: "decode_ack_ranges n (i + 1) start (Some arr) pkt2 = Some (res, pkt')"
      by (simp add: Let_def)
    from False have "take (i + 1 + 1) arr = take (i + 1) arr" by simp
    then show ?thesis
      using Suc.IH [OF run] Suc.prems(2-4) by simp
  qed
qed

lemma skip_ack_ranges_ok:
  assumes "decode_ack_ranges n i start rs pkt1 = Some (res, pkt')"
    and "PACKET_get_quic_vlint pkt = Some (v, pkt1)"
  shows "\<exists>p. skip_ack_ranges n pkt = Some p"
  using assms
proof (induction n arbitrary: i start rs pkt pkt1 v)
  case (Suc n)
  from Suc.prems(1) obtain gap len pkt2 pkt3 i' start' rs' where
    g: "PACKET_get_quic_vlint pkt1 = Some (gap, pkt2)" "PACKET_get_quic_vlint pkt2 = Some (len, pkt3)"
    and run: "decode_ack_ranges n i' start' rs' pkt3 = Some (res, pkt')"
    by (auto simp: bind_eq_Some_conv Let_def split: if_splits option.splits)
  from Suc.IH [OF run g(2)] Suc.prems(2) g show ?case
    by (simp add: PACKET_skip_quic_vlint_eq)
qed simp

text \<open>What a successful decode went through.\<close>

lemma decode_ack_ranges_array:
  "decode_ack_ranges n i start rs pkt = Some (res, pkt') \<Longrightarrow> res = None \<longleftrightarrow> rs = None"
proof (induction n arbitrary: i start rs pkt)
  case (Suc n)
  then show ?case
    by (fastforce simp: bind_eq_Some_conv Let_def split: if_splits option.splits)
qed auto

lemma take_count: "(if Suc n < length xs then take (n + 1) xs else xs) = take (Suc n) xs"
  by simp

lemma decode_ack_steps:
  assumes "ossl_quic_wire_decode_frame_ack pkt e a = Some (a', tot, rest)"
  obtains ft largest raw count first pkt1 pkt2 pkt3 pkt4 pkt5 pkt6 arr where
    "expect_frame_header_mask pkt OSSL_QUIC_FRAME_TYPE_ACK_WITHOUT_ECN 1 = Some (ft, pkt1)"
    "PACKET_get_quic_vlint pkt1 = Some (largest, pkt2)" "PACKET_get_quic_vlint pkt2 = Some (raw, pkt3)"
    "PACKET_get_quic_vlint pkt3 = Some (count, pkt4)" "PACKET_get_quic_vlint pkt4 = Some (first, pkt5)"
    "first \<le> largest" "tot = count + 1"
    "decode_ack_ranges (unat count) 0 (largest - first) (map_option (\<lambda>a. case ack_ranges a of [] \<Rightarrow> []
       | _ # rs \<Rightarrow> \<lparr>r_start = largest - first, r_end = largest\<rparr> # rs) a) pkt5 = Some (arr, pkt6)"
    "map_option ack_ranges a' = map_option (take (Suc (unat count))) arr"
proof -
  from assms obtain ft largest raw count first pkt1 pkt2 pkt3 pkt4 pkt5 pkt6 arr where steps:
    "expect_frame_header_mask pkt OSSL_QUIC_FRAME_TYPE_ACK_WITHOUT_ECN 1 = Some (ft, pkt1)"
    "PACKET_get_quic_vlint pkt1 = Some (largest, pkt2)" "PACKET_get_quic_vlint pkt2 = Some (raw, pkt3)"
    "PACKET_get_quic_vlint pkt3 = Some (count, pkt4)" "PACKET_get_quic_vlint pkt4 = Some (first, pkt5)"
    "first \<le> largest" "tot = count + 1"
    "decode_ack_ranges (unat count) 0 (largest - first) (map_option (\<lambda>a. case ack_ranges a of [] \<Rightarrow> []
       | _ # rs \<Rightarrow> \<lparr>r_start = largest - first, r_end = largest\<rparr> # rs) a) pkt5 = Some (arr, pkt6)"
    and a': "map_option ack_ranges a' = map_option (\<lambda>_. the (map_option (take (Suc (unat count))) arr)) a"
    unfolding ossl_quic_wire_decode_frame_ack_def
    by (cases a) (auto simp: bind_eq_Some_conv Let_def not_less take_count split: if_splits)
  have "map_option ack_ranges a' = map_option (take (Suc (unat count))) arr"
    using decode_ack_ranges_array [OF steps(8)] a' by (cases a; cases arr) auto
  with steps show ?thesis by (rule that)
qed

lemma decode_ack_peek:
  assumes "ossl_quic_wire_decode_frame_ack pkt e a = Some (a', tot, rest)"
  shows "ossl_quic_wire_peek_frame_ack_num_ranges pkt = Some tot"
proof -
  from assms show ?thesis
  proof (rule decode_ack_steps)
    fix ft largest raw count first pkt1 pkt2 pkt3 pkt4 pkt5 pkt6 arr
    assume s: "expect_frame_header_mask pkt OSSL_QUIC_FRAME_TYPE_ACK_WITHOUT_ECN 1 = Some (ft, pkt1)"
      "PACKET_get_quic_vlint pkt1 = Some (largest, pkt2)" "PACKET_get_quic_vlint pkt2 = Some (raw, pkt3)"
      "PACKET_get_quic_vlint pkt3 = Some (count, pkt4)" "PACKET_get_quic_vlint pkt4 = Some (first, pkt5)"
      "tot = count + 1"
    assume d: "decode_ack_ranges (unat count) 0 (largest - first) (map_option (\<lambda>a. case ack_ranges a of
        [] \<Rightarrow> [] | _ # rs \<Rightarrow> \<lparr>r_start = largest - first, r_end = largest\<rparr> # rs) a) pkt5 = Some (arr, pkt6)"
    from skip_ack_ranges_ok [OF d s(5)] s show ?thesis
      by (auto simp: ossl_quic_wire_peek_frame_ack_num_ranges_def PACKET_skip_quic_vlint_eq)
  qed
qed

lemma ack_ranges_ok_bound:
  "ack_ranges_ok (r # rs) \<Longrightarrow> x \<in> set (r # rs) \<Longrightarrow> r_end x \<le> r_end r"
  by (auto simp: less_imp_le intro: order.trans [OF less_imp_le])

lemma decode_ack_sound:
  assumes dec: "ossl_quic_wire_decode_frame_ack pkt e (Some a) = Some (a', tot, rest)"
    and room: "ack_ranges a \<noteq> []"
  shows "\<exists>b. a' = Some b \<and> ack_ranges_ok (ack_ranges b) \<and>
    length (ack_ranges b) = min (unat tot) (length (ack_ranges a)) \<and> 0 < unat tot \<and>
    (\<forall>r\<in>set (ack_ranges b). ossl_quic_pn_valid (r_end r))"
  using dec
proof (rule decode_ack_steps)
  fix ft largest raw count first pkt1 pkt2 pkt3 pkt4 pkt5 pkt6 arr
  assume l: "PACKET_get_quic_vlint pkt1 = Some (largest, pkt2)" and fl: "first \<le> largest"
    and c: "PACKET_get_quic_vlint pkt3 = Some (count, pkt4)" and tot: "tot = count + 1"
    and d: "decode_ack_ranges (unat count) 0 (largest - first) (map_option (\<lambda>a. case ack_ranges a of
        [] \<Rightarrow> [] | _ # rs \<Rightarrow> \<lparr>r_start = largest - first, r_end = largest\<rparr> # rs) (Some a)) pkt5 = Some (arr, pkt6)"
    and a': "map_option ack_ranges a' = map_option (take (Suc (unat count))) arr"
  from room obtain x xs where xs: "ack_ranges a = x # xs" by (cases "ack_ranges a") auto
  let ?r = "\<lparr>r_start = largest - first, r_end = largest\<rparr> :: OSSL_QUIC_ACK_RANGE"
  have "largest - first \<le> largest" using fl by (simp add: u64_nat unat_u64_sub)
  then obtain arr' where arr': "arr = Some arr'" "length arr' = Suc (length xs)" "arr' ! 0 = ?r"
    "ack_ranges_ok (take (Suc (unat count)) arr')"
    using decode_ack_ranges_sound [OF d [unfolded xs option.map list.case]]
    by (auto simp: ack_ranges_ok_def)
  from a' arr'(1) obtain b where b: "a' = Some b" "ack_ranges b = take (Suc (unat count)) arr'"
    by (cases a') auto
  from arr'(2,3) obtain ys where ys: "arr' = ?r # ys" by (cases arr') auto
  have "r_end y \<le> largest" if "y \<in> set (ack_ranges b)" for y
    using ack_ranges_ok_bound [of ?r "take (unat count) ys" y] arr'(4) that b(2) ys by simp
  moreover have "largest < push_bit 62 1"
    using PACKET_get_quic_vlint_Some(1) [OF l] by (simp add: vlint_consts u64_nat)
  ultimately have "\<forall>r\<in>set (ack_ranges b). ossl_quic_pn_valid (r_end r)"
    by (auto simp: ossl_quic_pn_valid_def intro: order.strict_trans1)
  moreover have "unat tot = Suc (unat count)"
    using PACKET_get_quic_vlint_Some(1) [OF c] by (simp add: tot vlint_consts u64_nat unat_u64_add)
  ultimately show ?thesis
    using b arr' xs by (simp add: min_def)
qed

section \<open>Header lengths, padding and transport parameters\<close>

text \<open>A writer with a known specification succeeds exactly when its bytes fit, and never overruns.\<close>

lemma wp_spec_success:
  assumes "wp_spec f out" "wp_ok pkt"
  shows "snd (f pkt) \<longleftrightarrow> (\<exists>bs. out = Some bs \<and> length bs \<le> wp_room pkt)"
    and "wp_ok (fst (f pkt))" and "maxsize (fst (f pkt)) = maxsize pkt"
    and "\<exists>bs. wp_out (fst (f pkt)) = wp_out pkt @ bs"
proof -
  obtain bs where bs: "length bs \<le> wp_room pkt" "fst (f pkt) = wp_append bs pkt"
    and ok: "snd (f pkt) \<longleftrightarrow> (\<exists>bs. out = Some bs \<and> length bs \<le> wp_room pkt)"
  proof (cases out)
    case None
    with wp_specD_None [of f pkt] assms obtain bs
      where "length bs \<le> wp_room pkt" "f pkt = (wp_append bs pkt, False)" by blast
    with None that show ?thesis by simp
  next
    case (Some bs)
    show ?thesis
    proof (cases "length bs \<le> wp_room pkt")
      case True
      with Some wp_specD_Some(1) [of f bs pkt] assms have "f pkt = (wp_append bs pkt, True)" by simp
      with True Some that show ?thesis by simp
    next
      case False
      with Some wp_specD_Some(2) [of f bs pkt] assms obtain n
        where "length (take n bs) \<le> wp_room pkt" "f pkt = (wp_append (take n bs) pkt, False)" by auto
      with False Some that [of "take n bs"] show ?thesis by simp
    qed
  qed
  show "snd (f pkt) \<longleftrightarrow> (\<exists>bs. out = Some bs \<and> length bs \<le> wp_room pkt)" by (rule ok)
  show "wp_ok (fst (f pkt))" using wp_ok_append [OF assms(2) bs(1)] bs(2) by simp
  show "maxsize (fst (f pkt)) = maxsize pkt" using bs(2) by simp
  show "\<exists>bs. wp_out (fst (f pkt)) = wp_out pkt @ bs"
    using wp_out_append [OF assms(2) bs(1)] bs(2) by auto
qed

lemma encode_len_vl: "ossl_quic_vlint_encode_len v = (case vl v of None \<Rightarrow> 0 | Some x \<Rightarrow> length x)"
  using encode_len_0_iff [of v] by (auto simp: vl_def not_le)

lemma vl_nonempty: "vl v = Some x \<Longrightarrow> x \<noteq> []"
  using encode_len_pos [of v] length_encode [of v] by (metis length_0_conv less_numeral_extra(3) vl_Some)

definition stream_hdr_bytes :: "OSSL_QUIC_FRAME_STREAM \<Rightarrow> u8 list option" where
  "stream_hdr_bytes f = cat [vl (stream_frame_type f), vl (sf_stream_id f),
       if sf_offset f \<noteq> 0 then vl (sf_offset f) else Some [],
       if sf_has_explicit_len f then vl (sf_len f) else Some []]"

lemma stream_hdr_len_bytes:
  "ossl_quic_wire_get_encoded_frame_len_stream_hdr f =
     (case stream_hdr_bytes f of None \<Rightarrow> 0 | Some bs \<Rightarrow> length bs)"
  "stream_hdr_bytes f = Some bs \<Longrightarrow> 0 < length bs"
proof -
  have one: "ossl_quic_vlint_encode_len (stream_frame_type f) = 1"
    "ossl_quic_vlint_encode_len OSSL_QUIC_FRAME_TYPE_STREAM = 1"
    by (auto simp: stream_frame_type_def Let_def frame_types ossl_quic_vlint_encode_len_def vlint_consts)
  then obtain t where t: "vl (stream_frame_type f) = Some t" "length t = 1"
    using stream_frame_type_props(1) [of f] by (simp add: vl_def)
  have pos: "0 < w \<longleftrightarrow> w \<noteq> 0" for w :: u64 by (simp add: word_gt_0)
  note ne = vl_nonempty [of "sf_stream_id f"] vl_nonempty [of "sf_offset f"] vl_nonempty [of "sf_len f"]
  show "ossl_quic_wire_get_encoded_frame_len_stream_hdr f =
     (case stream_hdr_bytes f of None \<Rightarrow> 0 | Some bs \<Rightarrow> length bs)"
    using t ne
    by (cases "vl (sf_stream_id f)"; cases "vl (sf_offset f)"; cases "vl (sf_len f)")
       (simp_all add: ossl_quic_wire_get_encoded_frame_len_stream_hdr_def Let_def one(2)
         encode_len_vl [of "sf_stream_id f"] encode_len_vl [of "sf_offset f"] encode_len_vl [of "sf_len f"]
         stream_hdr_bytes_def cat.simps pos del: vl_Some)
  show "stream_hdr_bytes f = Some bs \<Longrightarrow> 0 < length bs"
    using t by (auto simp: stream_hdr_bytes_def simp del: vl_Some)
qed

lemma decode_padding_replicate:
  assumes "rest = [] \<or> hd rest \<noteq> 0"
  shows "ossl_quic_wire_decode_padding (replicate n 0 @ rest) = (n, rest)"
proof -
  have "takeWhile (\<lambda>b. b = 0) (replicate n (0 :: u8) @ rest) = replicate n 0"
    using assms by (induction n) (cases rest; simp)+
  then show ?thesis
    by (simp add: ossl_quic_wire_decode_padding_def packet_simps)
qed

text \<open>The three forms of a transport parameter, with the value the decoder of that form gives.\<close>

datatype tparam =
    TP_Bytes u64 "u8 list"
  | TP_Int u64 u64
  | TP_Cid u64 QUIC_CONN_ID

fun encode_tparam :: "tparam \<Rightarrow> WPACKET \<Rightarrow> WPACKET \<times> bool" where
  "encode_tparam (TP_Bytes i v) pkt =
     apsnd (\<lambda>p. p \<noteq> None) (ossl_quic_wire_encode_transport_param_bytes i (Some v) (of_nat (length v)) pkt)"
| "encode_tparam (TP_Int i v) pkt = ossl_quic_wire_encode_transport_param_int i v pkt"
| "encode_tparam (TP_Cid i c) pkt = ossl_quic_wire_encode_transport_param_cid i c pkt"

fun decode_tparam_as :: "tparam \<Rightarrow> PACKET \<Rightarrow> (tparam \<times> PACKET) option" where
  "decode_tparam_as (TP_Bytes _ _) pkt =
     map_option (apfst (case_prod TP_Bytes)) (ossl_quic_wire_decode_transport_param_bytes pkt)"
| "decode_tparam_as (TP_Int _ _) pkt =
     map_option (apfst (case_prod TP_Int)) (ossl_quic_wire_decode_transport_param_int pkt)"
| "decode_tparam_as (TP_Cid _ _) pkt =
     map_option (apfst (case_prod TP_Cid))
       (ossl_quic_wire_decode_transport_param_cid pkt \<lparr>id_len = 0, cid_id = replicate QUIC_MAX_CONN_ID_LEN 0\<rparr>)"

fun tparam_bytes :: "tparam \<Rightarrow> u8 list option" where
  "tparam_bytes (TP_Bytes i v) = cat [vl i, vl (of_nat (length v)), Some v]"
| "tparam_bytes (TP_Int i v) = cat [vl i, vl (of_nat (ossl_quic_vlint_encode_len v)), vl v]"
| "tparam_bytes (TP_Cid i c) =
     cat [vl i, vl (ucast (id_len c)), Some (take (unat (id_len c)) (cid_id c))]"

fun tparam_ok :: "tparam \<Rightarrow> bool" where
  "tparam_ok (TP_Bytes i v) \<longleftrightarrow> length v < 2 ^ 64"
| "tparam_ok (TP_Int i v) \<longleftrightarrow> True"
| "tparam_ok (TP_Cid i c) \<longleftrightarrow> unat (id_len c) \<le> QUIC_MAX_CONN_ID_LEN \<and>
     length (cid_id c) = QUIC_MAX_CONN_ID_LEN \<and>
     drop (unat (id_len c)) (cid_id c) = replicate (QUIC_MAX_CONN_ID_LEN - unat (id_len c)) 0"

lemma encode_tparam_bytes_eq:
  "apsnd (\<lambda>p. p \<noteq> None) (ossl_quic_wire_encode_transport_param_bytes i (Some v) n pkt) =
   wp_all [WPACKET_quic_write_vlint i, WPACKET_quic_write_vlint n, WPACKET_memcpy v (unat n)] pkt"
  by (auto simp: ossl_quic_wire_encode_transport_param_bytes_def wp_all.simps WPACKET_memcpy_def
      unat_eq_0 WPACKET_get_curr_def wp_store_def split: prod.splits option.splits if_splits)

lemma wp_spec_tparam:
  assumes "tparam_ok t"
  shows "wp_spec (encode_tparam t) (tparam_bytes t)"
proof (cases t)
  case (TP_Bytes i v)
  then have eq: "encode_tparam t = wp_all [WPACKET_quic_write_vlint i,
      WPACKET_quic_write_vlint (of_nat (length v)), WPACKET_memcpy v (length v)]"
    using assms by (intro ext) (simp add: encode_tparam_bytes_eq unat_of_nat take_bit_nat_def del: not_None_eq)
  show ?thesis
    unfolding eq unfolding TP_Bytes tparam_bytes.simps using wp_spec_memcpy [of "length v" v]
    by (intro wp_spec_all) (simp add: wp_specs)
next
  case (TP_Int i v)
  then have eq: "encode_tparam t = ossl_quic_wire_encode_transport_param_int i v" by (intro ext) simp
  show ?thesis
    unfolding eq unfolding TP_Int tparam_bytes.simps ossl_quic_wire_encode_transport_param_int_def
    by (intro wp_spec_all) (simp add: wp_specs)
next
  case (TP_Cid i c)
  have u: "unat (ucast (id_len c) :: u64) = unat (id_len c)"
    using unsigned_less [of "id_len c", where 'a = nat] by (simp add: unsigned_ucast_eq take_bit_nat_eq_self)
  have "encode_tparam t = wp_all [WPACKET_quic_write_vlint i, WPACKET_quic_write_vlint (ucast (id_len c)),
      WPACKET_memcpy (cid_id c) (unat (id_len c))]"
  proof (rule ext)
    fix pkt
    have "encode_tparam t pkt = apsnd (\<lambda>p. p \<noteq> None)
        (ossl_quic_wire_encode_transport_param_bytes i (Some (cid_id c)) (ucast (id_len c)) pkt)"
      using assms TP_Cid
      by (auto simp: ossl_quic_wire_encode_transport_param_cid_def split: prod.splits option.splits)
    then show "encode_tparam t pkt = wp_all [WPACKET_quic_write_vlint i,
        WPACKET_quic_write_vlint (ucast (id_len c)), WPACKET_memcpy (cid_id c) (unat (id_len c))] pkt"
      by (simp only: encode_tparam_bytes_eq u)
  qed
  then show ?thesis
    using assms wp_spec_memcpy [of "unat (id_len c)" "cid_id c"] unfolding TP_Cid tparam_bytes.simps
    by (simp only:) (intro wp_spec_all, simp add: wp_specs)
qed

lemma get_vlint_all: "v \<le> OSSL_QUIC_VLINT_MAX \<Longrightarrow>
   PACKET_get_quic_vlint (ossl_quic_vlint_encode v) = Some (v, [])"
  using PACKET_get_quic_vlint_encode [of v "[]"] by simp

lemma decode_tparam_bytes:
  assumes "tparam_ok t" "tparam_bytes t = Some bs"
  shows "decode_tparam_as t (bs @ rest) = Some (t, rest)"
proof (cases t)
  case (TP_Bytes i v)
  with assms show ?thesis
    by (auto simp: ossl_quic_wire_decode_transport_param_bytes_def packet_simps unat_of_nat take_bit_nat_def)
next
  case (TP_Int i v)
  have "unat (of_nat (ossl_quic_vlint_encode_len v) :: u64) = ossl_quic_vlint_encode_len v"
    using encode_len_cases [of v] by auto
  with TP_Int assms show ?thesis
    by (auto simp: ossl_quic_wire_decode_transport_param_int_def get_vlint_all
        ossl_quic_wire_decode_transport_param_bytes_def packet_simps PACKET_remaining_def)
next
  case (TP_Cid i c)
  have u: "unat (ucast (id_len c) :: u64) = unat (id_len c)" "of_nat (unat (id_len c)) = id_len c"
    using unsigned_less [of "id_len c", where 'a = nat]
    by (simp_all add: unsigned_ucast_eq take_bit_nat_eq_self)
  have c: "take (unat (id_len c)) (cid_id c) @ replicate (QUIC_MAX_CONN_ID_LEN - unat (id_len c)) 0 = cid_id c"
    using assms(1) TP_Cid append_take_drop_id [of "unat (id_len c)" "cid_id c"] by auto
  define body where "body = take (unat (id_len c)) (cid_id c)"
  from TP_Cid assms have bs: "bs = ossl_quic_vlint_encode i @ ossl_quic_vlint_encode (ucast (id_len c)) @ body"
    and le: "i \<le> OSSL_QUIC_VLINT_MAX" "ucast (id_len c) \<le> OSSL_QUIC_VLINT_MAX"
      "\<not> QUIC_MAX_CONN_ID_LEN < unat (id_len c)" "length body = unat (id_len c)"
    by (auto simp: body_def)
  show ?thesis
    unfolding TP_Cid bs using le u c
    by (simp add: ossl_quic_wire_decode_transport_param_cid_def
        ossl_quic_wire_decode_transport_param_bytes_def packet_simps flip: body_def)
qed

end
