(* ===== verification/Wire_Props.thy ===== *)
theory Wire_Props
  imports Quic_Codec
begin

text \<open>
  The properties of the variable-length integers and of the frame codec, each with a concrete instance.
\<close>

definition buf_example :: WPACKET where
  "buf_example = \<lparr>staticbuf = replicate 24 0xFF, written = 0, maxsize = 24\<rparr>"

definition stream_example :: OSSL_QUIC_FRAME_STREAM where
  "stream_example = \<lparr>sf_stream_id = 4, sf_offset = 70, sf_len = 3, sf_data = Some [1, 2, 3],
     sf_has_explicit_len = True, sf_is_fin = True\<rparr>"

definition wire_ack_example :: OSSL_QUIC_FRAME_ACK where
  "wire_ack_example = \<lparr>ack_ranges = [\<lparr>r_start = 90, r_end = 100\<rparr>, \<lparr>r_start = 5, r_end = 80\<rparr>],
     delay_time = 25001234, ect0 = 0, ect1 = 0, ecnce = 0, ecn_present = False\<rparr>"

definition ack_slots :: "nat \<Rightarrow> OSSL_QUIC_FRAME_ACK" where
  "ack_slots n = \<lparr>ack_ranges = replicate n \<lparr>r_start = 0, r_end = 0\<rparr>, delay_time = 0, ect0 = 0, ect1 = 0,
     ecnce = 0, ecn_present = False\<rparr>"

lemma buf_example_ok: "wp_ok buf_example"
  by (simp add: buf_example_def wp_ok_def)

lemma get_vlint_one_byte:
  assumes "b < 64"
  shows "PACKET_get_quic_vlint (b # rest) = Some (ucast b, rest)"
proof -
  let ?v = "ucast b :: u64"
  have u: "unat ?v = unat b"
    using unsigned_less [of b, where 'a = nat] by (simp add: unsigned_ucast_eq take_bit_nat_eq_self)
  then have lt: "?v < OSSL_QUIC_VLINT_2B_MIN" and le: "?v \<le> OSSL_QUIC_VLINT_MAX"
    using assms by (simp_all add: word_less_nat_alt word_le_nat_alt vlint_consts)
  then have "ossl_quic_vlint_encode ?v = [b]"
    by (simp add: ossl_quic_vlint_encode_def ossl_quic_vlint_encode_len_def ossl_quic_vlint_encode_n_def
        ucast_down_up)
  then show ?thesis
    using PACKET_get_quic_vlint_encode [OF le, of rest] by simp
qed

lemma decode_two_ranges: "decode_ack_ranges 2 i start rs pkt = decode_ack_ranges (Suc (Suc 0)) i start rs pkt"
  by (simp only: numeral_2_eq_2)

lemma replicate_two_three: "replicate 2 x = [x, x]" "replicate 3 x = [x, x, x]"
  by (simp_all add: numeral_eq_Suc)

lemmas decode_ack_eval = ossl_quic_wire_decode_frame_ack_def expect_frame_header_mask_def
  ossl_quic_wire_skip_frame_header_def get_vlint_one_byte frame_types ack_slots_def Let_def
  ack_delay_dec_def safe_mul_u64_def ossl_time_multiply_def OSSL_TIME_US_def OSSL_TIME_MS_def
  OSSL_TIME_SECOND_def decode_two_ranges replicate_two_three

section \<open>Variable-length integers\<close>

text \<open>
  C36: Every value up to \<open>OSSL_QUIC_VLINT_MAX\<close> is written by \<open>ossl_quic_vlint_encode\<close> in the fewest bytes a
  variable-length integer of that value can take, and \<open>ossl_quic_vlint_decode\<close> reads it back from those
  bytes, whatever follows them, together with their number; conversely re-encoding a decoded value in
  the length it was read from gives the bytes that were read.
\<close>
theorem vlint_round_trip:
  assumes "v \<le> OSSL_QUIC_VLINT_MAX" "ossl_quic_vlint_decode buf = Some (n, w)"
  shows "ossl_quic_vlint_decode (ossl_quic_vlint_encode v @ rest) = Some (ossl_quic_vlint_encode_len v, v) \<and>
    (w = v \<longrightarrow> ossl_quic_vlint_encode_len v \<le> n) \<and> ossl_quic_vlint_encode_n w n = take n buf"
proof -
  have "ossl_quic_vlint_decode (ossl_quic_vlint_encode v @ rest) = Some (ossl_quic_vlint_encode_len v, v)"
    using decode_encode_n [OF encode_len_valid [OF assms(1)] vlint_fits_encode_len [OF assms(1)]]
    by (simp add: ossl_quic_vlint_encode_def)
  moreover have "ossl_quic_vlint_encode_len v \<le> n" if "w = v"
    using encode_len_least [OF decode_bounds(2) [OF assms(2)] decode_fits [OF assms(2)]] that by simp
  ultimately show ?thesis
    using encode_n_decode [OF assms(2)] by simp
qed

theorem vlint_round_trip_witness:
  "(300 :: u64) \<le> OSSL_QUIC_VLINT_MAX \<and> ossl_quic_vlint_decode [0x80, 0, 0x01, 0x2C, 7] = Some (4, 300) \<and>
   ossl_quic_vlint_decode (ossl_quic_vlint_encode 300 @ [9]) = Some (ossl_quic_vlint_encode_len 300, 300) \<and>
   ossl_quic_vlint_encode_len 300 \<le> 4 \<and> ossl_quic_vlint_encode_n 300 4 = take 4 [0x80, 0, 0x01, 0x2C, 7]"
proof -
  have "(300 :: u64) \<le> OSSL_QUIC_VLINT_MAX" by (simp add: vlint_consts)
  moreover have "ossl_quic_vlint_decode [0x80, 0, 0x01, 0x2C, 7] = Some (4, 300)" by code_simp
  ultimately show ?thesis
    using vlint_round_trip [of 300 "[0x80, 0, 0x01, 0x2C, 7]" 4 300 "[9]"] by blast
qed

section \<open>Frames\<close>



text \<open>
  An encoder succeeds exactly when every field of the frame has an encoding (no value above
  \<open>2^62 - 1\<close>) and the frame fits in the room left; on failure too it only appends, stays within the size
  limit of the packet and leaves it usable.
\<close>
theorem wire_frame_encode_exact:
  assumes "frame_ok f rest" "wp_ok pkt"
  shows "(snd (encode_frame f pkt) \<longleftrightarrow> (\<exists>bs. frame_bytes f = Some bs \<and> length bs \<le> wp_room pkt)) \<and>
    wp_ok (fst (encode_frame f pkt)) \<and> maxsize (fst (encode_frame f pkt)) = maxsize pkt \<and>
    (\<exists>bs. wp_out (fst (encode_frame f pkt)) = wp_out pkt @ bs)"
  using wp_spec_success [OF wp_spec_frame [OF assms(1)] assms(2)] by blast

theorem wire_frame_encode_exact_witness:
  "frame_ok (Max_Data (2 ^ 62)) [] \<and> wp_ok buf_example \<and>
   \<not> snd (encode_frame (Max_Data (2 ^ 62)) buf_example) \<and>
   wp_ok (fst (encode_frame (Max_Data (2 ^ 62)) buf_example))"
proof -
  have "\<not> (\<exists>bs. frame_bytes (Max_Data (2 ^ 62)) = Some bs \<and> length bs \<le> wp_room buf_example)"
    by (simp add: vl_def vlint_consts)
  then show ?thesis
    using wire_frame_encode_exact [of "Max_Data (2 ^ 62)" "[]" buf_example] buf_example_ok
    by (simp del: encode_frame.simps frame_bytes.simps)
qed

text \<open>
  C33: An ACK frame that was encoded is decoded, by a receiver using the same delay exponent and a range
  array with enough slots, to the same ranges and ECN counts, and to the same delay rounded down to a
  multiple of \<open>2^exponent\<close> microseconds; the number of slots needed is what
  \<open>ossl_quic_wire_peek_frame_ack_num_ranges\<close> reports.
\<close>
theorem wire_ack_round_trip:
  assumes "ack_ranges_ok (ack_ranges a)" "length (ack_ranges a) < 2 ^ 64" "unat e \<le> 20" "wp_ok pkt"
    and "ossl_quic_wire_encode_frame_ack e a pkt = (pkt', True)"
    and "length (ack_ranges a) \<le> length (ack_ranges a0)"
  shows "\<exists>bs. wp_out pkt' = wp_out pkt @ bs \<and>
    ossl_quic_wire_peek_frame_ack_num_ranges (bs @ rest) = Some (of_nat (length (ack_ranges a))) \<and>
    ossl_quic_wire_decode_frame_ack (bs @ rest) e (Some a0) =
      Some (Some (received_ack e a a0), of_nat (length (ack_ranges a)), rest)"
proof -
  obtain bs where bs: "ack_bytes e a = Some bs" "length bs \<le> wp_room pkt"
    using wp_spec_success(1) [OF wp_spec_ack assms(4), of e a] assms(5) by auto
  then have "pkt' = wp_append bs pkt"
    using wp_specD_Some(1) [of "ossl_quic_wire_encode_frame_ack e a" bs pkt] wp_spec_ack [of e a] assms(4,5)
    by simp
  then have "wp_out pkt' = wp_out pkt @ bs"
    using wp_out_append [OF assms(4) bs(2)] by simp
  moreover note dec = decode_ack_bytes [OF assms(1) bs(1) assms(3,6,2), of rest]
  moreover note decode_ack_peek [OF dec]
  ultimately show ?thesis by blast
qed

theorem wire_ack_round_trip_witness:
  "ack_ranges_ok (ack_ranges wire_ack_example) \<and> wp_ok buf_example \<and>
   ossl_quic_wire_encode_frame_ack 3 wire_ack_example buf_example =
     (wp_append [2, 0x40, 100, 0x4C, 0x35, 1, 10, 8, 0x40, 75] buf_example, True) \<and>
   (\<exists>bs. wp_out (wp_append [2, 0x40, 100, 0x4C, 0x35, 1, 10, 8, 0x40, 75] buf_example) = wp_out buf_example @ bs \<and>
    ossl_quic_wire_peek_frame_ack_num_ranges (bs @ []) = Some 2 \<and>
    ossl_quic_wire_decode_frame_ack (bs @ []) 3 (Some (ack_slots 2)) =
      Some (Some (received_ack 3 wire_ack_example (ack_slots 2)), 2, []))"
proof -
  have "ack_ranges_ok (ack_ranges wire_ack_example)"
    by (simp add: wire_ack_example_def ack_ranges_ok_def)
  moreover have "ossl_quic_wire_encode_frame_ack 3 wire_ack_example buf_example =
     (wp_append [2, 0x40, 100, 0x4C, 0x35, 1, 10, 8, 0x40, 75] buf_example, True)"
    by code_simp
  moreover have "length (ack_ranges wire_ack_example) = 2" "length (ack_ranges (ack_slots 2)) = 2"
    by (simp_all add: wire_ack_example_def ack_slots_def)
  ultimately show ?thesis
    using wire_ack_round_trip [of wire_ack_example 3 buf_example
      "wp_append [2, 0x40, 100, 0x4C, 0x35, 1, 10, 8, 0x40, 75] buf_example" "ack_slots 2" "[]"] buf_example_ok
    by simp
qed

text \<open>
  C32: Whatever bytes the peer sends, if \<open>ossl_quic_wire_decode_frame_ack\<close> accepts them with a non-empty
  range array then the ranges it delivers are non-empty, well formed, strictly descending and of valid
  packet numbers, as many as the frame has or as fit, and \<open>ossl_quic_wire_peek_frame_ack_num_ranges\<close>
  reports how many the frame has. This is what the ACK manager requires of the frames it is given.
\<close>
theorem wire_ack_decode_sound:
  assumes "ossl_quic_wire_decode_frame_ack pkt e (Some a) = Some (a', n, rest)" "ack_ranges a \<noteq> []"
  shows "\<exists>b. a' = Some b \<and> ack_ranges b \<noteq> [] \<and> ack_ranges_ok (ack_ranges b) \<and>
    (\<forall>r\<in>set (ack_ranges b). ossl_quic_pn_valid (r_end r)) \<and>
    length (ack_ranges b) = min (unat n) (length (ack_ranges a)) \<and>
    ossl_quic_wire_peek_frame_ack_num_ranges pkt = Some n"
proof -
  obtain b where b: "a' = Some b" "ack_ranges_ok (ack_ranges b)" "0 < unat n"
    "length (ack_ranges b) = min (unat n) (length (ack_ranges a))"
    "\<forall>r\<in>set (ack_ranges b). ossl_quic_pn_valid (r_end r)"
    using decode_ack_sound [OF assms] by blast
  then have "0 < length (ack_ranges b)" using assms(2) by simp
  then have "ack_ranges b \<noteq> []" by (rule length_greater_0_conv [THEN iffD1])
  then show ?thesis
    using b decode_ack_peek [OF assms(1)] by blast
qed

theorem wire_ack_decode_sound_witness:
  "ossl_quic_wire_decode_frame_ack [2, 20, 0, 1, 2, 3, 4] 3 (Some (ack_slots 2)) =
     Some (Some \<lparr>ack_ranges = [\<lparr>r_start = 18, r_end = 20\<rparr>, \<lparr>r_start = 9, r_end = 13\<rparr>], delay_time = 0,
       ect0 = 0, ect1 = 0, ecnce = 0, ecn_present = False\<rparr>, 2, []) \<and>
   ossl_quic_wire_peek_frame_ack_num_ranges [2, 20, 0, 1, 2, 3, 4] = Some 2"
proof -
  have "ossl_quic_wire_decode_frame_ack [2, 20, 0, 1, 2, 3, 4] 3 (Some (ack_slots 2)) =
     Some (Some \<lparr>ack_ranges = [\<lparr>r_start = 18, r_end = 20\<rparr>, \<lparr>r_start = 9, r_end = 13\<rparr>], delay_time = 0,
       ect0 = 0, ect1 = 0, ecnce = 0, ecn_present = False\<rparr>, 2, [])"
    by (simp add: decode_ack_eval)
  moreover from wire_ack_decode_sound [OF this]
  have "ossl_quic_wire_peek_frame_ack_num_ranges [2, 20, 0, 1, 2, 3, 4] = Some 2"
    by (auto simp: ack_slots_def)
  ultimately show ?thesis ..
qed

text \<open>
  C34: \<open>ossl_quic_wire_get_encoded_frame_len_stream_hdr\<close>, which the packet assembly uses to plan a STREAM
  frame, predicts its encoder: 0 exactly when the header cannot be encoded; otherwise the encoder
  succeeds exactly when that many bytes are left, and then appends that many bytes.
\<close>
theorem wire_stream_hdr_len:
  fixes f :: OSSL_QUIC_FRAME_STREAM
  assumes "wp_ok pkt"
  defines "n \<equiv> ossl_quic_wire_get_encoded_frame_len_stream_hdr f"
  shows "(snd (ossl_quic_wire_encode_frame_stream_hdr f pkt) \<longleftrightarrow> 0 < n \<and> n \<le> wp_room pkt) \<and>
    (0 < n \<and> n \<le> wp_room pkt \<longrightarrow>
      written (fst (ossl_quic_wire_encode_frame_stream_hdr f pkt)) = written pkt + n)"
proof -
  note spec = wp_spec_stream_hdr [of f, folded stream_hdr_bytes_def]
  show ?thesis
  proof (cases "stream_hdr_bytes f")
    case None
    then show ?thesis
      using wp_spec_success(1) [OF spec assms(1)] by (simp add: n_def stream_hdr_len_bytes(1))
  next
    case (Some bs)
    then have n: "n = length bs" "0 < n"
      using stream_hdr_len_bytes by (simp_all add: n_def)
    show ?thesis
      using wp_spec_success(1) [OF spec assms(1)] n Some
        wp_specD_Some(1) [OF spec [unfolded Some] assms(1)] by auto
  qed
qed

theorem wire_stream_hdr_len_witness:
  "wp_ok buf_example \<and> ossl_quic_wire_get_encoded_frame_len_stream_hdr stream_example = 5 \<and>
   snd (ossl_quic_wire_encode_frame_stream_hdr stream_example buf_example) \<and>
   written (fst (ossl_quic_wire_encode_frame_stream_hdr stream_example buf_example)) = 5"
proof -
  have "ossl_quic_wire_get_encoded_frame_len_stream_hdr stream_example = 5" by code_simp
  then show ?thesis
    using wire_stream_hdr_len [of buf_example stream_example] buf_example_ok
    by (simp add: buf_example_def wp_room_def)
qed

text \<open>
  C35: A transport parameter encoded as bytes, as an integer or as a connection id is read back by the
  decoder of that form, with its identifier, from the bytes its encoder appended.
\<close>
theorem wire_tparam_round_trip:
  assumes "tparam_ok t" "wp_ok pkt" "encode_tparam t pkt = (pkt', True)"
  shows "\<exists>bs. wp_out pkt' = wp_out pkt @ bs \<and> decode_tparam_as t (bs @ rest) = Some (t, rest)"
proof -
  note spec = wp_spec_tparam [OF assms(1)]
  obtain bs where bs: "tparam_bytes t = Some bs" "length bs \<le> wp_room pkt"
    using wp_spec_success(1) [OF spec assms(2)] assms(3) by auto
  then have "pkt' = wp_append bs pkt"
    using wp_specD_Some(1) [OF spec [unfolded bs(1)] assms(2)] assms(3) by simp
  then show ?thesis
    using wp_out_append [OF assms(2) bs(2)] decode_tparam_bytes [OF assms(1) bs(1)] by auto
qed

theorem wire_tparam_round_trip_witness:
  "tparam_ok (TP_Int 3 1200) \<and> wp_ok buf_example \<and>
   encode_tparam (TP_Int 3 1200) buf_example = (wp_append [3, 2, 0x44, 0xB0] buf_example, True) \<and>
   (\<exists>bs. wp_out (wp_append [3, 2, 0x44, 0xB0] buf_example) = wp_out buf_example @ bs \<and>
      decode_tparam_as (TP_Int 3 1200) (bs @ []) = Some (TP_Int 3 1200, []))"
proof -
  have "encode_tparam (TP_Int 3 1200) buf_example = (wp_append [3, 2, 0x44, 0xB0] buf_example, True)"
    by code_simp
  then show ?thesis
    using wire_tparam_round_trip [of "TP_Int 3 1200" buf_example _ "[]"] buf_example_ok
    by (simp del: encode_tparam.simps decode_tparam_as.simps)
qed


end
