(* ===== verification/Sf_List.thy ===== *)
theory Sf_List
  imports Ossl_Time Uint_Set
begin

text \<open>
  The stream frame list, \<open>ssl/quic/quic_sf_list.c\<close> with \<open>include/internal/quic_sf_list.h\<close>: the frames of
  one receive stream that have arrived and have not been read. The doubly linked list is the list
  \<open>sl_frames\<close> in list order, so \<open>head\<close> and \<open>tail\<close> are its ends. The data pointer of a frame is the list of
  the bytes from there to the end of the frame, \<open>None\<close> once the data has moved to the side storage. The
  calls that the list makes on the received packets it refers to are logged in \<open>sl_calls\<close>, with the
  memory it wipes. The \<open>assert\<close> of \<open>ossl_sframe_list_insert\<close> that is compiled out of release builds is not
  part of the definition; \<open>ossl_assert\<close> is a test that makes the call fail.
\<close>

section \<open>Model\<close>

record STREAM_FRAME =
  sf_range :: UINT_RANGE
  sf_pkt :: "nat option"
  sf_data :: "u8 list option"

datatype pkt_call = Pkt_Up_Ref nat | Pkt_Release "nat option" | Cleanse "u8 list"

record SFRAME_LIST =
  sl_frames :: "STREAM_FRAME list"
  sl_fin :: bool
  sl_num_frames :: u64
  sl_offset :: u64
  sl_head_locked :: bool
  sl_cleanse :: bool
  sl_calls :: "pkt_call list"

abbreviation sf_start :: "STREAM_FRAME \<Rightarrow> u64" where
  "sf_start sf \<equiv> r_start (sf_range sf)"

abbreviation sf_end :: "STREAM_FRAME \<Rightarrow> u64" where
  "sf_end sf \<equiv> r_end (sf_range sf)"

definition sl_cleanse_data :: "SFRAME_LIST \<Rightarrow> STREAM_FRAME \<Rightarrow> SFRAME_LIST" where
  "sl_cleanse_data fl sf =
     (case sf_data sf of
        Some d \<Rightarrow> if sl_cleanse fl
          then fl\<lparr>sl_calls := sl_calls fl @ [Cleanse (take (unat (sf_end sf - sf_start sf)) d)]\<rparr> else fl
      | None \<Rightarrow> fl)"

definition stream_frame_free :: "SFRAME_LIST \<Rightarrow> STREAM_FRAME \<Rightarrow> SFRAME_LIST" where
  "stream_frame_free fl sf =
     (let fl = sl_cleanse_data fl sf in fl\<lparr>sl_calls := sl_calls fl @ [Pkt_Release (sf_pkt sf)]\<rparr>)"

definition stream_frame_new ::
  "bool \<Rightarrow> SFRAME_LIST \<Rightarrow> UINT_RANGE \<Rightarrow> nat option \<Rightarrow> u8 list option \<Rightarrow> SFRAME_LIST \<times> STREAM_FRAME option" where
  "stream_frame_new mem_ok fl rg pkt data =
     (if \<not> mem_ok then (fl, None)
      else (case pkt of None \<Rightarrow> fl | Some p \<Rightarrow> fl\<lparr>sl_calls := sl_calls fl @ [Pkt_Up_Ref p]\<rparr>,
            Some \<lparr>sf_range = rg, sf_pkt = pkt, sf_data = data\<rparr>))"

definition ossl_sframe_list_init :: SFRAME_LIST where
  "ossl_sframe_list_init = \<lparr>sl_frames = [], sl_fin = False, sl_num_frames = 0, sl_offset = 0,
     sl_head_locked = False, sl_cleanse = False, sl_calls = []\<rparr>"

text \<open>The list head still points to the freed frames after this call, which ends the life of the list.\<close>

definition ossl_sframe_list_destroy :: "SFRAME_LIST \<Rightarrow> SFRAME_LIST" where
  "ossl_sframe_list_destroy fl = foldl stream_frame_free fl (sl_frames fl)"

definition append_frame ::
  "bool \<Rightarrow> SFRAME_LIST \<Rightarrow> UINT_RANGE \<Rightarrow> nat option \<Rightarrow> u8 list option \<Rightarrow> SFRAME_LIST \<times> bool" where
  "append_frame mem_ok fl rg pkt data =
     (case stream_frame_new mem_ok fl rg pkt data of
        (fl, None) \<Rightarrow> (fl, False)
      | (fl, Some new_frame) \<Rightarrow>
          (fl\<lparr>sl_frames := sl_frames fl @ [new_frame], sl_num_frames := sl_num_frames fl + 1\<rparr>, True))"

text \<open>
  The loops that free the frames from a node on while they end at or before a limit: the counter and the
  log of the list, and the frames that remain.
\<close>

fun drop_until :: "SFRAME_LIST \<Rightarrow> u64 \<Rightarrow> STREAM_FRAME list \<Rightarrow> SFRAME_LIST \<times> STREAM_FRAME list" where
  "drop_until fl limit [] = (fl, [])"
| "drop_until fl limit (sf # rest) =
     (if sf_end sf \<le> limit
      then drop_until (stream_frame_free (fl\<lparr>sl_num_frames := sl_num_frames fl - 1\<rparr>) sf) limit rest
      else (fl, sf # rest))"

definition set_fin :: "bool \<Rightarrow> SFRAME_LIST \<Rightarrow> SFRAME_LIST" where
  "set_fin fin fl = fl\<lparr>sl_fin := fin \<or> sl_fin fl\<rparr>"

text \<open>The insertion between \<open>prev\<close>, whose last frame is \<open>prev_frame\<close>, and the frames from \<open>sf\<close> on.\<close>

definition insert_between ::
  "bool \<Rightarrow> SFRAME_LIST \<Rightarrow> UINT_RANGE \<Rightarrow> nat option \<Rightarrow> u8 list option \<Rightarrow> bool \<Rightarrow>
   STREAM_FRAME list \<Rightarrow> STREAM_FRAME list \<Rightarrow> SFRAME_LIST \<times> bool" where
  "insert_between mem_ok fl rg pkt data fin prev sfs =
     (case stream_frame_new mem_ok fl rg pkt data of
        (fl, None) \<Rightarrow> (fl, False)
      | (fl, Some new_frame) \<Rightarrow>
          (case drop_until fl (r_end rg) sfs of (fl, next) \<Rightarrow>
            if next \<noteq> [] \<and> prev \<noteq> [] \<and> sf_start (hd next) \<le> sf_end (last prev)
            then (set_fin fin (stream_frame_free (fl\<lparr>sl_frames := prev @ next\<rparr>) new_frame), True)
            else (set_fin fin (fl\<lparr>sl_frames := prev @ new_frame # next,
                    sl_num_frames := sl_num_frames fl + 1\<rparr>), True)))"

definition ossl_sframe_list_insert ::
  "bool \<Rightarrow> SFRAME_LIST \<Rightarrow> UINT_RANGE \<Rightarrow> nat option \<Rightarrow> u8 list option \<Rightarrow> bool \<Rightarrow> SFRAME_LIST \<times> bool" where
  "ossl_sframe_list_insert mem_ok fl rg pkt data fin =
     (let frames = sl_frames fl in
      if sl_offset fl \<ge> r_end rg then (set_fin fin fl, True)
      else if frames = [] then
        (case stream_frame_new mem_ok fl rg pkt data of
           (fl, None) \<Rightarrow> (fl, False)
         | (fl, Some new_frame) \<Rightarrow>
             (set_fin fin (fl\<lparr>sl_frames := [new_frame], sl_num_frames := sl_num_frames fl + 1\<rparr>), True))
      else if sf_start (last frames) < r_start rg then
        (if sf_end (last frames) \<ge> r_end rg then (set_fin fin fl, True)
         else case append_frame mem_ok fl rg pkt data of
             (fl, False) \<Rightarrow> (fl, False)
           | (fl, True) \<Rightarrow> (set_fin fin fl, True))
      else
        let prev = takeWhile (\<lambda>sf. sf_start sf < r_start rg) frames;
            sfs = dropWhile (\<lambda>sf. sf_start sf < r_start rg) frames
        in if sfs = [] then (fl, False)
           else if prev \<noteq> [] \<and> sf_end (last prev) \<ge> r_end rg then (set_fin fin fl, True)
           else insert_between mem_ok fl rg pkt data fin prev sfs)"

text \<open>
  What \<open>ossl_sframe_list_peek\<close> sets. The iterator is the position of the frame it points to, \<open>None\<close> for
  NULL.
\<close>

record peek_out =
  po_ok :: bool
  po_iter :: "nat option"
  po_range :: UINT_RANGE
  po_data :: "u8 list option"
  po_fin :: bool

definition ossl_sframe_list_peek :: "SFRAME_LIST \<Rightarrow> nat option \<Rightarrow> peek_out" where
  "ossl_sframe_list_peek fl iter =
     (let frames = sl_frames fl;
          (start, i) = (case iter of None \<Rightarrow> (sl_offset fl, 0) | Some j \<Rightarrow> (sf_end (frames ! j), Suc j))
      in if i \<ge> length frames \<or> sf_start (frames ! i) > start \<or> \<not> start < sf_end (frames ! i) then
           \<lparr>po_ok = False, po_iter = None, po_range = \<lparr>r_start = start, r_end = start\<rparr>, po_data = None,
            po_fin = (if i \<ge> length frames then sl_fin fl else False)\<rparr>
         else
           \<lparr>po_ok = True, po_iter = Some i, po_range = \<lparr>r_start = start, r_end = sf_end (frames ! i)\<rparr>,
            po_data = map_option (drop (unat (start - sf_start (frames ! i)))) (sf_data (frames ! i)),
            po_fin = (if Suc i \<ge> length frames then sl_fin fl else False)\<rparr>)"

definition ossl_sframe_list_drop_frames :: "SFRAME_LIST \<Rightarrow> u64 \<Rightarrow> SFRAME_LIST \<times> bool" where
  "ossl_sframe_list_drop_frames fl limit =
     (let frames = sl_frames fl in
      if \<not> limit \<ge> sl_offset fl \<or> \<not> (frames = [] \<or> limit \<le> sf_end (last frames)) \<or>
         \<not> (frames \<noteq> [] \<or> limit = sl_offset fl)
      then (fl, False)
      else case drop_until (fl\<lparr>sl_offset := limit\<rparr>) limit frames of (fl, rest) \<Rightarrow>
        (fl\<lparr>sl_frames := rest, sl_head_locked := False\<rparr>, True))"

definition ossl_sframe_list_lock_head :: "SFRAME_LIST \<Rightarrow> SFRAME_LIST \<times> peek_out option" where
  "ossl_sframe_list_lock_head fl =
     (if sl_head_locked fl then (fl, None)
      else let po = ossl_sframe_list_peek fl None
           in (if po_ok po then fl\<lparr>sl_head_locked := True\<rparr> else fl, Some po))"

definition ossl_sframe_list_is_head_locked :: "SFRAME_LIST \<Rightarrow> bool" where
  "ossl_sframe_list_is_head_locked fl = sl_head_locked fl"

text \<open>
  The part of the loop of \<open>ossl_sframe_list_move_data\<close> that writes the data of one frame from \<open>limit\<close> on and
  releases its packet; \<open>cb\<close> is \<open>write_at_cb\<close> on the state \<open>st\<close> of the side storage.
\<close>

definition move_one ::
  "('a \<Rightarrow> u64 \<Rightarrow> u8 list \<Rightarrow> 'a \<times> bool) \<Rightarrow> SFRAME_LIST \<Rightarrow> 'a \<Rightarrow> u64 \<Rightarrow> STREAM_FRAME \<Rightarrow>
   SFRAME_LIST \<times> 'a \<times> STREAM_FRAME \<times> bool" where
  "move_one cb fl st limit sf =
     (case sf_data sf of
        None \<Rightarrow> (fl, st, sf, True)
      | Some data \<Rightarrow>
          let data = (if limit > sf_start sf then drop (unat (limit - sf_start sf)) data else data);
              len = sf_end sf - limit
          in case cb st limit (take (unat len) data) of
               (st, False) \<Rightarrow> (fl, st, sf, False)
             | (st, True) \<Rightarrow>
                 (let fl = sl_cleanse_data fl sf
                  in fl\<lparr>sl_calls := sl_calls fl @ [Pkt_Release (sf_pkt sf)]\<rparr>,
                  st, sf\<lparr>sf_data := None, sf_pkt := None\<rparr>, True))"

text \<open>The loop; \<open>passed\<close> holds the frames it has passed, nearest first, so its head is \<open>prev_frame\<close>.\<close>

fun move_loop ::
  "('a \<Rightarrow> u64 \<Rightarrow> u8 list \<Rightarrow> 'a \<times> bool) \<Rightarrow> SFRAME_LIST \<Rightarrow> 'a \<Rightarrow> u64 \<Rightarrow> STREAM_FRAME list \<Rightarrow>
   STREAM_FRAME list \<Rightarrow> SFRAME_LIST \<times> 'a \<times> STREAM_FRAME list \<times> bool" where
  "move_loop cb fl st limit passed [] = (fl, st, rev passed, True)"
| "move_loop cb fl st limit passed (sf # rest) =
     (case move_one cb fl st (if limit < sf_start sf then sf_start sf else limit) sf of
        (fl, st, sf, False) \<Rightarrow> (fl, st, rev passed @ sf # rest, False)
      | (fl, st, sf, True) \<Rightarrow>
          if passed \<noteq> [] \<and> sf_end (hd passed) \<ge> sf_start sf then
            move_loop cb (stream_frame_free (fl\<lparr>sl_num_frames := sl_num_frames fl - 1\<rparr>) sf) st (sf_end sf)
              ((hd passed)\<lparr>sf_range := (sf_range (hd passed))\<lparr>r_end := sf_end sf\<rparr>\<rparr> # tl passed) rest
          else move_loop cb fl st (sf_end sf) (sf # passed) rest)"

definition ossl_sframe_list_move_data ::
  "('a \<Rightarrow> u64 \<Rightarrow> u8 list \<Rightarrow> 'a \<times> bool) \<Rightarrow> SFRAME_LIST \<Rightarrow> 'a \<Rightarrow> SFRAME_LIST \<times> 'a \<times> bool" where
  "ossl_sframe_list_move_data cb fl st =
     (if sl_frames fl = [] then (fl, st, True)
      else let k = (if sl_head_locked fl then 1 else 0)
           in case move_loop cb fl st (sl_offset fl) [] (drop k (sl_frames fl)) of
                (fl', st', frames, ok) \<Rightarrow>
                  (fl'\<lparr>sl_frames := take k (sl_frames fl) @ frames\<rparr>, st', ok))"

section \<open>Invariant and coverage\<close>

text \<open>
  The frames are ordered by both bounds, strictly by the end; none is inside out and none ends at or before
  the read offset. The starts need not differ, see the last property of this theory.
\<close>

definition sf_before :: "STREAM_FRAME \<Rightarrow> STREAM_FRAME \<Rightarrow> bool" where
  "sf_before a b \<longleftrightarrow> sf_start a \<le> sf_start b \<and> sf_end a < sf_end b"

definition sf_wf :: "u64 \<Rightarrow> STREAM_FRAME list \<Rightarrow> bool" where
  "sf_wf off frames \<longleftrightarrow> sorted_wrt sf_before frames \<and> (\<forall>f\<in>set frames. sf_start f \<le> sf_end f \<and> off < sf_end f)"

text \<open>The stream offsets that the frames cover.\<close>

definition frame_bytes_at :: "STREAM_FRAME \<Rightarrow> nat set" where
  "frame_bytes_at f = {unat (sf_start f)..<unat (sf_end f)}"

definition covered :: "STREAM_FRAME list \<Rightarrow> nat set" where
  "covered frames = \<Union> (frame_bytes_at ` set frames)"

text \<open>References to packets: what the calls leave held, and what the frames hold.\<close>

fun call_weight :: "nat \<Rightarrow> pkt_call \<Rightarrow> int" where
  "call_weight p (Pkt_Up_Ref q) = (if q = p then 1 else 0)"
| "call_weight p (Pkt_Release q) = (if q = Some p then - 1 else 0)"
| "call_weight p (Cleanse d) = 0"

definition pkt_balance :: "pkt_call list \<Rightarrow> nat \<Rightarrow> int" where
  "pkt_balance calls p = (\<Sum>c\<leftarrow>calls. call_weight p c)"

definition pkts_held :: "STREAM_FRAME list \<Rightarrow> nat \<Rightarrow> int" where
  "pkts_held frames p = (\<Sum>f\<leftarrow>frames. if sf_pkt f = Some p then 1 else 0)"

definition sf_inv :: "SFRAME_LIST \<Rightarrow> bool" where
  "sf_inv fl \<longleftrightarrow> sf_wf (sl_offset fl) (sl_frames fl) \<and> sl_num_frames fl = of_nat (length (sl_frames fl)) \<and>
     pkt_balance (sl_calls fl) = pkts_held (sl_frames fl)"

lemma covered_simps [simp]:
  "covered [] = {}" "covered (f # fs) = frame_bytes_at f \<union> covered fs" "covered (xs @ ys) = covered xs \<union> covered ys"
  by (auto simp: covered_def)

lemma covered_member: "f \<in> set frames \<Longrightarrow> frame_bytes_at f \<subseteq> covered frames"
  by (auto simp: covered_def)

lemma in_frame_bytes_at: "i \<in> frame_bytes_at f \<longleftrightarrow> unat (sf_start f) \<le> i \<and> i < unat (sf_end f)"
  by (simp add: frame_bytes_at_def)

lemma balance_simps [simp]:
  "pkt_balance [] p = 0" "pkt_balance (xs @ ys) p = pkt_balance xs p + pkt_balance ys p"
  "pkt_balance [c] p = call_weight p c"
  by (simp_all add: pkt_balance_def)

lemma held_simps [simp]:
  "pkts_held [] p = 0" "pkts_held (f # fs) p = (if sf_pkt f = Some p then 1 else 0) + pkts_held fs p"
  "pkts_held (xs @ ys) p = pkts_held xs p + pkts_held ys p"
  by (simp_all add: pkts_held_def)

lemma sf_wf_simps [simp]:
  "sf_wf off []"
  "sf_wf off (f # fs) \<longleftrightarrow> sf_start f \<le> sf_end f \<and> off < sf_end f \<and> (\<forall>g\<in>set fs. sf_before f g) \<and> sf_wf off fs"
  "sf_wf off (xs @ ys) \<longleftrightarrow> sf_wf off xs \<and> sf_wf off ys \<and> (\<forall>a\<in>set xs. \<forall>b\<in>set ys. sf_before a b)"
  by (auto simp: sf_wf_def sorted_wrt_append)

lemma sf_before_trans: "sf_before a b \<Longrightarrow> sf_before b c \<Longrightarrow> sf_before a c"
  by (auto simp: sf_before_def)

lemma sf_wf_last: "sf_wf off frames \<Longrightarrow> f \<in> set frames \<Longrightarrow> f = last frames \<or> sf_before f (last frames)"
  by (cases frames rule: rev_cases) auto

section \<open>Freeing frames\<close>

definition free_calls :: "bool \<Rightarrow> STREAM_FRAME \<Rightarrow> pkt_call list" where
  "free_calls cleanse sf =
     (case sf_data sf of Some d \<Rightarrow> if cleanse then [Cleanse (take (unat (sf_end sf - sf_start sf)) d)] else []
      | None \<Rightarrow> []) @ [Pkt_Release (sf_pkt sf)]"

lemma stream_frame_free_eq:
  "stream_frame_free fl sf = fl\<lparr>sl_calls := sl_calls fl @ free_calls (sl_cleanse fl) sf\<rparr>"
  by (auto simp: stream_frame_free_def sl_cleanse_data_def free_calls_def Let_def split: option.split)

lemma free_calls_balance [simp]:
  "pkt_balance (free_calls c sf) p = - (if sf_pkt sf = Some p then 1 else 0)"
  by (auto simp: free_calls_def pkt_balance_def split: option.split)

lemma free_all_balance: "pkt_balance (concat (map (free_calls c) sfs)) p = - pkts_held sfs p"
  by (induction sfs) auto

lemma drop_until_eq:
  "drop_until fl limit sfs =
     (fl\<lparr>sl_num_frames := sl_num_frames fl - of_nat (length (takeWhile (\<lambda>f. sf_end f \<le> limit) sfs)),
         sl_calls := sl_calls fl @ concat (map (free_calls (sl_cleanse fl)) (takeWhile (\<lambda>f. sf_end f \<le> limit) sfs))\<rparr>,
      dropWhile (\<lambda>f. sf_end f \<le> limit) sfs)"
  by (induction sfs arbitrary: fl) (auto simp: stream_frame_free_eq algebra_simps)

lemma destroy_eq:
  "foldl stream_frame_free fl sfs = fl\<lparr>sl_calls := sl_calls fl @ concat (map (free_calls (sl_cleanse fl)) sfs)\<rparr>"
  by (induction sfs arbitrary: fl) (auto simp: stream_frame_free_eq)

text \<open>On frames ordered by their ends, the frames that end at or before a limit come first.\<close>

lemma take_drop_end:
  assumes "sf_wf off sfs"
  shows "\<forall>f\<in>set (takeWhile (\<lambda>f. sf_end f \<le> limit) sfs). sf_end f \<le> limit"
    and "\<forall>f\<in>set (dropWhile (\<lambda>f. sf_end f \<le> limit) sfs). limit < sf_end f"
  using assms by (induction sfs) (auto simp: sf_before_def not_le dest: set_takeWhileD)

lemma take_drop_start:
  assumes "sf_wf off sfs"
  shows "\<forall>f\<in>set (takeWhile (\<lambda>f. sf_start f < s) sfs). sf_start f < s"
    and "\<forall>f\<in>set (dropWhile (\<lambda>f. sf_start f < s) sfs). s \<le> sf_start f"
  using assms by (induction sfs) (auto simp: sf_before_def not_less dest: set_takeWhileD)

section \<open>Insertion\<close>

lemma wf_drop_middle: "sf_wf off (prev @ dropped @ next) \<Longrightarrow> sf_wf off (prev @ next)"
  by auto

lemma between_frames:
  assumes wf: "sf_wf off (prev @ sfs)"
    and st: "\<forall>f\<in>set prev. sf_start f < sf_start new" "\<forall>f\<in>set sfs. sf_start new \<le> sf_start f"
    and gap: "prev \<noteq> [] \<Longrightarrow> sf_end (last prev) < sf_end new"
    and new: "sf_start new \<le> sf_end new" "off < sf_end new"
  defines "next \<equiv> dropWhile (\<lambda>f. sf_end f \<le> sf_end new) sfs"
  shows "next \<noteq> [] \<Longrightarrow> prev \<noteq> [] \<Longrightarrow> sf_start (hd next) \<le> sf_end (last prev) \<Longrightarrow>
      covered (prev @ next) = covered (prev @ sfs) \<union> frame_bytes_at new"
    and "sf_wf off (prev @ new # next)"
    and "covered (prev @ new # next) = covered (prev @ sfs) \<union> frame_bytes_at new"
proof -
  have sfs: "sf_wf off sfs" using wf by simp
  define dropped where "dropped = takeWhile (\<lambda>f. sf_end f \<le> sf_end new) sfs"
  have t: "\<forall>f\<in>set dropped. sf_end f \<le> sf_end new" "\<forall>f\<in>set next. sf_end new < sf_end f"
    using take_drop_end [OF sfs, of "sf_end new"] by (simp_all add: dropped_def next_def)
  have split: "sfs = dropped @ next" by (simp add: dropped_def next_def)
  have st': "\<forall>f\<in>set dropped. sf_start new \<le> sf_start f" "\<forall>f\<in>set next. sf_start new \<le> sf_start f"
    using st(2) by (simp_all add: split)
  have d: "frame_bytes_at f \<subseteq> frame_bytes_at new" if "f \<in> set dropped" for f
  proof -
    have "sf_end f \<le> sf_end new" "sf_start new \<le> sf_start f"
      using that t(1) st'(1) by auto
    then show ?thesis by (auto simp: in_frame_bytes_at u64_nat)
  qed
  then have dc: "covered dropped \<subseteq> frame_bytes_at new" by (auto simp: covered_def)
  show "covered (prev @ new # next) = covered (prev @ sfs) \<union> frame_bytes_at new"
    using dc by (auto simp: split)
  have pe: "sf_end f < sf_end new" if "f \<in> set prev" for f
  proof -
    have "prev \<noteq> []" using that by auto
    then show ?thesis
      using gap sf_wf_last [of off prev f] wf that by (auto simp: sf_before_def)
  qed
  have nx: "sf_before new f" if "f \<in> set next" for f
    using that t(2) st'(2) by (auto simp: sf_before_def)
  have pn: "sf_before f new" if "f \<in> set prev" for f
    using pe [OF that] st(1) that by (auto simp: sf_before_def intro: order.strict_implies_order)
  show "sf_wf off (prev @ new # next)"
    using wf_drop_middle [OF wf [unfolded split]] new nx pn by simp
  assume ne: "next \<noteq> []" "prev \<noteq> []" and le: "sf_start (hd next) \<le> sf_end (last prev)"
  have hn: "hd next \<in> set next" "last prev \<in> set prev" using ne by auto
  have "sf_start (last prev) < sf_start new" "sf_end new < sf_end (hd next)"
    using st(1) t(2) hn by auto
  with le have "frame_bytes_at new \<subseteq> frame_bytes_at (last prev) \<union> frame_bytes_at (hd next)"
    by (auto simp: in_frame_bytes_at u64_nat)
  then have "frame_bytes_at new \<subseteq> covered (prev @ next)"
    using hn by (auto simp: covered_def)
  with dc show "covered (prev @ next) = covered (prev @ sfs) \<union> frame_bytes_at new"
    by (auto simp: split)
qed

text \<open>The end of the data received so far.\<close>

definition sf_top :: "SFRAME_LIST \<Rightarrow> u64" where
  "sf_top fl = (if sl_frames fl = [] then sl_offset fl else sf_end (last (sl_frames fl)))"

text \<open>What a successful insertion of \<open>new\<close> does.\<close>

definition inserted :: "SFRAME_LIST \<Rightarrow> STREAM_FRAME \<Rightarrow> bool \<Rightarrow> SFRAME_LIST \<Rightarrow> bool" where
  "inserted fl new fin fl' \<longleftrightarrow> sf_inv fl' \<and> sl_offset fl' = sl_offset fl \<and> sl_cleanse fl' = sl_cleanse fl \<and>
     sl_head_locked fl' = sl_head_locked fl \<and> sl_fin fl' = (fin \<or> sl_fin fl) \<and>
     set (sl_frames fl') \<subseteq> insert new (set (sl_frames fl)) \<and> sf_top fl' = max (sf_top fl) (sf_end new) \<and>
     covered (sl_frames fl') \<union> {..<unat (sl_offset fl)} =
       covered (sl_frames fl) \<union> frame_bytes_at new \<union> {..<unat (sl_offset fl)}"

lemma frame_new_cases:
  assumes "sf_inv fl"
  obtains "\<not> mem_ok" "stream_frame_new mem_ok fl rg pkt data = (fl, None)"
  | c where "mem_ok"
      "stream_frame_new mem_ok fl rg pkt data =
        (fl\<lparr>sl_calls := c\<rparr>, Some \<lparr>sf_range = rg, sf_pkt = pkt, sf_data = data\<rparr>)"
      "\<And>p. pkt_balance c p = pkts_held (sl_frames fl) p + (if pkt = Some p then 1 else 0)"
proof (cases "mem_ok")
  case True
  let ?c = "sl_calls fl @ (case pkt of None \<Rightarrow> [] | Some p \<Rightarrow> [Pkt_Up_Ref p])"
  show ?thesis
    using True assms
    by (intro that(2) [of ?c]) (auto simp: stream_frame_new_def sf_inv_def split: option.split)
qed (use that(1) in \<open>simp add: stream_frame_new_def\<close>)

lemma inserted_covered:
  assumes "sf_inv fl" "frame_bytes_at new \<subseteq> covered (sl_frames fl) \<union> {..<unat (sl_offset fl)}" "sf_end new \<le> sf_top fl"
  shows "inserted fl new fin (set_fin fin fl)"
  using assms by (auto simp: inserted_def set_fin_def sf_inv_def sf_top_def max_def)

lemma inserted_new:
  assumes "sf_inv fl" "sl_frames fl = prev @ sfs"
    and wf: "sf_wf (sl_offset fl) (prev @ new # next)"
    and c: "covered (prev @ new # next) = covered (prev @ sfs) \<union> frame_bytes_at new"
    and nx: "next = dropWhile (\<lambda>f. sf_end f \<le> sf_end new) sfs"
    and fl': "fl' = fl\<lparr>sl_frames := prev @ new # next, sl_num_frames := num, sl_fin := fin \<or> sl_fin fl, sl_calls := calls\<rparr>"
    and num: "num = of_nat (length (prev @ new # next))" and calls: "pkt_balance calls = pkts_held (prev @ new # next)"
  shows "inserted fl new fin fl'"
proof -
  have "sf_top fl' = max (sf_top fl) (sf_end new)"
  proof (cases "next = []")
    case True
    then have "\<forall>f\<in>set sfs. sf_end f \<le> sf_end new" using nx by auto
    moreover have "prev \<noteq> [] \<Longrightarrow> sf_end (last prev) < sf_end new" using wf by (auto simp: sf_before_def)
    ultimately have "sf_top fl \<le> sf_end new"
      using assms(2) wf by (cases sfs rule: rev_cases) (auto simp: sf_top_def intro: order.strict_implies_order)
    then show ?thesis using True by (simp add: sf_top_def fl' max_def)
  next
    case False
    moreover from False have "sfs \<noteq> []" using nx by auto
    moreover have "last next = last sfs"
      using False nx by (metis last_appendR takeWhile_dropWhile_id)
    moreover have "sf_end new < sf_end (last next)" using wf False by (auto simp: sf_before_def)
    ultimately show ?thesis using False assms(2) by (auto simp: sf_top_def fl' max_def)
  qed
  then show ?thesis
    using wf c num calls assms(2) nx
    by (auto simp: inserted_def fl' sf_inv_def dest: set_dropWhileD)
qed

lemma insert_between_spec:
  assumes inv: "sf_inv fl" and fr: "sl_frames fl = prev @ sfs" and ne: "sfs \<noteq> []"
    and st: "\<forall>f\<in>set prev. sf_start f < r_start rg" "\<forall>f\<in>set sfs. r_start rg \<le> sf_start f"
    and gap: "prev \<noteq> [] \<Longrightarrow> sf_end (last prev) < r_end rg"
    and rg: "r_start rg \<le> r_end rg" "sl_offset fl < r_end rg"
    and ins: "insert_between mem_ok fl rg pkt data fin prev sfs = (fl', ok)"
  shows "ok = mem_ok" "\<not> ok \<Longrightarrow> fl' = fl"
    and "ok \<Longrightarrow> inserted fl \<lparr>sf_range = rg, sf_pkt = pkt, sf_data = data\<rparr> fin fl'"
proof -
  let ?new = "\<lparr>sf_range = rg, sf_pkt = pkt, sf_data = data\<rparr>"
  define dropped where "dropped = takeWhile (\<lambda>f. sf_end f \<le> r_end rg) sfs"
  define nx where "nx = dropWhile (\<lambda>f. sf_end f \<le> r_end rg) sfs"
  have split: "sfs = dropped @ nx" by (simp add: dropped_def nx_def)
  have wf: "sf_wf (sl_offset fl) (prev @ sfs)" using inv fr by (simp add: sf_inv_def)
  have b: "nx \<noteq> [] \<Longrightarrow> prev \<noteq> [] \<Longrightarrow> sf_start (hd nx) \<le> sf_end (last prev) \<Longrightarrow>
      covered (prev @ nx) = covered (prev @ sfs) \<union> frame_bytes_at ?new"
    "sf_wf (sl_offset fl) (prev @ ?new # nx)"
    "covered (prev @ ?new # nx) = covered (prev @ sfs) \<union> frame_bytes_at ?new"
    using between_frames [OF wf, of ?new] st gap rg by (simp_all add: nx_def)
  show "ok = mem_ok" "\<not> ok \<Longrightarrow> fl' = fl"
    using ins by (cases rule: frame_new_cases [OF inv, of mem_ok rg pkt data];
        auto simp: insert_between_def drop_until_eq split: if_splits)+
  assume ok: "ok"
  have num: "sl_num_frames fl = of_nat (length prev + length dropped + length nx)"
    using inv fr split by (simp add: sf_inv_def)
  show "inserted fl ?new fin fl'"
  proof (cases rule: frame_new_cases [OF inv, of mem_ok rg pkt data])
    case 1
    then show ?thesis using ok ins by (simp add: insert_between_def)
  next
    case (2 c)
    let ?c = "c @ concat (map (free_calls (sl_cleanse fl)) dropped)"
    have bal: "pkt_balance ?c p = pkts_held (prev @ ?new # nx) p" for p
      using 2(3) by (simp add: free_all_balance fr split)
    have du: "drop_until (fl\<lparr>sl_calls := c\<rparr>) (r_end rg) sfs =
      (fl\<lparr>sl_calls := ?c, sl_num_frames := of_nat (length prev + length nx)\<rparr>, nx)"
      by (simp add: drop_until_eq dropped_def [symmetric] nx_def [symmetric] num)
    show ?thesis
    proof (cases "nx \<noteq> [] \<and> prev \<noteq> [] \<and> sf_start (hd nx) \<le> sf_end (last prev)")
      case True
      then have c: "covered (prev @ nx) = covered (prev @ sfs) \<union> frame_bytes_at ?new" using b(1) by blast
      have wf': "sf_wf (sl_offset fl) (prev @ nx)"
        using wf_drop_middle [OF wf [unfolded split]] .
      have top: "last (prev @ nx) = last (prev @ sfs)" using True by (simp add: split)
      have lt: "r_end rg < sf_end (last (prev @ sfs))"
        using b(2) True unfolding top [symmetric] by (auto simp: sf_before_def)
      have sub: "set (prev @ nx) \<subseteq> set (prev @ sfs)" by (auto simp: split)
      then have sub': "set (prev @ nx) \<subseteq> insert ?new (set (prev @ sfs))" by blast
      let ?c' = "?c @ free_calls (sl_cleanse fl) ?new"
      have bal': "pkt_balance ?c' = pkts_held (prev @ nx)"
      proof
        show "pkt_balance ?c' p = pkts_held (prev @ nx) p" for p using bal [of p] by simp
      qed
      have fl': "fl' = fl\<lparr>sl_frames := prev @ nx, sl_num_frames := of_nat (length (prev @ nx)),
          sl_fin := fin \<or> sl_fin fl, sl_calls := ?c'\<rparr>"
        using ins du 2(2) True by (auto simp: insert_between_def stream_frame_free_eq set_fin_def)
      have "sf_top fl' = max (sf_top fl) (r_end rg)"
        using True lt top ne fr by (auto simp: sf_top_def fl' max_def)
      then show ?thesis
        using c wf' sub' bal' unfolding inserted_def sf_inv_def fr by (simp add: fl')
    next
      case False
      then have "fl' = fl\<lparr>sl_frames := prev @ ?new # nx, sl_num_frames := of_nat (length (prev @ ?new # nx)),
          sl_fin := fin \<or> sl_fin fl, sl_calls := ?c\<rparr>"
        using ins du 2(2) by (auto simp: insert_between_def set_fin_def)
      then show ?thesis
        using b(2,3) bal by (intro inserted_new [OF inv fr]) (auto simp: nx_def fun_eq_iff)
    qed
  qed
qed

text \<open>Insertion succeeds unless the allocation fails, keeps the invariant and adds the range.\<close>

lemma insert_spec:
  assumes inv: "sf_inv fl" and rg: "r_start rg \<le> r_end rg"
    and ins: "ossl_sframe_list_insert mem_ok fl rg pkt data fin = (fl', ok)"
  shows "mem_ok \<Longrightarrow> ok" "\<not> ok \<Longrightarrow> fl' = fl"
    and "ok \<Longrightarrow> inserted fl \<lparr>sf_range = rg, sf_pkt = pkt, sf_data = data\<rparr> fin fl'"
proof -
  let ?new = "\<lparr>sf_range = rg, sf_pkt = pkt, sf_data = data\<rparr>" and ?fs = "sl_frames fl"
  have wf: "sf_wf (sl_offset fl) ?fs" using inv by (simp add: sf_inv_def)
  have "(mem_ok \<longrightarrow> ok) \<and> (\<not> ok \<longrightarrow> fl' = fl) \<and> (ok \<longrightarrow> inserted fl ?new fin fl')"
  proof (cases "r_end rg \<le> sl_offset fl")
    case True
    then have "frame_bytes_at ?new \<subseteq> {..<unat (sl_offset fl)}" "r_end rg \<le> sf_top fl"
      using wf by (auto simp: in_frame_bytes_at u64_nat sf_top_def sf_wf_def dest: bspec [OF _ last_in_set])
    with True ins show ?thesis
      by (auto simp: ossl_sframe_list_insert_def intro!: inserted_covered [OF inv])
  next
    case off: False
    show ?thesis
    proof (cases "?fs = []")
      case True
      show ?thesis
      proof (cases rule: frame_new_cases [OF inv, of mem_ok rg pkt data])
        case (2 c)
        then have fl': "ok" "fl' = fl\<lparr>sl_frames := [] @ ?new # [], sl_num_frames := of_nat (length ([] @ ?new # [])),
            sl_fin := fin \<or> sl_fin fl, sl_calls := c\<rparr>"
          using ins True off inv by (auto simp: ossl_sframe_list_insert_def set_fin_def sf_inv_def)
        have "inserted fl ?new fin fl'"
          using 2 True off rg by (intro inserted_new [OF inv, of "[]" "[]" _ "[]", OF _ _ _ _ fl'(2)]) (auto simp: fun_eq_iff)
        with fl'(1) show ?thesis by blast
      qed (use ins True off in \<open>auto simp: ossl_sframe_list_insert_def\<close>)
    next
      case ne: False
      show ?thesis
      proof (cases "sf_start (last ?fs) < r_start rg")
        case True
        show ?thesis
        proof (cases "r_end rg \<le> sf_end (last ?fs)")
          case within: True
          have "frame_bytes_at ?new \<subseteq> frame_bytes_at (last ?fs)"
            using True within by (auto simp: in_frame_bytes_at u64_nat)
          then have "frame_bytes_at ?new \<subseteq> covered ?fs" using ne covered_member [of "last ?fs" ?fs] by auto
          with True within ins ne off show ?thesis
            by (auto simp: ossl_sframe_list_insert_def sf_top_def intro!: inserted_covered [OF inv])
        next
          case beyond: False
          have all: "sf_before f ?new" if "f \<in> set ?fs" for f
            using sf_wf_last [OF wf that] True beyond by (auto simp: sf_before_def)
          show ?thesis
          proof (cases rule: frame_new_cases [OF inv, of mem_ok rg pkt data])
            case (2 c)
            then have fl': "ok" "fl' = fl\<lparr>sl_frames := ?fs @ ?new # [], sl_num_frames := of_nat (length (?fs @ ?new # [])),
                sl_fin := fin \<or> sl_fin fl, sl_calls := c\<rparr>"
              using ins True off inv ne beyond
              by (auto simp: ossl_sframe_list_insert_def append_frame_def set_fin_def sf_inv_def)
            have "inserted fl ?new fin fl'"
              using 2 True off rg wf all
              by (intro inserted_new [OF inv, of ?fs "[]" _ "[]", OF _ _ _ _ fl'(2)]) (auto simp: fun_eq_iff)
            with fl'(1) show ?thesis by blast
          qed (use ins True off ne beyond in \<open>auto simp: ossl_sframe_list_insert_def append_frame_def\<close>)
        qed
      next
        case False
        define prev where "prev = takeWhile (\<lambda>sf. sf_start sf < r_start rg) ?fs"
        define sfs where "sfs = dropWhile (\<lambda>sf. sf_start sf < r_start rg) ?fs"
        have fr: "?fs = prev @ sfs" by (simp add: prev_def sfs_def)
        have st: "\<forall>f\<in>set prev. sf_start f < r_start rg" "\<forall>f\<in>set sfs. r_start rg \<le> sf_start f"
          using take_drop_start [OF wf] by (auto simp: prev_def sfs_def)
        have sfs: "sfs \<noteq> []" using False ne st(1) fr by (cases sfs) auto
        have ins': "(if prev \<noteq> [] \<and> r_end rg \<le> sf_end (last prev) then (set_fin fin fl, True)
            else insert_between mem_ok fl rg pkt data fin prev sfs) = (fl', ok)"
          using ins ne off False sfs
          unfolding ossl_sframe_list_insert_def Let_def prev_def [symmetric] sfs_def [symmetric] by simp
        show ?thesis
        proof (cases "prev \<noteq> [] \<and> r_end rg \<le> sf_end (last prev)")
          case True
          have l: "last prev \<in> set prev" using True by simp
          then have "sf_start (last prev) < r_start rg" using st(1) by blast
          with True have "frame_bytes_at ?new \<subseteq> frame_bytes_at (last prev)"
            by (auto simp: in_frame_bytes_at u64_nat)
          then have c: "frame_bytes_at ?new \<subseteq> covered ?fs"
            using l covered_member [of "last prev" ?fs] fr by auto
          have "sf_end (last prev) < sf_end (last ?fs)"
            using wf l sfs unfolding fr by (simp add: sf_before_def)
          with True have "r_end rg \<le> sf_end (last ?fs)" by (meson le_less_trans less_imp_le)
          with True c ins' ne show ?thesis
            by (auto simp: sf_top_def intro!: inserted_covered [OF inv])
        next
          case gap: False
          then have ib: "insert_between mem_ok fl rg pkt data fin prev sfs = (fl', ok)"
            using ins' by (simp only: if_False)
          have g: "prev \<noteq> [] \<Longrightarrow> sf_end (last prev) < r_end rg" and o: "sl_offset fl < r_end rg"
            using gap off by auto
          show ?thesis using insert_between_spec [OF inv fr sfs st g rg o ib] by auto
        qed
      qed
    qed
  qed
  then show "mem_ok \<Longrightarrow> ok" "\<not> ok \<Longrightarrow> fl' = fl" "ok \<Longrightarrow> inserted fl ?new fin fl'" by auto
qed

section \<open>Dropping\<close>

definition dropped_to :: "SFRAME_LIST \<Rightarrow> u64 \<Rightarrow> SFRAME_LIST \<Rightarrow> bool" where
  "dropped_to fl limit fl' \<longleftrightarrow> sf_inv fl' \<and> sl_offset fl' = limit \<and> \<not> sl_head_locked fl' \<and>
     sl_cleanse fl' = sl_cleanse fl \<and> sl_fin fl' = sl_fin fl \<and> sf_top fl' = sf_top fl \<and>
     set (sl_frames fl') \<subseteq> set (sl_frames fl) \<and>
     covered (sl_frames fl') \<union> {..<unat limit} = covered (sl_frames fl) \<union> {..<unat limit}"

lemma top_ge_offset: "sf_inv fl \<Longrightarrow> sl_offset fl \<le> sf_top fl"
  by (cases "sl_frames fl" rule: rev_cases) (auto simp: sf_top_def sf_inv_def intro: order.strict_implies_order)

lemma drop_frames_spec:
  assumes inv: "sf_inv fl" and d: "ossl_sframe_list_drop_frames fl limit = (fl', ok)"
  shows "ok \<longleftrightarrow> sl_offset fl \<le> limit \<and> limit \<le> sf_top fl" "\<not> ok \<Longrightarrow> fl' = fl" "ok \<Longrightarrow> dropped_to fl limit fl'"
proof -
  have "ossl_sframe_list_drop_frames fl limit =
    (if sl_offset fl \<le> limit \<and> limit \<le> sf_top fl
     then (case drop_until (fl\<lparr>sl_offset := limit\<rparr>) limit (sl_frames fl) of (fl, rest) \<Rightarrow>
        (fl\<lparr>sl_frames := rest, sl_head_locked := False\<rparr>, True)) else (fl, False))"
    by (auto simp: ossl_sframe_list_drop_frames_def Let_def sf_top_def)
  note d' = d [unfolded this]
  from d' show ok: "ok \<longleftrightarrow> sl_offset fl \<le> limit \<and> limit \<le> sf_top fl" and "\<not> ok \<Longrightarrow> fl' = fl"
    by (auto split: if_splits prod.splits)
  assume "ok"
  define gone where "gone = takeWhile (\<lambda>f. sf_end f \<le> limit) (sl_frames fl)"
  define rest where "rest = dropWhile (\<lambda>f. sf_end f \<le> limit) (sl_frames fl)"
  have split: "sl_frames fl = gone @ rest" by (simp add: gone_def rest_def)
  have wf: "sf_wf (sl_offset fl) (gone @ rest)" using inv split by (simp add: sf_inv_def)
  have t: "\<forall>f\<in>set gone. sf_end f \<le> limit" "\<forall>f\<in>set rest. limit < sf_end f"
    using take_drop_end [of "sl_offset fl" "sl_frames fl" limit] inv by (auto simp: sf_inv_def gone_def rest_def)
  let ?c = "sl_calls fl @ concat (map (free_calls (sl_cleanse fl)) gone)"
  have bal: "pkt_balance ?c = pkts_held rest"
  proof
    show "pkt_balance ?c p = pkts_held rest p" for p
      using inv split by (simp add: sf_inv_def free_all_balance)
  qed
  have num: "sl_num_frames fl = of_nat (length gone) + of_nat (length rest)"
    using inv split by (simp add: sf_inv_def)
  have fl': "fl' = fl\<lparr>sl_frames := rest, sl_num_frames := of_nat (length rest), sl_offset := limit,
      sl_head_locked := False, sl_calls := ?c\<rparr>"
    using d' ok \<open>ok\<close> num
    unfolding drop_until_eq gone_def [symmetric] rest_def [symmetric] by auto
  have top: "sf_top fl' = sf_top fl"
  proof (cases "rest = []")
    case True
    then have "sf_top fl \<le> limit"
      using t(1) ok \<open>ok\<close> by (cases "gone = []") (auto simp: sf_top_def split)
    then show ?thesis using True ok \<open>ok\<close> by (simp add: sf_top_def fl')
  qed (simp add: sf_top_def fl' split)
  have wf': "sf_wf limit rest" using wf t(2) by (simp add: sf_wf_def sorted_wrt_append)
  have "covered gone \<subseteq> {..<unat limit}"
    using t(1) by (fastforce simp: covered_def in_frame_bytes_at u64_nat)
  with wf' top bal show "dropped_to fl limit fl'"
    by (auto simp: dropped_to_def sf_inv_def fl' split)
qed

lemma destroy_balance:
  assumes "sf_inv fl"
  shows "pkt_balance (sl_calls (ossl_sframe_list_destroy fl)) p = 0"
  using assms by (simp add: ossl_sframe_list_destroy_def destroy_eq free_all_balance sf_inv_def)

section \<open>Peeking\<close>

text \<open>Where the contiguous data from an offset ends.\<close>

fun contig :: "u64 \<Rightarrow> STREAM_FRAME list \<Rightarrow> u64" where
  "contig off [] = off"
| "contig off (f # fs) = (if sf_start f > off then off else contig (sf_end f) fs)"

lemma wf_next: "sf_wf off (f # fs) \<Longrightarrow> sf_wf (sf_end f) fs"
  by (auto simp: sf_wf_def sf_before_def)

lemma contig_covered:
  assumes "sf_wf off frames"
  shows "off \<le> contig off frames" "{unat off..<unat (contig off frames)} \<subseteq> covered frames"
    and "unat (contig off frames) \<notin> covered frames"
    and "contig off frames \<le> (if frames = [] then off else sf_end (last frames))"
  using assms
proof (atomize (full), induction frames arbitrary: off)
  case (Cons f fs)
  note w = wf_next [OF Cons.prems]
  note IH = Cons.IH [OF w]
  show ?case
  proof (cases "sf_start f > off")
    case True
    have "unat off \<notin> covered (f # fs)"
      using Cons.prems True by (fastforce simp: covered_def in_frame_bytes_at sf_before_def u64_nat)
    moreover have "off \<le> sf_end (last (f # fs))"
      using Cons.prems by (auto simp: sf_wf_def intro: order.strict_implies_order)
    ultimately show ?thesis using True by simp
  next
    case False
    then have "{unat off..<unat (sf_end f)} \<subseteq> frame_bytes_at f" "off \<le> sf_end f" "unat (contig (sf_end f) fs) \<notin> frame_bytes_at f"
      using Cons.prems IH by (auto simp: in_frame_bytes_at u64_nat)
    moreover have "{unat off..<unat (contig (sf_end f) fs)} \<subseteq>
        {unat off..<unat (sf_end f)} \<union> {unat (sf_end f)..<unat (contig (sf_end f) fs)}" by auto
    ultimately show ?thesis using IH False by (auto simp: u64_nat)
  qed
qed simp

text \<open>Where the iterator stands: the offset of the next byte and the position of the next frame.\<close>

definition peek_pos :: "SFRAME_LIST \<Rightarrow> nat option \<Rightarrow> u64 \<times> nat" where
  "peek_pos fl iter = (case iter of None \<Rightarrow> (sl_offset fl, 0) | Some j \<Rightarrow> (sf_end (sl_frames fl ! j), Suc j))"

lemma peek_end:
  assumes "peek_pos fl iter = (start, i)" "drop i (sl_frames fl) = []"
  shows "\<not> po_ok (ossl_sframe_list_peek fl iter)" "po_fin (ossl_sframe_list_peek fl iter) = sl_fin fl"
  using assms by (auto simp: ossl_sframe_list_peek_def peek_pos_def Let_def split: option.splits)

lemma peek_frame:
  assumes pos: "peek_pos fl iter = (start, i)" and fs: "drop i (sl_frames fl) = f # rest" and "start < sf_end f"
  shows "po_ok (ossl_sframe_list_peek fl iter) \<longleftrightarrow> sf_start f \<le> start"
    and "\<not> sf_start f \<le> start \<Longrightarrow> \<not> po_fin (ossl_sframe_list_peek fl iter)"
    and "sf_start f \<le> start \<Longrightarrow> ossl_sframe_list_peek fl iter =
      \<lparr>po_ok = True, po_iter = Some i, po_range = \<lparr>r_start = start, r_end = sf_end f\<rparr>,
       po_data = map_option (drop (unat (start - sf_start f))) (sf_data f), po_fin = (rest = [] \<and> sl_fin fl)\<rparr>"
    and "peek_pos fl (Some i) = (sf_end f, Suc i)" "drop (Suc i) (sl_frames fl) = rest"
proof -
  have i: "i < length (sl_frames fl)" "sl_frames fl ! i = f" "drop (Suc i) (sl_frames fl) = rest"
    using fs by (metis drop_all linorder_not_le list.simps(3), metis hd_drop_conv_nth drop_all linorder_not_le list.sel(1) list.simps(3),
      metis drop_Suc list.sel(3) tl_drop)
  then have l: "Suc i \<ge> length (sl_frames fl) \<longleftrightarrow> rest = []" by auto
  show "peek_pos fl (Some i) = (sf_end f, Suc i)" "drop (Suc i) (sl_frames fl) = rest"
    using i by (auto simp: peek_pos_def)
  show "po_ok (ossl_sframe_list_peek fl iter) \<longleftrightarrow> sf_start f \<le> start"
    "\<not> sf_start f \<le> start \<Longrightarrow> \<not> po_fin (ossl_sframe_list_peek fl iter)"
    "sf_start f \<le> start \<Longrightarrow> ossl_sframe_list_peek fl iter =
      \<lparr>po_ok = True, po_iter = Some i, po_range = \<lparr>r_start = start, r_end = sf_end f\<rparr>,
       po_data = map_option (drop (unat (start - sf_start f))) (sf_data f), po_fin = (rest = [] \<and> sl_fin fl)\<rparr>"
    using pos assms(3) i(1,2) l
    by (auto simp: ossl_sframe_list_peek_def peek_pos_def Let_def not_le not_less split: option.splits)
qed

section \<open>Moving data to a side storage\<close>

text \<open>
  A frame of the stream \<open>S\<close> carries the bytes of its range, or the side storage holds those from the read
  offset on.
\<close>

definition frame_content :: "(nat \<Rightarrow> u8 \<Rightarrow> bool) \<Rightarrow> (nat \<Rightarrow> u8) \<Rightarrow> u64 \<Rightarrow> STREAM_FRAME \<Rightarrow> bool" where
  "frame_content holds S off f \<longleftrightarrow>
     (case sf_data f of
        Some d \<Rightarrow> d = map S [unat (sf_start f)..<unat (sf_end f)]
      | None \<Rightarrow> \<forall>i\<in>frame_bytes_at f. unat off \<le> i \<longrightarrow> holds i (S i))"

lemma frame_content_mono:
  "frame_content holds S off f \<Longrightarrow> (\<And>i. unat off \<le> i \<Longrightarrow> holds i (S i) \<Longrightarrow> holds' i (S i)) \<Longrightarrow> off \<le> off' \<Longrightarrow>
   frame_content holds' S off' f"
  by (auto simp: frame_content_def u64_nat split: option.splits)

text \<open>
  The contract of \<open>sframe_list_write_at_cb\<close>: a write that succeeds stores its bytes and keeps the others, one
  that fails keeps all.
\<close>

locale side_storage =
  fixes write_at :: "'s \<Rightarrow> u64 \<Rightarrow> u8 list \<Rightarrow> 's \<times> bool"
    and storage_ok :: "'s \<Rightarrow> bool"
    and holds :: "'s \<Rightarrow> nat \<Rightarrow> u8 \<Rightarrow> bool"
  assumes write_ok: "storage_ok st \<Longrightarrow> unat lo + length bs < 2 ^ 62 \<Longrightarrow> write_at st lo bs = (st', True) \<Longrightarrow>
      storage_ok st' \<and> (\<forall>j<length bs. holds st' (unat lo + j) (bs ! j)) \<and>
      (\<forall>i b. holds st i b \<longrightarrow> (i < unat lo \<or> unat lo + length bs \<le> i) \<longrightarrow> holds st' i b)"
    and write_fails: "write_at st lo bs = (st', False) \<Longrightarrow> st' = st"
begin

lemma write_stream:
  assumes "storage_ok st" "unat hi < 2 ^ 62" "lo \<le> hi" "write_at st lo (map S [unat lo..<unat hi]) = (st', True)"
  shows "storage_ok st'" "unat lo \<le> i \<Longrightarrow> i < unat hi \<Longrightarrow> holds st' i (S i)" "holds st i (S i) \<Longrightarrow> holds st' i (S i)"
proof -
  have w: "storage_ok st'" "\<And>j. j < unat hi - unat lo \<Longrightarrow> holds st' (unat lo + j) (S (unat lo + j))"
    "\<And>i b. holds st i b \<Longrightarrow> i < unat lo \<or> unat lo + (unat hi - unat lo) \<le> i \<Longrightarrow> holds st' i b"
    using write_ok [OF assms(1) _ assms(4)] assms(2,3) by (auto simp: u64_nat)
  show "storage_ok st'" by (rule w(1))
  show in_range: "holds st' i (S i)" if "unat lo \<le> i" "i < unat hi" for i
    using w(2) [of "i - unat lo"] that by simp
  show "holds st i (S i) \<Longrightarrow> holds st' i (S i)"
    using in_range [of i] w(3) [of i "S i"] by linarith
qed

end

text \<open>The outcome of the loop on the frames \<open>fs\<close>, which leaves the frames \<open>fs'\<close>.\<close>

definition moved_to ::
  "('s \<Rightarrow> nat \<Rightarrow> u8 \<Rightarrow> bool) \<Rightarrow> (nat \<Rightarrow> u8) \<Rightarrow> u64 \<Rightarrow> SFRAME_LIST \<Rightarrow> 's \<Rightarrow> STREAM_FRAME list \<Rightarrow>
   SFRAME_LIST \<Rightarrow> 's \<Rightarrow> STREAM_FRAME list \<Rightarrow> bool" where
  "moved_to holds S off fl st fs fl' st' fs' \<longleftrightarrow>
     sf_wf off fs' \<and> covered fs' = covered fs \<and> (\<forall>f\<in>set fs'. frame_content (holds st') S off f) \<and>
     (\<forall>i. holds st i (S i) \<longrightarrow> holds st' i (S i)) \<and>
     (fs = [] \<longleftrightarrow> fs' = []) \<and> (fs \<noteq> [] \<longrightarrow> sf_end (last fs') = sf_end (last fs)) \<and>
     (\<forall>x. (\<forall>f\<in>set fs. sf_before x f) \<longrightarrow> (\<forall>f\<in>set fs'. sf_before x f)) \<and>
     sl_num_frames fl' - of_nat (length fs') = sl_num_frames fl - of_nat (length fs) \<and>
     (\<forall>p. pkt_balance (sl_calls fl') p - pkts_held fs' p = pkt_balance (sl_calls fl) p - pkts_held fs p) \<and>
     (\<exists>n c. fl' = fl\<lparr>sl_num_frames := n, sl_calls := c\<rparr>)"

lemma moved_toD:
  assumes "moved_to holds S off fl st fs fl' st' fs'"
  shows "sf_wf off fs'" "\<forall>f\<in>set fs'. frame_content (holds st') S off f"
  using assms by (simp_all add: moved_to_def)

lemma moved_to_refl:
  "sf_wf off fs \<Longrightarrow> \<forall>f\<in>set fs. frame_content (holds st) S off f \<Longrightarrow> moved_to holds S off fl st fs fl st fs"
  by (auto simp: moved_to_def intro!: exI [of _ "sl_num_frames fl"] exI [of _ "sl_calls fl"])

lemma moved_to_trans:
  "moved_to holds S off fl st fs fl1 st1 fs1 \<Longrightarrow> moved_to holds S off fl1 st1 fs1 fl2 st2 fs2 \<Longrightarrow>
   moved_to holds S off fl st fs fl2 st2 fs2"
  unfolding moved_to_def by (clarsimp; metis)

text \<open>Merging a frame without data into the frame without data that it touches.\<close>

lemma merge_frame:
  assumes wf: "sf_wf off (pre @ p # sf # rest)" and c: "\<forall>f\<in>set (pre @ p # sf # rest). frame_content (holds st) S off f"
    and d: "sf_data p = None" "sf_data sf = None" and touch: "sf_start sf \<le> sf_end p"
  shows "moved_to holds S off fl st (pre @ p # sf # rest)
    (stream_frame_free (fl\<lparr>sl_num_frames := sl_num_frames fl - 1\<rparr>) sf) st
    (pre @ p\<lparr>sf_range := (sf_range p)\<lparr>r_end := sf_end sf\<rparr>\<rparr> # rest)"
proof -
  let ?q = "p\<lparr>sf_range := (sf_range p)\<lparr>r_end := sf_end sf\<rparr>\<rparr>"
  have b: "sf_start p \<le> sf_start sf" "sf_end p < sf_end sf" "sf_start p \<le> sf_end sf"
    using wf by (auto simp: sf_before_def)
  have bytes: "frame_bytes_at ?q = frame_bytes_at p \<union> frame_bytes_at sf"
    using b touch by (auto simp: in_frame_bytes_at u64_nat)
  have "frame_content (holds st) S off ?q"
    using c d by (auto simp: frame_content_def bytes)
  moreover have "sf_wf off (pre @ ?q # rest)"
    using wf b by (auto simp: sf_before_def)
  ultimately show ?thesis
    using c b by (auto simp: moved_to_def bytes stream_frame_free_eq sf_before_def
        intro!: exI [of _ "sl_num_frames fl - 1"] intro: order.strict_implies_order)
qed

context side_storage
begin

text \<open>Moving the data of one frame; \<open>limit\<close> is where the data not yet stored begins.\<close>

lemma move_frame:
  fixes fl :: SFRAME_LIST
  assumes wf: "sf_wf off (pre @ sf # rest)" and c: "\<forall>f\<in>set (pre @ sf # rest). frame_content (holds st) S off f"
    and st: "storage_ok st" "unat (sf_end sf) < 2 ^ 62" and d: "sf_data sf = Some d"
    and lim: "limit = (if l0 < sf_start sf then sf_start sf else l0)"
      "if pre = [] then l0 = off else l0 = sf_end (last pre) \<and> sf_data (last pre) = None"
    and w: "write_at st limit (take (unat (sf_end sf - limit))
      (if limit > sf_start sf then drop (unat (limit - sf_start sf)) d else d)) = (st', True)"
  defines "fl' \<equiv> (let fl = sl_cleanse_data fl sf in fl\<lparr>sl_calls := sl_calls fl @ [Pkt_Release (sf_pkt sf)]\<rparr>)"
  shows "storage_ok st'" "moved_to holds S off fl st (pre @ sf # rest) fl' st' (pre @ sf\<lparr>sf_data := None, sf_pkt := None\<rparr> # rest)"
proof -
  let ?sf = "sf\<lparr>sf_data := None, sf_pkt := None\<rparr>"
  have l0: "l0 < sf_end sf" "off \<le> l0"
    using wf lim(2) by (cases pre rule: rev_cases; auto simp: sf_before_def intro: order.strict_implies_order)+
  have l: "sf_start sf \<le> limit" "limit \<le> sf_end sf"
    using wf l0 lim(1) by (auto intro: order.strict_implies_order)
  have "d = map S [unat (sf_start sf)..<unat (sf_end sf)]"
    using c d by (auto simp: frame_content_def)
  then have "take (unat (sf_end sf - limit)) (if limit > sf_start sf then drop (unat (limit - sf_start sf)) d else d) =
    map S [unat limit..<unat (sf_end sf)]"
    using l by (auto simp: drop_map take_map unat_u64_sub u64_nat drop_upt take_upt)
  note ws = write_stream [OF st l(2), of S st', folded this, OF w]
  show "storage_ok st'" by (rule ws(1))
  have "frame_content (holds st') S off ?sf"
  proof (unfold frame_content_def, simp, intro ballI impI)
    fix i
    assume i: "i \<in> frame_bytes_at ?sf" "unat off \<le> i"
    show "holds st' i (S i)"
    proof (cases "unat limit \<le> i")
      case False
      then have il: "i < unat l0" using lim(1) i by (auto simp: in_frame_bytes_at split: if_splits)
      then have "pre \<noteq> []" using lim(2) i by (auto simp: u64_nat)
      then have lp: "last pre \<in> set pre" "l0 = sf_end (last pre)" "sf_data (last pre) = None"
        using lim(2) by auto
      then have "i \<in> frame_bytes_at (last pre)"
        using wf il i by (auto simp: in_frame_bytes_at sf_before_def u64_nat)
      moreover have "frame_content (holds st) S off (last pre)" using c lp(1) by simp
      ultimately show ?thesis
        using lp(3) i(2) by (intro ws(3)) (simp add: frame_content_def)
    qed (use ws(2) i in \<open>auto simp: in_frame_bytes_at\<close>)
  qed
  moreover have "frame_bytes_at ?sf = frame_bytes_at sf" by (simp add: frame_bytes_at_def)
  moreover have "frame_content (holds st') S off f" if "f \<in> set (pre @ sf # rest)" for f
    using frame_content_mono [of "holds st" S off f "holds st'" off] c that ws(3) by blast
  moreover have "fl' = fl\<lparr>sl_calls := sl_calls fl @ free_calls (sl_cleanse fl) sf\<rparr>"
    unfolding fl'_def using stream_frame_free_eq [of fl sf] by (simp add: stream_frame_free_def)
  ultimately show "moved_to holds S off fl st (pre @ sf # rest) fl' st' (pre @ ?sf # rest)"
    using wf ws(3) by (auto simp: moved_to_def sf_before_def intro!: exI [of _ "sl_num_frames fl"])
qed

lemma move_one_spec:
  assumes wf: "sf_wf off (pre @ sf # rest)" and c: "\<forall>f\<in>set (pre @ sf # rest). frame_content (holds st) S off f"
    and st: "storage_ok st" "unat (sf_end sf) < 2 ^ 62"
    and lim: "if pre = [] then l0 = off else l0 = sf_end (last pre) \<and> sf_data (last pre) = None"
    and m: "move_one write_at fl st (if l0 < sf_start sf then sf_start sf else l0) sf = (fl', st', sf', ok)"
  shows "storage_ok st'" "moved_to holds S off fl st (pre @ sf # rest) fl' st' (pre @ sf' # rest)"
    "sf_range sf' = sf_range sf" "ok \<Longrightarrow> sf_data sf' = None"
proof -
  define limit where "limit = (if l0 < sf_start sf then sf_start sf else l0)"
  note m' = m [folded limit_def]
  note refl = moved_to_refl [of off "pre @ sf # rest" holds st S fl, OF wf c]
  have "storage_ok st' \<and> moved_to holds S off fl st (pre @ sf # rest) fl' st' (pre @ sf' # rest) \<and>
    sf_range sf' = sf_range sf \<and> (ok \<longrightarrow> sf_data sf' = None)"
  proof (cases "sf_data sf")
    case None
    with m' st refl show ?thesis by (auto simp: move_one_def)
  next
    case (Some d)
    obtain st2 ok2 where w: "write_at st limit (take (unat (sf_end sf - limit))
        (if limit > sf_start sf then drop (unat (limit - sf_start sf)) d else d)) = (st2, ok2)" by fastforce
    show ?thesis
    proof (cases ok2)
      case True
      note mf = move_frame [OF wf c st Some limit_def lim w [unfolded eqTrueI [OF True]]]
      show ?thesis using m' mf Some w True by (auto simp: move_one_def Let_def)
    next
      case False
      then have "st2 = st" using write_fails w by auto
      then show ?thesis using m' Some w st refl False by (auto simp: move_one_def Let_def)
    qed
  qed
  then show "storage_ok st'" "moved_to holds S off fl st (pre @ sf # rest) fl' st' (pre @ sf' # rest)"
    "sf_range sf' = sf_range sf" "ok \<Longrightarrow> sf_data sf' = None" by auto
qed

lemma move_loop_spec:
  assumes "sf_wf off (rev passed @ fs)" "\<forall>f\<in>set (rev passed @ fs). frame_content (holds st) S off f"
    and "storage_ok st" "\<forall>f\<in>set fs. unat (sf_end f) < 2 ^ 62"
    and "if passed = [] then limit = off else limit = sf_end (hd passed) \<and> sf_data (hd passed) = None"
    and "move_loop write_at fl st limit passed fs = (fl', st', fs', ok)"
  shows "storage_ok st' \<and> moved_to holds S off fl st (rev passed @ fs) fl' st' fs'"
  using assms
proof (induction fs arbitrary: passed fl st limit)
  case Nil
  then show ?case by (auto intro: moved_to_refl)
next
  case (Cons sf fs)
  obtain fl1 st1 sf1 ok1 where
    m: "move_one write_at fl st (if limit < sf_start sf then sf_start sf else limit) sf = (fl1, st1, sf1, ok1)"
    by (rule prod_cases4)
  have lp: "if rev passed = [] then limit = off else limit = sf_end (last (rev passed)) \<and> sf_data (last (rev passed)) = None"
    using Cons.prems(5) by (auto simp: last_rev)
  have bd: "unat (sf_end sf) < 2 ^ 62" "\<forall>f\<in>set fs. unat (sf_end f) < 2 ^ 62" using Cons.prems(4) by auto
  note s1 = move_one_spec [OF Cons.prems(1-3) bd(1) lp m]
  have w1: "sf_wf off (rev passed @ sf1 # fs)" "\<forall>f\<in>set (rev passed @ sf1 # fs). frame_content (holds st1) S off f"
    using moved_toD [OF s1(2)] by simp_all
  note loop = Cons.prems(6) [unfolded move_loop.simps m split]
  consider "\<not> ok1" | "ok1" "passed \<noteq> [] \<and> sf_end (hd passed) \<ge> sf_start sf1"
    | "ok1" "\<not> (passed \<noteq> [] \<and> sf_end (hd passed) \<ge> sf_start sf1)" by blast
  then show ?case
  proof cases
    case 1
    then have "fl' = fl1" "st' = st1" "fs' = rev passed @ sf1 # fs"
      using loop by (simp_all only: bool.case prod.inject simp_thms)
    with s1(1,2) show ?thesis by simp
  next
    case 2
    then obtain p ps where ps: "passed = p # ps" by (cases passed) auto
    let ?q = "p\<lparr>sf_range := (sf_range p)\<lparr>r_end := sf_end sf1\<rparr>\<rparr>"
    let ?fl = "stream_frame_free (fl1\<lparr>sl_num_frames := sl_num_frames fl1 - 1\<rparr>) sf1"
    have pd: "sf_data p = None" using Cons.prems(5) ps by simp
    have mg: "moved_to holds S off fl1 st1 (rev passed @ sf1 # fs) ?fl st1 (rev ps @ ?q # fs)"
      using merge_frame [of off "rev ps" p sf1 fs holds st1 S fl1] w1 pd s1(4) 2 by (simp add: ps)
    have call: "move_loop write_at ?fl st1 (sf_end sf1) (?q # ps) fs = (fl', st', fs', ok)"
      using loop 2 unfolding ps by (simp only: bool.case if_True list.sel simp_thms list.distinct)
    have wq: "sf_wf off (rev (?q # ps) @ fs)" "\<forall>f\<in>set (rev (?q # ps) @ fs). frame_content (holds st1) S off f"
      using moved_toD [OF mg] by simp_all
    have "storage_ok st' \<and> moved_to holds S off ?fl st1 (rev (?q # ps) @ fs) fl' st' fs'"
      by (rule Cons.IH [OF wq s1(1) bd(2) _ call]) (use pd in simp)
    then show ?thesis using moved_to_trans [OF moved_to_trans [OF s1(2) mg]] by simp
  next
    case 3
    then have call: "move_loop write_at fl1 st1 (sf_end sf1) (sf1 # passed) fs = (fl', st', fs', ok)"
      using loop by (simp only: bool.case if_False)
    have "storage_ok st' \<and> moved_to holds S off fl1 st1 (rev (sf1 # passed) @ fs) fl' st' fs'"
      by (rule Cons.IH [OF _ _ s1(1) bd(2) _ call]) (use w1 s1(4) 3 in simp_all)
    then show ?thesis using moved_to_trans [OF s1(2)] by simp
  qed
qed

text \<open>Moving the data keeps the list, its coverage and the content of every frame.\<close>

lemma move_data_spec:
  assumes inv: "sf_inv fl" and c: "\<forall>f\<in>set (sl_frames fl). frame_content (holds st) S (sl_offset fl) f"
    and st: "storage_ok st" "\<forall>f\<in>set (sl_frames fl). unat (sf_end f) < 2 ^ 62"
    and m: "ossl_sframe_list_move_data write_at fl st = (fl', st', ok)"
  shows "sf_inv fl'" "storage_ok st'" "\<forall>f\<in>set (sl_frames fl'). frame_content (holds st') S (sl_offset fl) f"
    "covered (sl_frames fl') = covered (sl_frames fl)" "sf_top fl' = sf_top fl" "sl_offset fl' = sl_offset fl"
    "sl_head_locked fl' = sl_head_locked fl" "sl_fin fl' = sl_fin fl" "sl_cleanse fl' = sl_cleanse fl"
proof -
  have "sf_inv fl' \<and> storage_ok st' \<and> (\<forall>f\<in>set (sl_frames fl'). frame_content (holds st') S (sl_offset fl) f) \<and>
    covered (sl_frames fl') = covered (sl_frames fl) \<and> sf_top fl' = sf_top fl \<and> sl_offset fl' = sl_offset fl \<and>
    sl_head_locked fl' = sl_head_locked fl \<and> sl_fin fl' = sl_fin fl \<and> sl_cleanse fl' = sl_cleanse fl"
  proof (cases "sl_frames fl = []")
    case True
    then show ?thesis using m inv st by (auto simp: ossl_sframe_list_move_data_def)
  next
    case False
    define k :: nat where "k = (if sl_head_locked fl then 1 else 0)"
    define hd_part tl_part where "hd_part = take k (sl_frames fl)" and "tl_part = drop k (sl_frames fl)"
    have split: "sl_frames fl = hd_part @ tl_part" by (simp add: hd_part_def tl_part_def)
    obtain fl1 fs' where l: "move_loop write_at fl st (sl_offset fl) [] tl_part = (fl1, st', fs', ok)"
      and fl': "fl' = fl1\<lparr>sl_frames := hd_part @ fs'\<rparr>"
      using m False by (auto simp: ossl_sframe_list_move_data_def Let_def k_def hd_part_def tl_part_def split: prod.splits)
    have wf: "sf_wf (sl_offset fl) (hd_part @ tl_part)" using inv split by (simp add: sf_inv_def)
    have r: "storage_ok st'" "moved_to holds S (sl_offset fl) fl st tl_part fl1 st' fs'"
      using move_loop_spec [of "sl_offset fl" "[]" tl_part st S "sl_offset fl" fl fl1 st' fs' ok] wf c st l split by auto
    then have r2: "sf_wf (sl_offset fl) fs'" "covered fs' = covered tl_part"
      "\<forall>f\<in>set fs'. frame_content (holds st') S (sl_offset fl) f" "\<forall>i. holds st i (S i) \<longrightarrow> holds st' i (S i)"
      "(tl_part = []) = (fs' = [])" "tl_part \<noteq> [] \<Longrightarrow> sf_end (last fs') = sf_end (last tl_part)"
      "\<And>x. \<forall>f\<in>set tl_part. sf_before x f \<Longrightarrow> \<forall>f\<in>set fs'. sf_before x f"
      "sl_num_frames fl1 - of_nat (length fs') = sl_num_frames fl - of_nat (length tl_part)"
      "\<And>p. pkt_balance (sl_calls fl1) p - pkts_held fs' p = pkt_balance (sl_calls fl) p - pkts_held tl_part p"
      by (auto simp: moved_to_def)
    have fl1: "sl_offset fl1 = sl_offset fl" "sl_head_locked fl1 = sl_head_locked fl" "sl_fin fl1 = sl_fin fl"
      "sl_cleanse fl1 = sl_cleanse fl"
      using r(2) by (auto simp: moved_to_def)
    have hc: "\<forall>f\<in>set hd_part. frame_content (holds st') S (sl_offset fl) f"
      using c r2(4) split by (auto intro: frame_content_mono [of "holds st"])
    have "pkt_balance (sl_calls fl1) = pkts_held (hd_part @ fs')"
    proof
      show "pkt_balance (sl_calls fl1) p = pkts_held (hd_part @ fs') p" for p
        using r2(9) [of p] inv split by (simp add: sf_inv_def)
    qed
    moreover have "sl_num_frames fl1 = of_nat (length (hd_part @ fs'))"
      using r2(8) inv split by (simp add: sf_inv_def diff_eq_eq)
    ultimately have "sf_inv fl'"
      using r2(1,7) wf fl1 by (simp add: sf_inv_def fl')
    moreover have "sf_top fl' = sf_top fl"
      using False r2(5,6) split by (cases "fs' = []") (auto simp: sf_top_def fl')
    ultimately show ?thesis using r(1) r2(2,3) hc fl1 split by (auto simp: fl')
  qed
  then show "sf_inv fl'" "storage_ok st'" "\<forall>f\<in>set (sl_frames fl'). frame_content (holds st') S (sl_offset fl) f"
    "covered (sl_frames fl') = covered (sl_frames fl)" "sf_top fl' = sf_top fl" "sl_offset fl' = sl_offset fl"
    "sl_head_locked fl' = sl_head_locked fl" "sl_fin fl' = sl_fin fl" "sl_cleanse fl' = sl_cleanse fl"
    by auto
qed

end

section \<open>Property\<close>


end
