(* ===== verification/Ring_Buf.thy ===== *)
theory Ring_Buf
  imports Ossl_Time
begin

text \<open>
  The byte-wise ring buffer of \<open>include/internal/ring_buf.h\<close>, which holds the data of QUIC streams by
  logical offset. The allocation is the list \<open>rb_start\<close> of \<open>rb_alloc\<close> bytes; a pointer into it is the list
  of the bytes from there on. The block that \<open>OPENSSL_malloc\<close> returns is an argument of
  \<open>ring_buf_resize\<close>, \<open>None\<close> if it fails. The contents are described by the byte at each logical offset of
  the window that starts at the cull tail and is as long as the allocation.
\<close>

section \<open>Model\<close>

record ring_buf =
  rb_start :: "u8 list"
  rb_alloc :: u64
  head_offset :: u64
  ctail_offset :: u64

definition MAX_OFFSET :: u64 where
  "MAX_OFFSET = push_bit 62 1"

definition ring_buf_init :: ring_buf where
  "ring_buf_init = \<lparr>rb_start = [], rb_alloc = 0, head_offset = 0, ctail_offset = 0\<rparr>"

definition ring_buf_destroy :: "ring_buf \<Rightarrow> ring_buf" where
  "ring_buf_destroy r = r\<lparr>rb_start := [], rb_alloc := 0\<rparr>"

definition ring_buf_used :: "ring_buf \<Rightarrow> u64" where
  "ring_buf_used r = head_offset r - ctail_offset r"

definition ring_buf_avail :: "ring_buf \<Rightarrow> u64" where
  "ring_buf_avail r = rb_alloc r - ring_buf_used r"

text \<open>\<open>memcpy\<close> into an allocation at index \<open>idx\<close>.\<close>

definition mem_write :: "u8 list \<Rightarrow> nat \<Rightarrow> u8 list \<Rightarrow> u8 list" where
  "mem_write mem idx bs = take idx mem @ bs @ drop (idx + length bs) mem"

text \<open>The loop of \<open>ring_buf_write_at\<close> makes at most two rounds; \<open>buf_len\<close> is the length of \<open>buf\<close>.\<close>

fun write_at_loop :: "nat \<Rightarrow> ring_buf \<Rightarrow> u64 \<Rightarrow> u8 list \<Rightarrow> ring_buf" where
  "write_at_loop 0 r logical_offset buf = r"
| "write_at_loop (Suc n) r logical_offset buf =
     (if buf = [] then r
      else let idx = logical_offset mod rb_alloc r;
               l = (if length buf < unat (rb_alloc r - idx) then length buf else unat (rb_alloc r - idx));
               e = logical_offset + of_nat l
           in write_at_loop n
                (r\<lparr>rb_start := mem_write (rb_start r) (unat idx) (take l buf),
                   head_offset := if head_offset r < e then e else head_offset r\<rparr>)
                e (drop l buf))"

definition ring_buf_write_at :: "ring_buf \<Rightarrow> u64 \<Rightarrow> u8 list \<Rightarrow> ring_buf \<times> bool" where
  "ring_buf_write_at r logical_offset buf =
     (let avail = ring_buf_avail r;
          buf_len = of_nat (length buf);
          (a, err1) = safe_add_u64 logical_offset buf_len;
          (b, err2) = safe_add_u64 (head_offset r) avail;
          (c, err3) = safe_add_u64 (head_offset r) buf_len
      in if logical_offset < ctail_offset r \<or> a > b \<or> c > MAX_OFFSET \<or> err1 \<or> err2 \<or> err3
         then (r, False)
         else (write_at_loop 2 r logical_offset buf, True))"

text \<open>
  The loop of \<open>ring_buf_push\<close>. The remainder by \<open>rb_alloc r\<close> is defined only if that is not 0, which it is
  not when a byte is available; then every round copies at least one byte.
\<close>

function ring_buf_push_loop :: "ring_buf \<Rightarrow> u8 list \<Rightarrow> nat \<Rightarrow> ring_buf \<times> nat" where
  "ring_buf_push_loop r buf pushed =
     (let avail = ring_buf_avail r;
          buf = take (unat avail) buf;
          buf = take (unat (MAX_OFFSET - head_offset r)) buf
      in if buf = [] \<or> rb_alloc r = 0 then (r, pushed)
         else let idx = head_offset r mod rb_alloc r;
                  l = (if length buf < unat (rb_alloc r - idx) then length buf else unat (rb_alloc r - idx))
              in ring_buf_push_loop
                   (r\<lparr>rb_start := mem_write (rb_start r) (unat idx) (take l buf),
                      head_offset := head_offset r + of_nat l\<rparr>)
                   (drop l buf) (pushed + l))"
  by pat_completeness auto
termination
proof (relation "measure (\<lambda>(r, buf, pushed). length buf)", simp, goal_cases)
  case (1 r buf pushed avail b1 b2 idx l)
  have "unat (head_offset r mod rb_alloc r) < unat (rb_alloc r)"
    using 1 by (simp add: unat_mod unat_gt_0)
  then have "0 < unat (rb_alloc r - idx)"
    using 1 by (simp add: unat_sub word_le_nat_alt)
  with 1 show ?case
    by (auto simp: Let_def)
qed

text \<open>An evaluation of the loop that does not count to \<open>MAX_OFFSET\<close>.\<close>

primrec take_word :: "u64 \<Rightarrow> 'a list \<Rightarrow> 'a list" where
  "take_word w [] = []"
| "take_word w (x # xs) = (if w = 0 then [] else x # take_word (w - 1) xs)"

lemma take_word_eq: "take_word w xs = take (unat w) xs"
proof (induction xs arbitrary: w)
  case (Cons x xs)
  show ?case
  proof (cases "w = 0")
    case False
    then have "unat w = Suc (unat (w - 1))" using unat_u64_pred [of w] by (simp add: word_gt_0 unat_gt_0)
    then show ?thesis using False Cons by simp
  qed simp
qed simp

lemma ring_buf_push_loop_code [code]:
  "ring_buf_push_loop r buf pushed =
     (let avail = ring_buf_avail r;
          buf = take_word avail buf;
          buf = take_word (MAX_OFFSET - head_offset r) buf
      in if buf = [] \<or> rb_alloc r = 0 then (r, pushed)
         else let idx = head_offset r mod rb_alloc r;
                  l = (if length buf < unat (rb_alloc r - idx) then length buf else unat (rb_alloc r - idx))
              in ring_buf_push_loop
                   (r\<lparr>rb_start := mem_write (rb_start r) (unat idx) (take l buf),
                      head_offset := head_offset r + of_nat l\<rparr>)
                   (drop l buf) (pushed + l))"
  unfolding take_word_eq by (rule ring_buf_push_loop.simps)

definition ring_buf_push :: "ring_buf \<Rightarrow> u8 list \<Rightarrow> ring_buf \<times> nat" where
  "ring_buf_push r buf = ring_buf_push_loop r buf 0"

text \<open>The pointer to the byte at a logical offset, with \<open>*max_len\<close>.\<close>

definition ring_buf_get_ptr :: "ring_buf \<Rightarrow> u64 \<Rightarrow> (u8 list \<times> nat) option" where
  "ring_buf_get_ptr r logical_offset =
     (if logical_offset \<ge> head_offset r \<or> logical_offset < ctail_offset r then None
      else let idx = logical_offset mod rb_alloc r
           in Some (drop (unat idx) (rb_start r), unat (rb_alloc r - idx)))"

definition ring_buf_get_buf_at :: "ring_buf \<Rightarrow> u64 \<Rightarrow> u8 list option" where
  "ring_buf_get_buf_at r logical_offset =
     (if logical_offset > head_offset r \<or> logical_offset < ctail_offset r then None
      else if rb_alloc r = 0 then Some []
      else let idx = logical_offset mod rb_alloc r;
               l = head_offset r - logical_offset;
               l = (if l > rb_alloc r - idx then rb_alloc r - idx else l)
           in Some (take (unat l) (drop (unat idx) (rb_start r))))"

definition ring_buf_cleanse :: "ring_buf \<Rightarrow> u64 \<Rightarrow> u8 list" where
  "ring_buf_cleanse r end' =
     (let idx = ctail_offset r mod rb_alloc r;
          cleanse_end = (if end' + 1 > head_offset r then head_offset r else end' + 1);
          l = cleanse_end - ctail_offset r
      in if l > rb_alloc r - idx
         then mem_write (mem_write (rb_start r) (unat idx) (replicate (unat (rb_alloc r - idx)) 0))
                0 (replicate (unat (l - (rb_alloc r - idx))) 0)
         else mem_write (rb_start r) (unat idx) (replicate (unat l) 0))"

definition ring_buf_cpop_range :: "ring_buf \<Rightarrow> u64 \<Rightarrow> u64 \<Rightarrow> bool \<Rightarrow> ring_buf" where
  "ring_buf_cpop_range r start end' cleanse =
     (if start > ctail_offset r \<or> end' \<ge> MAX_OFFSET then r
      else let mem = (if cleanse \<and> rb_alloc r > 0 \<and> end' > ctail_offset r then ring_buf_cleanse r end'
                      else rb_start r)
           in r\<lparr>rb_start := mem, ctail_offset := end' + 1,
                head_offset := if head_offset r < end' + 1 then end' + 1 else head_offset r\<rparr>)"

lemma get_buf_at_Some:
  assumes "ring_buf_get_buf_at r x = Some src"
  shows "x \<le> head_offset r" "ctail_offset r \<le> x" "unat x + length src \<le> unat (head_offset r)"
proof -
  from assms show *: "x \<le> head_offset r" "ctail_offset r \<le> x"
    by (auto simp: ring_buf_get_buf_at_def not_less split: if_splits)
  have "length src \<le> unat (head_offset r - x)"
  proof (cases "rb_alloc r = 0")
    case False
    with assms * show ?thesis
      by (auto simp: ring_buf_get_buf_at_def Let_def not_less word_less_nat_alt split: if_splits)
  qed (use assms * in \<open>auto simp: ring_buf_get_buf_at_def not_less split: if_splits\<close>)
  then show "unat x + length src \<le> unat (head_offset r)"
    using *(1) by (simp add: unat_sub u64_nat)
qed

text \<open>The copying loop of \<open>ring_buf_resize\<close>: \<open>None\<close> if a copy fails.\<close>

function resize_copy :: "ring_buf \<Rightarrow> ring_buf \<Rightarrow> u64 \<Rightarrow> ring_buf option" where
  "resize_copy r rnew copied =
     (case ring_buf_get_buf_at r (ctail_offset r + copied) of
        None \<Rightarrow> None
      | Some src \<Rightarrow>
        if src = [] then Some rnew
        else (case ring_buf_push rnew src of (rnew', pushed) \<Rightarrow>
          if pushed \<noteq> length src then None
          else resize_copy r rnew' (copied + of_nat (length src))))"
  by pat_completeness auto

termination
proof (relation "measure (\<lambda>(r, rnew, copied). unat (head_offset r - (ctail_offset r + copied)))", simp,
    goal_cases)
  case (1 r rnew copied src rnew' pushed)
  let ?x = "ctail_offset r + copied" and ?n = "length src"
  note b = get_buf_at_Some [OF 1(1)]
  note n = unat_u64_add_of_nat_le [OF b(3)]
  have "unat (head_offset r - (?x + of_nat ?n)) = unat (head_offset r) - (unat ?x + ?n)"
    using b(3) n by (simp add: unat_u64_sub u64_nat)
  moreover have "unat (head_offset r - ?x) = unat (head_offset r) - unat ?x"
    using b(1) by (simp add: unat_u64_sub)
  moreover have "0 < ?n" using 1(2) by simp
  ultimately show ?case
    using b(3) by (simp add: add.assoc diff_less_mono2 del: length_greater_0_conv)
qed

definition ring_buf_resize :: "u8 list option \<Rightarrow> ring_buf \<Rightarrow> u64 \<Rightarrow> ring_buf \<times> bool" where
  "ring_buf_resize block r num_bytes =
     (if num_bytes = rb_alloc r then (r, True)
      else if num_bytes < ring_buf_used r then (r, False)
      else case block of
        None \<Rightarrow> (r, False)
      | Some m \<Rightarrow>
        let h = head_offset r - ring_buf_used r;
            rnew = \<lparr>rb_start = m, rb_alloc = num_bytes, head_offset = h, ctail_offset = h\<rparr>
        in case resize_copy r rnew 0 of
             None \<Rightarrow> (r, False)
           | Some rnew' \<Rightarrow> (rnew'\<lparr>ctail_offset := ctail_offset r\<rparr>, True))"

section \<open>The window of a ring buffer\<close>

text \<open>The byte stored at a logical offset.\<close>

definition rb_byte :: "ring_buf \<Rightarrow> nat \<Rightarrow> u8" where
  "rb_byte r i = rb_start r ! (i mod unat (rb_alloc r))"

definition rb_ok :: "ring_buf \<Rightarrow> bool" where
  "rb_ok r \<longleftrightarrow> length (rb_start r) = unat (rb_alloc r) \<and> unat (rb_alloc r) \<le> 2 ^ 62 \<and>
     unat (ctail_offset r) \<le> 2 ^ 62 \<and> ctail_offset r \<le> head_offset r \<and>
     unat (head_offset r) \<le> unat (ctail_offset r) + unat (rb_alloc r)"

definition in_window :: "ring_buf \<Rightarrow> nat \<Rightarrow> bool" where
  "in_window r i \<longleftrightarrow> unat (ctail_offset r) \<le> i \<and> i < unat (ctail_offset r) + unat (rb_alloc r)"

lemma mod_window:
  fixes x y :: nat
  assumes "b \<le> x" "x < b + a" "b \<le> y" "y < b + a" "x mod a = y mod a"
  shows "x = y"
proof (rule ccontr)
  assume "x \<noteq> y"
  then consider "x < y" | "y < x" by linarith
  then show False
  proof cases
    case 1
    then have "a dvd y - x" using assms(5) by (metis mod_eq_dvd_iff_nat less_imp_le)
    then have "a \<le> y - x" using 1 by (intro dvd_imp_le) auto
    with assms 1 show False by linarith
  next
    case 2
    then have "a dvd x - y" using assms(5) by (metis mod_eq_dvd_iff_nat less_imp_le)
    then have "a \<le> x - y" using 2 by (intro dvd_imp_le) auto
    with assms 2 show False by linarith
  qed
qed

lemma length_mem_write [simp]:
  "idx + length bs \<le> length mem \<Longrightarrow> length (mem_write mem idx bs) = length mem"
  by (simp add: mem_write_def)

lemma nth_mem_write:
  assumes "idx + length bs \<le> length mem" "k < length mem"
  shows "mem_write mem idx bs ! k = (if idx \<le> k \<and> k < idx + length bs then bs ! (k - idx) else mem ! k)"
  using assms by (auto simp: mem_write_def nth_append min_def)

lemma chunk_byte:
  assumes "length mem = a" "lo mod a + length bs \<le> a" "b \<le> lo" "lo + length bs \<le> b + a" "b \<le> i" "i < b + a"
  shows "mem_write mem (lo mod a) bs ! (i mod a) =
    (if lo \<le> i \<and> i < lo + length bs then bs ! (i - lo) else mem ! (i mod a))"
proof (cases "lo \<le> i \<and> i < lo + length bs")
  case True
  have a: "0 < a" using assms(5,6) by linarith
  have "i mod a = (lo mod a + (i - lo)) mod a"
    using True by (metis le_add_diff_inverse mod_add_left_eq)
  moreover have "lo mod a + (i - lo) < a"
    using True assms(2) by linarith
  ultimately have "i mod a = lo mod a + (i - lo)" by simp
  with True a assms(1,2) show ?thesis
    by (subst nth_mem_write) auto
next
  case False
  have a: "0 < a" using assms(5,6) by linarith
  have "\<not> (lo mod a \<le> i mod a \<and> i mod a < lo mod a + length bs)"
  proof
    assume in_chunk: "lo mod a \<le> i mod a \<and> i mod a < lo mod a + length bs"
    define j where "j = i mod a - lo mod a"
    have j: "j < length bs" "i mod a = lo mod a + j" using in_chunk by (auto simp: j_def)
    then have "(lo + j) mod a = i mod a"
      using assms(2) by (metis add_lessD1 in_chunk mod_add_left_eq mod_less mod_mod_trivial)
    then have "lo + j = i"
      using mod_window [of b "lo + j" a i] assms(3-6) j(1) by simp
    with False j(1) show False by simp
  qed
  then show ?thesis
    using assms(1,2) a False by (subst nth_mem_write) auto
qed

text \<open>Writing a chunk that does not wrap, as every round of the copying loops does.\<close>

lemma write_chunk:
  assumes ok: "rb_ok r" and lo: "ctail_offset r \<le> lo" "unat lo + length bs \<le> unat (ctail_offset r) + unat (rb_alloc r)"
    and fit: "unat (lo mod rb_alloc r) + length bs \<le> unat (rb_alloc r)"
    and hd: "unat h = max (unat (head_offset r)) (unat lo + length bs)"
  defines "r' \<equiv> r\<lparr>rb_start := mem_write (rb_start r) (unat (lo mod rb_alloc r)) bs, head_offset := h\<rparr>"
  shows "rb_ok r'"
    and "in_window r i \<Longrightarrow> rb_byte r' i =
      (if unat lo \<le> i \<and> i < unat lo + length bs then bs ! (i - unat lo) else rb_byte r i)"
proof -
  show "rb_ok r'"
    using ok lo(2) fit hd by (auto simp: rb_ok_def r'_def u64_nat)
  assume w: "in_window r i"
  show "rb_byte r' i =
      (if unat lo \<le> i \<and> i < unat lo + length bs then bs ! (i - unat lo) else rb_byte r i)"
    using chunk_byte [of "rb_start r" "unat (rb_alloc r)" "unat lo" bs "unat (ctail_offset r)" i] ok lo fit w
    by (simp add: rb_ok_def in_window_def rb_byte_def r'_def u64_nat)
qed

lemma rb_ok_bounds:
  assumes "rb_ok r"
  shows "unat (ring_buf_used r) = unat (head_offset r) - unat (ctail_offset r)"
    and "unat (ring_buf_avail r) = unat (ctail_offset r) + unat (rb_alloc r) - unat (head_offset r)"
    and "unat (ctail_offset r) + unat (rb_alloc r) \<le> 2 ^ 63"
proof -
  show u: "unat (ring_buf_used r) = unat (head_offset r) - unat (ctail_offset r)"
    using assms by (simp add: rb_ok_def ring_buf_used_def unat_u64_sub)
  then have "ring_buf_used r \<le> rb_alloc r"
    using assms by (auto simp: rb_ok_def u64_nat)
  then show "unat (ring_buf_avail r) = unat (ctail_offset r) + unat (rb_alloc r) - unat (head_offset r)"
    using assms u by (auto simp: rb_ok_def ring_buf_avail_def unat_u64_sub u64_nat)
  show "unat (ctail_offset r) + unat (rb_alloc r) \<le> 2 ^ 63"
    using assms by (simp add: rb_ok_def)
qed

text \<open>Pushing: how many bytes are taken, where they go, and what stays.\<close>

definition push_room :: "ring_buf \<Rightarrow> nat" where
  "push_room r = min (unat (ring_buf_avail r)) (unat (MAX_OFFSET - head_offset r))"

definition pushed_to :: "ring_buf \<Rightarrow> u8 list \<Rightarrow> ring_buf \<Rightarrow> bool" where
  "pushed_to r bs r' \<longleftrightarrow> rb_ok r' \<and> ctail_offset r' = ctail_offset r \<and> rb_alloc r' = rb_alloc r \<and>
     unat (head_offset r') = unat (head_offset r) + length bs \<and>
     (\<forall>i. in_window r i \<longrightarrow> rb_byte r' i =
       (if unat (head_offset r) \<le> i \<and> i < unat (head_offset r) + length bs
        then bs ! (i - unat (head_offset r)) else rb_byte r i))"

lemma pushed_to_trans:
  assumes "pushed_to r as r1" "pushed_to r1 bs r2"
  shows "pushed_to r (as @ bs) r2"
  using assms by (auto simp: pushed_to_def in_window_def nth_append)

lemma pushed_to_Nil: "rb_ok r \<Longrightarrow> pushed_to r [] r"
  by (auto simp: pushed_to_def)

text \<open>One round: \<open>l\<close> bytes at the head, up to the end of the allocation.\<close>

lemma push_round:
  assumes ok: "rb_ok r" and room: "length bs \<le> unat (ring_buf_avail r)"
    and fit: "length bs \<le> unat (rb_alloc r - head_offset r mod rb_alloc r)" and a: "rb_alloc r \<noteq> 0"
  shows "pushed_to r bs (r\<lparr>rb_start := mem_write (rb_start r) (unat (head_offset r mod rb_alloc r)) bs,
    head_offset := head_offset r + of_nat (length bs)\<rparr>)"
proof -
  let ?idx = "head_offset r mod rb_alloc r"
  note b = rb_ok_bounds [OF ok]
  have idx: "?idx \<le> rb_alloc r"
    using a by (simp add: u64_nat unat_gt_0 less_imp_le)
  have le: "unat (head_offset r) + length bs \<le> unat (ctail_offset r) + unat (rb_alloc r)"
    using room b(2) ok unfolding rb_ok_def by linarith
  then have h: "unat (head_offset r + of_nat (length bs)) = unat (head_offset r) + length bs"
    using b(3) by (intro unat_u64_add_of_nat) simp
  have "unat ?idx + length bs \<le> unat (rb_alloc r)"
    using fit idx by (simp add: unat_u64_sub u64_nat)
  note w = write_chunk [OF ok _ le this, where h = "head_offset r + of_nat (length bs)"]
  show ?thesis
    unfolding pushed_to_def using w ok h by (simp add: rb_ok_def)
qed

declare ring_buf_push_loop.simps [simp del]

lemma push_loop_eq:
  "ring_buf_push_loop r buf pushed =
    (let b = take (push_room r) buf; idx = head_offset r mod rb_alloc r;
         l = min (length b) (unat (rb_alloc r - idx))
     in if b = [] \<or> rb_alloc r = 0 then (r, pushed)
        else ring_buf_push_loop
          (r\<lparr>rb_start := mem_write (rb_start r) (unat idx) (take l b), head_offset := head_offset r + of_nat l\<rparr>)
          (drop l b) (pushed + l))"
proof -
  have t: "take (unat (MAX_OFFSET - head_offset r)) (take (unat (ring_buf_avail r)) buf) = take (push_room r) buf"
    by (simp add: push_room_def min.commute)
  have "(if a < b then a else b) = min a b" for a b :: nat by simp
  then show ?thesis
    by (subst ring_buf_push_loop.simps) (simp only: Let_def t)
qed

lemma push_loop:
  assumes "rb_ok r" "head_offset r \<le> MAX_OFFSET" "ring_buf_push_loop r buf pushed = (r', n)"
  shows "n = pushed + min (length buf) (push_room r) \<and>
    pushed_to r (take (push_room r) buf) r' \<and> head_offset r' \<le> MAX_OFFSET"
  using assms
proof (induction "length buf" arbitrary: r buf pushed rule: less_induct)
  case less
  note b = rb_ok_bounds [OF less.prems(1)]
  let ?b = "take (push_room r) buf" and ?idx = "head_offset r mod rb_alloc r"
  define l where "l = min (length ?b) (unat (rb_alloc r - ?idx))"
  define r1 where "r1 = r\<lparr>rb_start := mem_write (rb_start r) (unat ?idx) (take l ?b),
      head_offset := head_offset r + of_nat l\<rparr>"
  have eq: "ring_buf_push_loop r buf pushed = (if ?b = [] \<or> rb_alloc r = 0 then (r, pushed)
      else ring_buf_push_loop r1 (drop l ?b) (pushed + l))"
    by (subst push_loop_eq) (simp only: Let_def l_def r1_def)
  show ?case
  proof (cases "?b = [] \<or> rb_alloc r = 0")
    case True
    then have z: "?b = []"
      using b(2) less.prems(1) by (auto simp: push_room_def rb_ok_def u64_nat)
    with eq less.prems show ?thesis
      by (auto simp: pushed_to_Nil)
  next
    case False
    have "unat ?idx < unat (rb_alloc r)"
      using False by (simp add: unat_mod unat_gt_0)
    then have l: "l \<le> length ?b" "l \<le> unat (rb_alloc r - ?idx)" "0 < l"
      using False by (auto simp: l_def unat_u64_sub u64_nat)
    have run: "ring_buf_push_loop r1 (drop l ?b) (pushed + l) = (r', n)"
      using less.prems(3) eq False by simp
    have p1: "pushed_to r (take l ?b) r1"
      using push_round [OF less.prems(1), of "take l ?b"] l False by (simp add: r1_def push_room_def)
    then have r1: "rb_ok r1" "unat (head_offset r1) = unat (head_offset r) + l"
      "ctail_offset r1 = ctail_offset r" "rb_alloc r1 = rb_alloc r"
      using l(1) by (auto simp: pushed_to_def)
    have mx: "head_offset r1 \<le> MAX_OFFSET"
      using l(1) less.prems(2) r1(2) by (simp add: push_room_def u64_nat unat_u64_sub) linarith
    have room: "push_room r1 = push_room r - l"
      using r1 b(2) rb_ok_bounds(2) [OF r1(1)] mx less.prems(2)
      by (simp add: push_room_def unat_u64_sub min_diff)
    have "length ?b \<le> length buf" by simp
    then have lt: "length (drop l ?b) < length buf" using l unfolding length_drop by linarith
    have t: "take (push_room r1) (drop l ?b) = drop l ?b" "min (length (drop l ?b)) (push_room r1) = length ?b - l"
      by (auto simp: room)
    note IH = less.hyps [OF lt r1(1) mx run, unfolded t]
    with pushed_to_trans [OF p1, of "drop l ?b" r'] have "pushed_to r ?b r'"
      by (simp only: append_take_drop_id)
    with IH l show ?thesis by auto
  qed
qed

lemma push_correct:
  assumes "rb_ok r" "head_offset r \<le> MAX_OFFSET" "ring_buf_push r buf = (r', n)"
  shows "n = min (length buf) (push_room r)" "pushed_to r (take n buf) r'" "head_offset r' \<le> MAX_OFFSET"
  using push_loop [of r buf 0 r' n] assms by (auto simp: ring_buf_push_def min_def)

text \<open>Writing at an offset.\<close>

definition written_to :: "ring_buf \<Rightarrow> nat \<Rightarrow> u8 list \<Rightarrow> ring_buf \<Rightarrow> bool" where
  "written_to r lo bs r' \<longleftrightarrow> rb_ok r' \<and> ctail_offset r' = ctail_offset r \<and> rb_alloc r' = rb_alloc r \<and>
     unat (head_offset r') = (if bs = [] then unat (head_offset r) else max (unat (head_offset r)) (lo + length bs)) \<and>
     (\<forall>i. in_window r i \<longrightarrow> rb_byte r' i =
       (if lo \<le> i \<and> i < lo + length bs then bs ! (i - lo) else rb_byte r i))"

lemma written_to_trans:
  assumes "written_to r lo as r1" "written_to r1 (lo + length as) bs r2"
  shows "written_to r lo (as @ bs) r2"
  using assms by (auto simp: written_to_def in_window_def nth_append max_def)

lemma written_to_Nil: "rb_ok r \<Longrightarrow> written_to r lo [] r"
  by (auto simp: written_to_def)

lemma write_round:
  assumes ok: "rb_ok r" and lo: "ctail_offset r \<le> lo"
    and le: "unat lo + length bs \<le> unat (ctail_offset r) + unat (rb_alloc r)"
    and fit: "length bs \<le> unat (rb_alloc r - lo mod rb_alloc r)" and a: "rb_alloc r \<noteq> 0" "bs \<noteq> []"
  shows "written_to r (unat lo) bs (r\<lparr>rb_start := mem_write (rb_start r) (unat (lo mod rb_alloc r)) bs,
      head_offset := if head_offset r < lo + of_nat (length bs) then lo + of_nat (length bs) else head_offset r\<rparr>)"
    and "unat (lo + of_nat (length bs)) = unat lo + length bs"
proof -
  let ?h = "if head_offset r < lo + of_nat (length bs) then lo + of_nat (length bs) else head_offset r"
  have idx: "lo mod rb_alloc r \<le> rb_alloc r"
    using a by (simp add: u64_nat unat_gt_0 less_imp_le)
  show e: "unat (lo + of_nat (length bs)) = unat lo + length bs"
    using le rb_ok_bounds(3) [OF ok] by (intro unat_u64_add_of_nat) simp
  have f: "unat (lo mod rb_alloc r) + length bs \<le> unat (rb_alloc r)"
    using fit idx by (simp add: unat_u64_sub u64_nat)
  have h: "unat ?h = max (unat (head_offset r)) (unat lo + length bs)"
    using e by (auto simp: u64_nat)
  note w = write_chunk [OF ok lo le f h]
  show "written_to r (unat lo) bs (r\<lparr>rb_start := mem_write (rb_start r) (unat (lo mod rb_alloc r)) bs,
      head_offset := ?h\<rparr>)"
    unfolding written_to_def using w h a(2) by simp
qed

lemma write_at_loop_step:
  assumes "buf \<noteq> []"
  shows "write_at_loop (Suc n) r lo buf =
    (let l = min (length buf) (unat (rb_alloc r - lo mod rb_alloc r)); e = lo + of_nat l
     in write_at_loop n (r\<lparr>rb_start := mem_write (rb_start r) (unat (lo mod rb_alloc r)) (take l buf),
          head_offset := if head_offset r < e then e else head_offset r\<rparr>) e (drop l buf))"
proof -
  have "(if a < b then a else b) = min a b" for a b :: nat by simp
  then show ?thesis using assms by (simp only: write_at_loop.simps Let_def if_False)
qed

lemma write_at_loop_correct:
  assumes ok: "rb_ok r" and lo: "ctail_offset r \<le> lo"
    and le: "unat lo + length buf \<le> unat (ctail_offset r) + unat (rb_alloc r)"
  shows "written_to r (unat lo) buf (write_at_loop 2 r lo buf)"
proof (cases "buf = []")
  case True
  then show ?thesis by (simp add: numeral_2_eq_2 written_to_Nil [OF ok])
next
  case False
  have a: "rb_alloc r \<noteq> 0"
    using False le lo by (cases buf) (auto simp: u64_nat)
  let ?idx = "lo mod rb_alloc r"
  define l where "l = min (length buf) (unat (rb_alloc r - ?idx))"
  define r1 where "r1 = r\<lparr>rb_start := mem_write (rb_start r) (unat ?idx) (take l buf),
      head_offset := if head_offset r < lo + of_nat l then lo + of_nat l else head_offset r\<rparr>"
  have idx: "unat ?idx < unat (rb_alloc r)"
    using a by (simp add: unat_mod unat_gt_0)
  then have sub: "unat (rb_alloc r - ?idx) = unat (rb_alloc r) - unat ?idx"
    by (simp add: unat_u64_sub u64_nat)
  have l: "l \<le> length buf" "l \<le> unat (rb_alloc r - ?idx)" "0 < l"
    using False idx sub by (auto simp: l_def)
  have eq: "write_at_loop 2 r lo buf = write_at_loop (Suc 0) r1 (lo + of_nat l) (drop l buf)"
    unfolding numeral_2_eq_2 write_at_loop_step [OF False] by (simp only: Let_def r1_def l_def)
  have w1: "written_to r (unat lo) (take l buf) r1" and e: "unat (lo + of_nat l) = unat lo + l"
    using write_round [OF ok lo, of "take l buf"] le l a False
    by (auto simp: r1_def min_absorb2)
  show ?thesis
  proof (cases "drop l buf = []")
    case True
    then have "take l buf = buf" by simp
    with True w1 show ?thesis by (simp add: eq)
  next
    case False
    then have "l = unat (rb_alloc r) - unat ?idx" using sub by (simp add: l_def min_def split: if_splits)
    then have "unat (lo + of_nat l) mod unat (rb_alloc r) = 0"
      using idx unfolding e
      by (metis le_add_diff_inverse less_imp_le mod_add_left_eq mod_self unat_mod)
    then have z: "(lo + of_nat l) mod rb_alloc r = 0"
      by (simp add: unat_eq_0 flip: unat_mod)
    from w1 have r1: "rb_ok r1" "ctail_offset r1 = ctail_offset r" "rb_alloc r1 = rb_alloc r"
      by (auto simp: written_to_def)
    have len: "length (drop l buf) \<le> unat (rb_alloc r)"
      using le lo l(3) by (auto simp: u64_nat)
    let ?e = "lo + of_nat l" and ?d = "drop l buf"
    have l2: "min (length ?d) (unat (rb_alloc r1 - ?e mod rb_alloc r1)) = length ?d"
      using z len r1(3) by simp
    have st: "write_at_loop (Suc 0) r1 ?e ?d = r1\<lparr>rb_start := mem_write (rb_start r1) (unat (?e mod rb_alloc r1)) ?d,
      head_offset := if head_offset r1 < ?e + of_nat (length ?d) then ?e + of_nat (length ?d) else head_offset r1\<rparr>"
      unfolding write_at_loop_step [OF False] Let_def l2 by simp
    have "written_to r1 (unat ?e) ?d (write_at_loop (Suc 0) r1 ?e ?d)"
      unfolding st
    proof (rule write_round(1) [OF r1(1)])
      show "ctail_offset r1 \<le> ?e" using lo r1(2) e by (simp add: u64_nat)
      show "unat ?e + length ?d \<le> unat (ctail_offset r1) + unat (rb_alloc r1)" using le l(1) r1 e by simp
      show "length ?d \<le> unat (rb_alloc r1 - ?e mod rb_alloc r1)" using z len r1(3) by simp
      show "rb_alloc r1 \<noteq> 0" using a r1(3) by simp
    qed (rule False)
    then have "written_to r1 (unat lo + l) ?d (write_at_loop (Suc 0) r1 ?e ?d)" by (simp only: e)
    then show ?thesis
      using written_to_trans [OF w1, of "drop l buf"] l(1) by (simp add: eq)
  qed
qed

lemma write_at_correct:
  assumes ok: "rb_ok r" and len: "length buf < 2 ^ 62" and w: "ring_buf_write_at r lo buf = (r', True)"
  shows "written_to r (unat lo) buf r'" "ctail_offset r \<le> lo"
    "unat lo + length buf \<le> unat (ctail_offset r) + unat (rb_alloc r)"
proof -
  note b = rb_ok_bounds [OF ok]
  have n: "unat (of_nat (length buf) :: u64) = length buf"
    using len by (intro unat_u64_of_nat) simp
  from w show lo: "ctail_offset r \<le> lo"
    by (auto simp: ring_buf_write_at_def Let_def not_less split: prod.splits if_splits)
  from w have s: "\<not> snd (safe_add_u64 lo (of_nat (length buf)))"
    "\<not> snd (safe_add_u64 (head_offset r) (ring_buf_avail r))"
    "fst (safe_add_u64 lo (of_nat (length buf))) \<le> fst (safe_add_u64 (head_offset r) (ring_buf_avail r))"
    and r': "r' = write_at_loop 2 r lo buf"
    by (auto simp: ring_buf_write_at_def Let_def not_less split: prod.splits if_splits)
  have "unat (fst (safe_add_u64 lo (of_nat (length buf)))) = unat lo + length buf"
    using s(1) n by (auto simp: safe_add_u64_def unat_u64_add split: if_splits)
  moreover have "unat (fst (safe_add_u64 (head_offset r) (ring_buf_avail r))) =
      unat (head_offset r) + unat (ring_buf_avail r)"
    using s(2) by (auto simp: safe_add_u64_def unat_u64_add split: if_splits)
  ultimately have "unat lo + length buf \<le> unat (head_offset r) + unat (ring_buf_avail r)"
    using s(3) by (simp add: u64_nat)
  then show le: "unat lo + length buf \<le> unat (ctail_offset r) + unat (rb_alloc r)"
    using b(2) ok by (simp add: rb_ok_def)
  show "written_to r (unat lo) buf r'"
    unfolding r' by (rule write_at_loop_correct [OF ok lo le])
qed

text \<open>Reading: pointers into the buffer give the bytes of the window.\<close>

lemma window_bytes:
  assumes ok: "rb_ok r" and w: "unat (ctail_offset r) \<le> x" "x + n \<le> unat (ctail_offset r) + unat (rb_alloc r)"
    and fit: "x mod unat (rb_alloc r) + n \<le> unat (rb_alloc r)"
  shows "take n (drop (x mod unat (rb_alloc r)) (rb_start r)) = map (rb_byte r) [x..<x + n]"
proof (rule nth_equalityI)
  show "length (take n (drop (x mod unat (rb_alloc r)) (rb_start r))) = length (map (rb_byte r) [x..<x + n])"
    using ok fit by (simp add: rb_ok_def)
next
  fix i
  assume "i < length (take n (drop (x mod unat (rb_alloc r)) (rb_start r)))"
  then have i: "i < n" by simp
  have "(x + i) mod unat (rb_alloc r) = (x mod unat (rb_alloc r) + i) mod unat (rb_alloc r)"
    by (simp add: mod_add_left_eq)
  also have "\<dots> = x mod unat (rb_alloc r) + i"
    using fit i by (intro mod_less) linarith
  finally show "take n (drop (x mod unat (rb_alloc r)) (rb_start r)) ! i = map (rb_byte r) [x..<x + n] ! i"
    using i ok fit by (simp add: rb_byte_def rb_ok_def)
qed

lemma get_buf_at_bytes:
  assumes ok: "rb_ok r" and g: "ring_buf_get_buf_at r x = Some src"
  shows "src = map (rb_byte r) [unat x..<unat x + length src]" "src = [] \<longleftrightarrow> x = head_offset r"
proof -
  note b = get_buf_at_Some [OF g]
  consider "rb_alloc r = 0" "src = []" "x = head_offset r" |
    l where "rb_alloc r \<noteq> 0" "l = min (unat (head_offset r - x)) (unat (rb_alloc r - x mod rb_alloc r))"
      "src = take l (drop (unat (x mod rb_alloc r)) (rb_start r))"
  proof (cases "rb_alloc r = 0")
    case True
    then have "x = head_offset r"
      using ok b by (auto simp: rb_ok_def u64_nat intro!: u64_unat_inj)
    with True g b that(1) show ?thesis by (auto simp: ring_buf_get_buf_at_def)
  next
    case False
    have m: "unat (if a > c then c else a) = min (unat a) (unat c)" for a c :: u64
      by (simp add: u64_nat)
    from g b False have "src = take (unat (if head_offset r - x > rb_alloc r - x mod rb_alloc r
        then rb_alloc r - x mod rb_alloc r else head_offset r - x)) (drop (unat (x mod rb_alloc r)) (rb_start r))"
      by (simp add: ring_buf_get_buf_at_def Let_def not_less [symmetric])
    then show ?thesis by (intro that(2) [OF False refl]) (simp only: m)
  qed
  then show "src = map (rb_byte r) [unat x..<unat x + length src]" "src = [] \<longleftrightarrow> x = head_offset r"
  proof (atomize (full), cases)
    case (2 l)
    have idx: "unat (x mod rb_alloc r) < unat (rb_alloc r)"
      using 2(1) by (simp add: unat_mod unat_gt_0)
    have sub: "unat (rb_alloc r - x mod rb_alloc r) = unat (rb_alloc r) - unat (x mod rb_alloc r)"
      "unat (head_offset r - x) = unat (head_offset r) - unat x"
      using idx b(1) by (simp_all add: unat_u64_sub u64_nat)
    have l: "unat (x mod rb_alloc r) + l \<le> unat (rb_alloc r)" "unat x + l \<le> unat (head_offset r)"
      using 2(2) sub idx b(1) by (auto simp: u64_nat)
    then have len: "length src = l" using ok by (simp add: 2(3) rb_ok_def)
    have "src = map (rb_byte r) [unat x..<unat x + l]"
      unfolding 2(3) unat_mod
      using ok l b(2) by (intro window_bytes) (auto simp: rb_ok_def u64_nat)
    moreover have "l = 0 \<longleftrightarrow> x = head_offset r"
      using 2(2) sub idx b(1) by (auto simp: u64_nat intro!: u64_unat_inj)
    ultimately show "src = map (rb_byte r) [unat x..<unat x + length src] \<and> (src = [] \<longleftrightarrow> x = head_offset r)"
      using len by auto
  qed simp
qed

lemma get_buf_at_length:
  assumes ok: "rb_ok r" and g: "ring_buf_get_buf_at r x = Some src" and a: "rb_alloc r \<noteq> 0"
  shows "length src = min (unat (head_offset r) - unat x) (unat (rb_alloc r) - unat x mod unat (rb_alloc r))"
proof -
  note b = get_buf_at_Some [OF g]
  have idx: "unat (x mod rb_alloc r) < unat (rb_alloc r)" using a by (simp add: unat_mod unat_gt_0)
  have sub: "unat (rb_alloc r - x mod rb_alloc r) = unat (rb_alloc r) - unat x mod unat (rb_alloc r)"
    "unat (head_offset r - x) = unat (head_offset r) - unat x"
    using idx b(1) by (simp_all add: unat_u64_sub u64_nat)
  show ?thesis
    using g b a idx sub ok
    by (auto simp: ring_buf_get_buf_at_def Let_def rb_ok_def u64_nat split: if_splits)
qed

lemma get_ptr_bytes:
  assumes ok: "rb_ok r" and g: "ring_buf_get_ptr r x = Some (p, max_len)"
    and n: "n \<le> max_len" "unat x + n \<le> unat (ctail_offset r) + unat (rb_alloc r)"
  shows "take n p = map (rb_byte r) [unat x..<unat x + n]"
proof -
  from g have x: "x < head_offset r" "ctail_offset r \<le> x"
    and p: "p = drop (unat (x mod rb_alloc r)) (rb_start r)" "max_len = unat (rb_alloc r - x mod rb_alloc r)"
    by (auto simp: ring_buf_get_ptr_def Let_def not_less not_le split: if_splits)
  have "0 < unat (rb_alloc r)"
    using x ok by (auto simp: rb_ok_def u64_nat)
  then have "unat (x mod rb_alloc r) < unat (rb_alloc r)"
    by (simp add: unat_mod)
  then have "unat (x mod rb_alloc r) + n \<le> unat (rb_alloc r)"
    using n(1) p(2) by (simp add: unat_u64_sub u64_nat)
  then show ?thesis
    unfolding p(1) unat_mod using x(2) n(2) by (intro window_bytes [OF ok]) (auto simp: u64_nat)
qed

text \<open>Culling: the bytes beyond the culled range stay what they were, also when the culled ones are cleansed.\<close>

lemma cleanse_bytes:
  assumes ok: "rb_ok r" and a: "0 < rb_alloc r" and e: "ctail_offset r < end'" "end' < MAX_OFFSET"
  shows "length (ring_buf_cleanse r end') = unat (rb_alloc r)"
    and "in_window r i \<Longrightarrow> unat end' < i \<Longrightarrow> ring_buf_cleanse r end' ! (i mod unat (rb_alloc r)) = rb_byte r i"
proof -
  define A c where "A = unat (rb_alloc r)" and "c = unat (ctail_offset r)"
  define idx where "idx = c mod A"
  define L where "L = min (unat end' + 1) (unat (head_offset r)) - c"
  have A: "0 < A" "idx < A" using a by (auto simp: A_def idx_def u64_nat)
  have len: "length (rb_start r) = A" using ok by (simp add: rb_ok_def A_def)
  have e1: "unat (end' + 1) = unat end' + 1" using e(2) by (rule unat_u64_succ)
  have L: "c + L \<le> c + A" "c + L \<le> unat end' + 1"
    using ok e(1) by (auto simp: L_def rb_ok_def c_def A_def u64_nat)
  have w: "unat (ctail_offset r mod rb_alloc r) = idx" "unat (rb_alloc r - ctail_offset r mod rb_alloc r) = A - idx"
    using A by (simp_all add: idx_def c_def A_def unat_mod unat_u64_sub u64_nat)
  have ce: "unat ((if end' + 1 > head_offset r then head_offset r else end' + 1) - ctail_offset r) = L"
    using ok e(1) e1 by (auto simp: L_def c_def unat_u64_sub u64_nat rb_ok_def)
  have eq: "ring_buf_cleanse r end' =
    (if L > A - idx then mem_write (mem_write (rb_start r) idx (replicate (A - idx) 0)) 0 (replicate (L - (A - idx)) 0)
     else mem_write (rb_start r) idx (replicate L 0))"
    using ce w unat_u64_sub [of "rb_alloc r - ctail_offset r mod rb_alloc r"
        "(if end' + 1 > head_offset r then head_offset r else end' + 1) - ctail_offset r"]
    by (auto simp: ring_buf_cleanse_def Let_def word_less_nat_alt word_le_nat_alt)
  show "length (ring_buf_cleanse r end') = unat (rb_alloc r)"
    unfolding eq using len A L by (auto simp: A_def)
  assume i: "in_window r i" "unat end' < i"
  then have iw: "c \<le> i" "i < c + A" "\<not> i < c + L" using L(2) by (auto simp: in_window_def c_def A_def)
  have "ring_buf_cleanse r end' ! (i mod A) = rb_start r ! (i mod A)"
  proof (cases "L > A - idx")
    case True
    let ?m = "mem_write (rb_start r) idx (replicate (A - idx) 0)"
    have "(c + (A - idx)) mod A = (idx + (A - idx)) mod A"
      unfolding idx_def by (simp add: mod_add_left_eq)
    then have z: "(c + (A - idx)) mod A = 0" using A by simp
    have "\<not> i < c + (A - idx)" using iw(3) True by linarith
    then have "?m ! (i mod A) = rb_start r ! (i mod A)"
      using chunk_byte [of "rb_start r" A c "replicate (A - idx) 0" c i] len A iw(1,2)
      by (simp only: length_replicate idx_def) simp
    moreover have "mem_write ?m 0 (replicate (L - (A - idx)) 0) ! (i mod A) = ?m ! (i mod A)"
      using chunk_byte [of ?m A "c + (A - idx)" "replicate (L - (A - idx)) 0" c i] len A iw True L(1) z by simp
    ultimately show ?thesis using True by (simp add: eq)
  next
    case False
    then have "c mod A + L \<le> A" using A(2) unfolding idx_def by linarith
    with False show ?thesis
      using chunk_byte [of "rb_start r" A c "replicate L 0" c i] len A iw L(1) by (simp add: eq idx_def)
  qed
  then show "ring_buf_cleanse r end' ! (i mod unat (rb_alloc r)) = rb_byte r i"
    by (simp add: rb_byte_def A_def)
qed

lemma cpop_correct:
  fixes cleanse :: bool
  assumes ok: "rb_ok r" and e: "unat (ctail_offset r) \<le> unat end' + 1" "start \<le> ctail_offset r" "end' < MAX_OFFSET"
  defines "r' \<equiv> ring_buf_cpop_range r start end' cleanse"
  shows "rb_ok r'" "unat (ctail_offset r') = unat end' + 1" "rb_alloc r' = rb_alloc r"
    "unat (head_offset r') = max (unat (head_offset r)) (unat end' + 1)"
    "in_window r i \<Longrightarrow> unat end' < i \<Longrightarrow> rb_byte r' i = rb_byte r i"
proof -
  have e1: "unat (end' + 1) = unat end' + 1" using e(3) by (rule unat_u64_succ)
  have mx: "unat end' + 1 \<le> 2 ^ 62" using e(3) by (simp add: MAX_OFFSET_def u64_nat)
  define mem where "mem = (if cleanse \<and> rb_alloc r > 0 \<and> end' > ctail_offset r then ring_buf_cleanse r end'
    else rb_start r)"
  have r': "r' = r\<lparr>rb_start := mem, ctail_offset := end' + 1,
      head_offset := if head_offset r < end' + 1 then end' + 1 else head_offset r\<rparr>"
    using e(2,3) by (simp add: r'_def ring_buf_cpop_range_def mem_def Let_def)
  have len: "length mem = unat (rb_alloc r)"
    using ok cleanse_bytes(1) [OF ok _ _ e(3)] by (auto simp: mem_def rb_ok_def)
  show "unat (ctail_offset r') = unat end' + 1" "rb_alloc r' = rb_alloc r"
    by (simp_all add: r' e1)
  show "unat (head_offset r') = max (unat (head_offset r)) (unat end' + 1)"
    using e1 by (auto simp: r' u64_nat)
  show "rb_ok r'"
    using ok e(1) e1 mx len by (auto simp: rb_ok_def r' u64_nat)
  assume "in_window r i" "unat end' < i"
  then show "rb_byte r' i = rb_byte r i"
    using cleanse_bytes(2) [OF ok _ _ e(3), of i] by (auto simp: rb_byte_def r' mem_def)
qed

text \<open>Resizing keeps the retained bytes.\<close>

declare resize_copy.simps [simp del]

lemma resize_copy_correct:
  assumes "rb_ok r" "head_offset r \<le> MAX_OFFSET" "rb_ok rn" "ctail_offset rn = ctail_offset r"
    and "head_offset rn = ctail_offset r + copied" "head_offset rn \<le> head_offset r"
    and "unat (head_offset r) - unat (ctail_offset r) \<le> unat (rb_alloc rn)"
    and "\<forall>i. unat (ctail_offset r) \<le> i \<longrightarrow> i < unat (head_offset rn) \<longrightarrow> rb_byte rn i = rb_byte r i"
  shows "\<exists>rn'. resize_copy r rn copied = Some rn' \<and> rb_ok rn' \<and> ctail_offset rn' = ctail_offset r \<and>
    head_offset rn' = head_offset r \<and> rb_alloc rn' = rb_alloc rn \<and>
    (\<forall>i. unat (ctail_offset r) \<le> i \<longrightarrow> i < unat (head_offset r) \<longrightarrow> rb_byte rn' i = rb_byte r i)"
  using assms
proof (induction "unat (head_offset r) - unat (head_offset rn)" arbitrary: rn copied rule: less_induct)
  case less
  let ?x = "ctail_offset r + copied"
  have x: "?x \<le> head_offset r" "ctail_offset r \<le> ?x"
    using less.prems(3-6) by (auto simp: rb_ok_def)
  then obtain src where src: "ring_buf_get_buf_at r ?x = Some src"
    by (cases "rb_alloc r = 0") (auto simp: ring_buf_get_buf_at_def Let_def not_less)
  note b = get_buf_at_Some [OF src] and bytes = get_buf_at_bytes [OF less.prems(1) src]
  show ?case
  proof (cases "src = []")
    case True
    then have "head_offset rn = head_offset r" using bytes(2) less.prems(5) by simp
    then show ?thesis
      using True src less.prems by (simp add: resize_copy.simps [of r rn])
  next
    case False
    have le: "unat (head_offset rn) + length src \<le> unat (head_offset r)" using b(3) less.prems(5) by simp
    have mx: "head_offset rn \<le> MAX_OFFSET" using less.prems(2,6) by simp
    have room: "length src \<le> push_room rn"
      using le less.prems rb_ok_bounds(2) [OF less.prems(3)] mx x(2)
      by (auto simp: push_room_def unat_u64_sub u64_nat)
    obtain rn' n where push: "ring_buf_push rn src = (rn', n)" by fastforce
    note p = push_correct [OF less.prems(3) mx push]
    have n: "n = length src" using p(1) room by simp
    then have rn': "rb_ok rn'" "ctail_offset rn' = ctail_offset r" "rb_alloc rn' = rb_alloc rn"
      "unat (head_offset rn') = unat (head_offset rn) + length src"
      using p(2) less.prems(4) by (auto simp: pushed_to_def)
    have h: "head_offset rn' = ctail_offset r + (copied + of_nat (length src))"
      using unat_u64_add_of_nat_le(1) [OF le] rn'(4) less.prems(5)
      by (intro u64_unat_inj) (simp add: add.assoc)
    have hb: "rb_byte rn' i = rb_byte r i" if i: "unat (ctail_offset r) \<le> i" "i < unat (head_offset rn')" for i
    proof -
      have win: "in_window rn i"
        using i rn'(4) le less.prems(3,4,7) by (auto simp: in_window_def rb_ok_def)
      have src_i: "src ! (i - unat (head_offset rn)) = rb_byte r i"
        if "unat (head_offset rn) \<le> i"
      proof -
        have "i - unat (head_offset rn) < length src" using i rn'(4) that by linarith
        then show ?thesis
          using that less.prems(5) by (subst bytes(1)) simp
      qed
      show ?thesis
        using p(2) n win src_i i rn'(4) less.prems(8) by (auto simp: pushed_to_def)
    qed
    have step: "resize_copy r rn copied = resize_copy r rn' (copied + of_nat (length src))"
      using src False push n by (simp add: resize_copy.simps [of r rn])
    have "0 < length src" using False by simp
    then have lt: "unat (head_offset r) - unat (head_offset rn') < unat (head_offset r) - unat (head_offset rn)"
      using le rn'(4) by linarith
    show ?thesis
      unfolding step rn'(3) [symmetric]
      by (rule less.hyps [OF lt less.prems(1,2) rn'(1,2) h])
         (use le rn' hb less.prems(7) in \<open>auto simp: u64_nat\<close>)
  qed
qed

lemma resize_correct:
  assumes ok: "rb_ok r" "head_offset r \<le> MAX_OFFSET"
    and m: "\<And>m. block = Some m \<Longrightarrow> length m = unat num_bytes" "unat num_bytes \<le> 2 ^ 62"
    and res: "ring_buf_resize block r num_bytes = (r', res)"
  shows "rb_ok r'" "ctail_offset r' = ctail_offset r" "head_offset r' = head_offset r"
    and "\<not> res \<Longrightarrow> r' = r" "res \<Longrightarrow> rb_alloc r' = num_bytes"
    and "unat (ctail_offset r) \<le> i \<Longrightarrow> i < unat (head_offset r) \<Longrightarrow> rb_byte r' i = rb_byte r i"
    and "num_bytes \<ge> ring_buf_used r \<Longrightarrow> block \<noteq> None \<Longrightarrow> res"
proof -
  define h where "h = head_offset r - ring_buf_used r"
  have h: "h = ctail_offset r" by (simp add: h_def ring_buf_used_def)
  note b = rb_ok_bounds [OF ok(1)]
  have "rb_ok r' \<and> ctail_offset r' = ctail_offset r \<and> head_offset r' = head_offset r \<and>
      (\<not> res \<longrightarrow> r' = r) \<and> (res \<longrightarrow> rb_alloc r' = num_bytes) \<and>
      (\<forall>i. unat (ctail_offset r) \<le> i \<longrightarrow> i < unat (head_offset r) \<longrightarrow> rb_byte r' i = rb_byte r i) \<and>
      (num_bytes \<ge> ring_buf_used r \<longrightarrow> block \<noteq> None \<longrightarrow> res)"
  proof (cases "num_bytes = rb_alloc r \<or> num_bytes < ring_buf_used r \<or> block = None")
    case True
    with res ok show ?thesis
      by (cases "num_bytes = rb_alloc r"; cases "num_bytes < ring_buf_used r")
         (auto simp: ring_buf_resize_def)
  next
    case False
    then obtain mem where mem: "block = Some mem" by auto
    let ?rn = "\<lparr>rb_start = mem, rb_alloc = num_bytes, head_offset = h, ctail_offset = h\<rparr>"
    have hs: "ctail_offset ?rn = ctail_offset r" "head_offset ?rn = ctail_offset r + 0" "head_offset ?rn \<le> head_offset r"
      using h ok(1) by (simp_all add: rb_ok_def)
    have rn: "rb_ok ?rn"
      using ok(1) m(1) [OF mem] m(2) by (simp add: rb_ok_def h)
    have fit: "unat (head_offset r) - unat (ctail_offset r) \<le> unat (rb_alloc ?rn)"
      using False b(1) by (simp add: u64_nat)
    have none: "\<forall>i. unat (ctail_offset r) \<le> i \<longrightarrow> i < unat (head_offset ?rn) \<longrightarrow> rb_byte ?rn i = rb_byte r i"
      using h by simp
    obtain rn' where rn': "resize_copy r ?rn 0 = Some rn'" "rb_ok rn'"
      "ctail_offset rn' = ctail_offset r" "head_offset rn' = head_offset r" "rb_alloc rn' = rb_alloc ?rn"
      "\<forall>i. unat (ctail_offset r) \<le> i \<longrightarrow> i < unat (head_offset r) \<longrightarrow> rb_byte rn' i = rb_byte r i"
      using resize_copy_correct [OF ok rn hs fit none] by blast
    then have "r' = rn'" "res"
      using res False mem unfolding ring_buf_resize_def Let_def h_def by auto
    with rn' show ?thesis by simp
  qed
  then show "rb_ok r'" "ctail_offset r' = ctail_offset r" "head_offset r' = head_offset r"
    "\<not> res \<Longrightarrow> r' = r" "res \<Longrightarrow> rb_alloc r' = num_bytes"
    "unat (ctail_offset r) \<le> i \<Longrightarrow> i < unat (head_offset r) \<Longrightarrow> rb_byte r' i = rb_byte r i"
    "num_bytes \<ge> ring_buf_used r \<Longrightarrow> block \<noteq> None \<Longrightarrow> res"
    by blast+
qed

end
