(* ===== verification/Quic_Rstream.thy ===== *)
theory Quic_Rstream
  imports Sf_List Ring_Buf Quic_Fc Quic_Statm
begin

text \<open>
  The receive stream, \<open>ssl/quic/quic_rstream.c\<close>: it queues the STREAM and CRYPTO frame data that arrives, in any
  order and with any overlap, and hands it out in order. The flow controller and the statistics manager that
  a stream points to live in the stores of \<open>Quic_Fc\<close> and in a store of statistics managers, indexed by
  address. A buffer that a call fills is the list of the bytes it copies there, with the values it sets
  through its pointers; a call that fails before it sets them gives the empty list.
\<close>

section \<open>Model\<close>

record QUIC_RSTREAM =
  rs_fl :: SFRAME_LIST
  rs_rxfc :: "nat option"
  rs_statm :: "nat option"
  rs_head_range :: UINT_RANGE
  rs_rbuf :: ring_buf

type_synonym statm_store = "nat \<Rightarrow> OSSL_STATM"

text \<open>\<open>mem_ok\<close> tells whether the object is allocated, \<open>block\<close> is the memory the ring buffer gets.\<close>

definition ossl_quic_rstream_new ::
  "bool \<Rightarrow> u8 list option \<Rightarrow> nat option \<Rightarrow> nat option \<Rightarrow> u64 \<Rightarrow> QUIC_RSTREAM option" where
  "ossl_quic_rstream_new mem_ok block rxfc statm rbuf_size =
     (if \<not> mem_ok then None
      else case ring_buf_resize block ring_buf_init rbuf_size of
        (rbuf, ok) \<Rightarrow> if \<not> ok then None
          else Some \<lparr>rs_fl = ossl_sframe_list_init, rs_rxfc = rxfc, rs_statm = statm,
                 rs_head_range = \<lparr>r_start = 0, r_end = 0\<rparr>, rs_rbuf = rbuf\<rparr>)"

text \<open>What is left of the parts of the object when its memory is freed.\<close>

definition ossl_quic_rstream_free :: "QUIC_RSTREAM \<Rightarrow> QUIC_RSTREAM" where
  "ossl_quic_rstream_free qrs =
     qrs\<lparr>rs_fl := ossl_sframe_list_destroy (rs_fl qrs), rs_rbuf := ring_buf_destroy (rs_rbuf qrs)\<rparr>"

text \<open>\<open>data\<close> is \<open>None\<close> for NULL, and else the \<open>data_len\<close> bytes it points to.\<close>

definition ossl_quic_rstream_queue_data ::
  "bool \<Rightarrow> QUIC_RSTREAM \<Rightarrow> nat option \<Rightarrow> u64 \<Rightarrow> u8 list option \<Rightarrow> u64 \<Rightarrow> bool \<Rightarrow> QUIC_RSTREAM \<times> bool" where
  "ossl_quic_rstream_queue_data mem_ok qrs pkt offset data data_len fin =
     (if (data = None \<and> data_len \<noteq> 0) \<or> (data_len = 0 \<and> \<not> fin) then (qrs, False)
      else case ossl_sframe_list_insert mem_ok (rs_fl qrs) \<lparr>r_start = offset, r_end = offset + data_len\<rparr> pkt data fin of
        (fl, ok) \<Rightarrow> (qrs\<lparr>rs_fl := fl\<rparr>, ok))"

text \<open>The \<open>l\<close> bytes that one round of \<open>read_internal\<close> copies; \<open>None\<close> where an \<open>ossl_assert\<close> fails.\<close>

definition read_chunk :: "ring_buf \<Rightarrow> UINT_RANGE \<Rightarrow> u8 list option \<Rightarrow> u64 \<Rightarrow> u8 list option" where
  "read_chunk rbuf rg data l =
     (case data of
        Some d \<Rightarrow> Some (take (unat l) d)
      | None \<Rightarrow>
          (case ring_buf_get_ptr rbuf (r_start rg) of
             None \<Rightarrow> None
           | Some (d, max_len) \<Rightarrow>
               if max_len < unat l then
                 (let l' = unat l - max_len in
                  case ring_buf_get_ptr rbuf (r_start rg + of_nat max_len) of
                    None \<Rightarrow> None
                  | Some (d', max_len') \<Rightarrow>
                      if \<not> max_len' > l' then None else Some (take max_len d @ take l' d'))
               else Some (take (unat l) d)))"

text \<open>The number of frames after the iterator, which every successful peek reduces.\<close>

definition peek_left :: "SFRAME_LIST \<Rightarrow> nat option \<Rightarrow> nat" where
  "peek_left fl iter = length (sl_frames fl) - (case iter of None \<Rightarrow> 0 | Some i \<Rightarrow> Suc i)"

lemma peek_progress:
  "po_ok (ossl_sframe_list_peek fl iter) \<Longrightarrow>
   peek_left fl (po_iter (ossl_sframe_list_peek fl iter)) < peek_left fl iter"
  by (auto simp: ossl_sframe_list_peek_def peek_left_def Let_def split: option.splits if_splits)

text \<open>The loop of \<open>read_internal\<close>: the offset it ends at, the bytes copied, and \<open>fin_\<close>.\<close>

function read_loop ::
  "QUIC_RSTREAM \<Rightarrow> nat option \<Rightarrow> u64 \<Rightarrow> u64 \<Rightarrow> u8 list \<Rightarrow> (u64 \<times> u8 list \<times> bool) option" where
  "read_loop qrs iter size' offset buf =
     (let po = ossl_sframe_list_peek (rs_fl qrs) iter in
      if \<not> po_ok po then Some (offset, buf, po_fin po)
      else
        let l = r_end (po_range po) - r_start (po_range po);
            fin = (if l > size' then False else po_fin po);
            l = (if l > size' then size' else l);
            offset = r_start (po_range po) + l
        in if l = 0 then Some (offset, buf, fin)
           else case read_chunk (rs_rbuf qrs) (po_range po) (po_data po) l of
             None \<Rightarrow> None
           | Some bs \<Rightarrow>
               if size' - l = 0 then Some (offset, buf @ bs, fin)
               else read_loop qrs (po_iter po) (size' - l) offset (buf @ bs))"
  by pat_completeness auto
termination
  by (relation "measure (\<lambda>(qrs, iter, s, off, buf). peek_left (rs_fl qrs) iter)") (auto dest: peek_progress)

record read_out =
  ro_ret :: bool
  ro_buf :: "u8 list"
  ro_fin :: bool

definition read_failed :: read_out where
  "read_failed = \<lparr>ro_ret = False, ro_buf = [], ro_fin = False\<rparr>"

definition read_internal :: "QUIC_RSTREAM \<Rightarrow> u64 \<Rightarrow> bool \<Rightarrow> QUIC_RSTREAM \<times> read_out" where
  "read_internal qrs size' drop' =
     (case read_loop qrs None size' 0 [] of
        None \<Rightarrow> (qrs, read_failed)
      | Some (offset, buf, fin) \<Rightarrow>
          if drop' \<and> offset \<noteq> 0 then
            (case ossl_sframe_list_drop_frames (rs_fl qrs) offset of
               (fl, ret) \<Rightarrow>
                 (qrs\<lparr>rs_fl := fl, rs_rbuf := ring_buf_cpop_range (rs_rbuf qrs) 0 (offset - 1) (sl_cleanse fl)\<rparr>,
                  if ret then \<lparr>ro_ret = True, ro_buf = buf, ro_fin = fin\<rparr> else read_failed))
          else (qrs, \<lparr>ro_ret = True, ro_buf = buf, ro_fin = fin\<rparr>))"

definition get_rtt :: "statm_store \<Rightarrow> QUIC_RSTREAM \<Rightarrow> OSSL_TIME" where
  "get_rtt statms qrs =
     (case rs_statm qrs of
        Some a \<Rightarrow> ri_smoothed_rtt (ossl_statm_get_rtt_info (statms a))
      | None \<Rightarrow> ossl_time_zero)"

definition ossl_quic_rstream_read ::
  "OSSL_TIME \<Rightarrow> statm_store \<Rightarrow> rxfc_store \<Rightarrow> QUIC_RSTREAM \<Rightarrow> u64 \<Rightarrow> rxfc_store \<times> QUIC_RSTREAM \<times> read_out" where
  "ossl_quic_rstream_read now statms h qrs size' =
     (let rtt = get_rtt statms qrs in
      case read_internal qrs size' True of
        (qrs, ro) \<Rightarrow>
          if \<not> ro_ret ro then (h, qrs, ro)
          else case rs_rxfc qrs of
            None \<Rightarrow> (h, qrs, ro)
          | Some a \<Rightarrow> (case ossl_quic_rxfc_on_retire now h a (of_nat (length (ro_buf ro))) rtt of
              (h, ok) \<Rightarrow> (h, qrs, ro\<lparr>ro_ret := ok\<rparr>)))"

definition ossl_quic_rstream_peek :: "QUIC_RSTREAM \<Rightarrow> u64 \<Rightarrow> QUIC_RSTREAM \<times> read_out" where
  "ossl_quic_rstream_peek qrs size' = read_internal qrs size' False"

text \<open>The loop of \<open>ossl_quic_rstream_available\<close>: \<open>avail_\<close> and \<open>*fin\<close>.\<close>

function avail_loop :: "SFRAME_LIST \<Rightarrow> nat option \<Rightarrow> u64 \<Rightarrow> u64 \<times> bool" where
  "avail_loop fl iter avail =
     (let po = ossl_sframe_list_peek fl iter in
      if \<not> po_ok po then (avail, po_fin po)
      else avail_loop fl (po_iter po) (avail + (r_end (po_range po) - r_start (po_range po))))"
  by pat_completeness auto
termination
  by (relation "measure (\<lambda>(fl, iter, avail). peek_left fl iter)") (auto dest: peek_progress)

definition ossl_quic_rstream_available :: "QUIC_RSTREAM \<Rightarrow> u64 \<times> bool" where
  "ossl_quic_rstream_available qrs = avail_loop (rs_fl qrs) None 0"

text \<open>
  What \<open>ossl_quic_rstream_get_record\<close> returns: whether it succeeds, the record with its length (the bytes
  the pointer gives access to, \<open>[]\<close> for none) and \<open>*fin\<close>, \<open>None\<close> where the call leaves it as it is.
\<close>

record record_out =
  rec_ret :: bool
  rec_bytes :: "u8 list"
  rec_fin :: "bool option"

definition ossl_quic_rstream_get_record :: "QUIC_RSTREAM \<Rightarrow> QUIC_RSTREAM \<times> record_out" where
  "ossl_quic_rstream_get_record qrs =
     (case ossl_sframe_list_lock_head (rs_fl qrs) of
        (fl, None) \<Rightarrow> (qrs\<lparr>rs_fl := fl\<rparr>, \<lparr>rec_ret = True, rec_bytes = [], rec_fin = None\<rparr>)
      | (fl, Some po) \<Rightarrow>
          let qrs = qrs\<lparr>rs_fl := fl, rs_head_range := po_range po\<rparr>;
              failed = \<lparr>rec_ret = False, rec_bytes = [], rec_fin = Some (po_fin po)\<rparr>
          in if \<not> po_ok po then (qrs, \<lparr>rec_ret = True, rec_bytes = [], rec_fin = Some (po_fin po)\<rparr>)
             else
               let hr = rs_head_range qrs;
                   empty = (r_end hr = r_start hr);
                   dropped = (if empty then ossl_sframe_list_drop_frames fl (r_end hr) else (fl, True))
               in if empty \<and> \<not> po_fin po then (qrs, failed)
                  else if \<not> snd dropped then (qrs\<lparr>rs_fl := fst dropped\<rparr>, failed)
                  else
                    let qrs = qrs\<lparr>rs_fl := fst dropped\<rparr>;
                        rec_len = r_end hr - r_start hr
                    in if po_data po = None \<and> rec_len \<noteq> 0 then
                         (case ring_buf_get_ptr (rs_rbuf qrs) (r_start hr) of
                            None \<Rightarrow> (qrs, failed)
                          | Some (d, max_len) \<Rightarrow>
                              if max_len < unat rec_len then
                                (qrs\<lparr>rs_head_range := hr\<lparr>r_end := r_start hr + of_nat max_len\<rparr>\<rparr>,
                                 \<lparr>rec_ret = True, rec_bytes = take max_len d, rec_fin = Some (po_fin po)\<rparr>)
                              else (qrs, \<lparr>rec_ret = True, rec_bytes = take (unat rec_len) d, rec_fin = Some (po_fin po)\<rparr>))
                       else (qrs, \<lparr>rec_ret = True, rec_bytes = (case po_data po of None \<Rightarrow> [] | Some d \<Rightarrow> take (unat rec_len) d),
                                   rec_fin = Some (po_fin po)\<rparr>))"

definition ossl_quic_rstream_release_record ::
  "OSSL_TIME \<Rightarrow> statm_store \<Rightarrow> rxfc_store \<Rightarrow> QUIC_RSTREAM \<Rightarrow> u64 \<Rightarrow> rxfc_store \<times> QUIC_RSTREAM \<times> bool" where
  "ossl_quic_rstream_release_record now statms h qrs read_len =
     (let hr = rs_head_range qrs;
          beyond = (read_len > r_end hr - r_start hr);
          offset = (if beyond then r_end hr else r_start hr + read_len)
      in if \<not> ossl_sframe_list_is_head_locked (rs_fl qrs) then (h, qrs, False)
         else if beyond \<and> read_len \<noteq> SIZE_MAX then (h, qrs, False)
         else case ossl_sframe_list_drop_frames (rs_fl qrs) offset of
           (fl, ok) \<Rightarrow>
             let qrs = qrs\<lparr>rs_fl := fl\<rparr> in
             if \<not> ok then (h, qrs, False)
             else
               let qrs = (if offset > 0
                          then qrs\<lparr>rs_rbuf := ring_buf_cpop_range (rs_rbuf qrs) 0 (offset - 1) (sl_cleanse fl)\<rparr>
                          else qrs)
               in case rs_rxfc qrs of
                    None \<Rightarrow> (h, qrs, True)
                  | Some a \<Rightarrow> (case ossl_quic_rxfc_on_retire now h a offset (get_rtt statms qrs) of
                      (h, ok) \<Rightarrow> (h, qrs, ok)))"

definition write_at_ring_buf_cb :: "ring_buf \<Rightarrow> u64 \<Rightarrow> u8 list \<Rightarrow> ring_buf \<times> bool" where
  "write_at_ring_buf_cb rbuf logical_offset buf = ring_buf_write_at rbuf logical_offset buf"

definition ossl_quic_rstream_move_to_rbuf :: "QUIC_RSTREAM \<Rightarrow> QUIC_RSTREAM \<times> bool" where
  "ossl_quic_rstream_move_to_rbuf qrs =
     (if ring_buf_avail (rs_rbuf qrs) = 0 then (qrs, False)
      else case ossl_sframe_list_move_data write_at_ring_buf_cb (rs_fl qrs) (rs_rbuf qrs) of
        (fl, rbuf, ok) \<Rightarrow> (qrs\<lparr>rs_fl := fl, rs_rbuf := rbuf\<rparr>, ok))"

definition ossl_quic_rstream_resize_rbuf :: "u8 list option \<Rightarrow> QUIC_RSTREAM \<Rightarrow> u64 \<Rightarrow> QUIC_RSTREAM \<times> bool" where
  "ossl_quic_rstream_resize_rbuf block qrs rbuf_size =
     (if ossl_sframe_list_is_head_locked (rs_fl qrs) then (qrs, False)
      else case ring_buf_resize block (rs_rbuf qrs) rbuf_size of
        (rbuf, ok) \<Rightarrow> (qrs\<lparr>rs_rbuf := rbuf\<rparr>, ok))"

definition ossl_quic_rstream_set_cleanse :: "QUIC_RSTREAM \<Rightarrow> bool \<Rightarrow> QUIC_RSTREAM" where
  "ossl_quic_rstream_set_cleanse qrs cleanse = qrs\<lparr>rs_fl := (rs_fl qrs)\<lparr>sl_cleanse := cleanse\<rparr>\<rparr>"

section \<open>The ring buffer as side storage\<close>

definition rb_holds :: "ring_buf \<Rightarrow> nat \<Rightarrow> u8 \<Rightarrow> bool" where
  "rb_holds r i b \<longleftrightarrow> unat (ctail_offset r) \<le> i \<and> i < unat (head_offset r) \<and> rb_byte r i = b"

definition rb_stores :: "u64 \<Rightarrow> ring_buf \<Rightarrow> bool" where
  "rb_stores off r \<longleftrightarrow> rb_ok r \<and> head_offset r \<le> MAX_OFFSET \<and> ctail_offset r = off"

lemma unat_MAX_OFFSET: "unat MAX_OFFSET = 2 ^ 62"
  by (simp add: MAX_OFFSET_def)

interpretation rb: side_storage write_at_ring_buf_cb "rb_stores off" rb_holds for off
proof
  fix st lo bs st'
  assume st: "rb_stores off st" and len: "unat lo + length bs < 2 ^ 62"
    and w: "write_at_ring_buf_cb st lo bs = (st', True)"
  have "rb_ok st" "length bs < 2 ^ 62" using st len by (simp_all add: rb_stores_def)
  note c = write_at_correct [OF this w [unfolded write_at_ring_buf_cb_def]]
  have win: "in_window st i" if "unat (ctail_offset st) \<le> i" "i < unat (head_offset st)" for i
    using st that by (auto simp: rb_stores_def rb_ok_def in_window_def)
  have ct: "unat (ctail_offset st) \<le> unat lo" using c(2) by (simp add: u64_nat)
  have "head_offset st' \<le> MAX_OFFSET"
    using c(1) st len by (auto simp: written_to_def rb_stores_def u64_nat unat_MAX_OFFSET)
  then show "rb_stores off st' \<and> (\<forall>j<length bs. rb_holds st' (unat lo + j) (bs ! j)) \<and>
      (\<forall>i b. rb_holds st i b \<longrightarrow> (i < unat lo \<or> unat lo + length bs \<le> i) \<longrightarrow> rb_holds st' i b)"
    using c(1,3) ct st win by (auto simp: written_to_def rb_stores_def rb_holds_def in_window_def)
next
  fix st lo bs st'
  assume "write_at_ring_buf_cb st lo bs = (st', False)"
  then show "st' = st"
    by (auto simp: write_at_ring_buf_cb_def ring_buf_write_at_def Let_def split: prod.splits if_splits)
qed

section \<open>Reading\<close>

lemma get_ptr_at:
  assumes ok: "rb_ok r" and h: "\<forall>i. x \<le> i \<longrightarrow> i < x + n \<longrightarrow> rb_holds r i (S i)" and n: "0 < n" and x: "unat y = x"
  obtains d max_len where "ring_buf_get_ptr r y = Some (d, max_len)" "max_len = unat (rb_alloc r) - x mod unat (rb_alloc r)"
    "\<And>k. k \<le> n \<Longrightarrow> k \<le> max_len \<Longrightarrow> take k d = map S [x..<x + k]" "0 < max_len"
proof -
  have y: "ctail_offset r \<le> y" "y < head_offset r"
    using h n x by (auto simp: rb_holds_def u64_nat dest: spec [of _ x])
  have a: "0 < unat (rb_alloc r)" using y ok by (auto simp: rb_ok_def u64_nat)
  then have idx: "unat (y mod rb_alloc r) < unat (rb_alloc r)" by (simp add: unat_mod)
  then have g: "ring_buf_get_ptr r y = Some (drop (unat (y mod rb_alloc r)) (rb_start r), unat (rb_alloc r) - x mod unat (rb_alloc r))"
    using y x by (auto simp: ring_buf_get_ptr_def Let_def not_less not_le unat_u64_sub u64_nat)
  show thesis
  proof (rule that [OF g refl])
    fix k
    assume k: "k \<le> n" "k \<le> unat (rb_alloc r) - x mod unat (rb_alloc r)"
    have w: "x + k \<le> unat (ctail_offset r) + unat (rb_alloc r)"
    proof (cases "k = 0")
      case True
      then show ?thesis using y(2) x ok by (auto simp: rb_ok_def u64_nat)
    next
      case False
      then have "rb_holds r (x + k - 1) (S (x + k - 1))" using h k(1) by simp
      then show ?thesis using ok by (auto simp: rb_holds_def rb_ok_def)
    qed
    have "map (rb_byte r) [x..<x + k] = map S [x..<x + k]"
      using h k(1) by (intro map_cong) (auto simp: rb_holds_def)
    then show "take k (drop (unat (y mod rb_alloc r)) (rb_start r)) = map S [x..<x + k]"
      using get_ptr_bytes [OF ok g k(2)] w x by simp
  qed (use a in simp)
qed

lemma read_chunk_bytes:
  assumes ok: "rb_ok r" and c: "frame_content (rb_holds r) S off f"
    and st: "off \<le> start" "sf_start f \<le> start" and l: "0 < l" "unat start + unat l \<le> unat (sf_end f)"
  shows "read_chunk r \<lparr>r_start = start, r_end = e\<rparr> (map_option (drop (unat (start - sf_start f))) (sf_data f)) l =
    Some (map S [unat start..<unat start + unat l])"
proof (cases "sf_data f")
  case (Some d)
  then have d: "d = map S [unat (sf_start f)..<unat (sf_end f)]" using c by (simp add: frame_content_def)
  show ?thesis
    using st(2) l(2) by (simp add: read_chunk_def Some d drop_map take_map drop_upt take_upt unat_u64_sub u64_nat)
next
  case None
  let ?x = "unat start" and ?n = "unat l" and ?a = "unat (rb_alloc r)"
  have h: "\<forall>i. ?x \<le> i \<longrightarrow> i < ?x + ?n \<longrightarrow> rb_holds r i (S i)"
    using c None st l(2) by (auto simp: frame_content_def in_frame_bytes_at u64_nat)
  have n: "0 < ?n" using l(1) by (simp add: u64_nat)
  obtain d m where p: "ring_buf_get_ptr r start = Some (d, m)" "m = ?a - ?x mod ?a" "0 < m"
    and tk: "\<And>k. k \<le> ?n \<Longrightarrow> k \<le> m \<Longrightarrow> take k d = map S [?x..<?x + k]"
    using get_ptr_at [OF ok h n refl] by metis
  show ?thesis
  proof (cases "m < ?n")
    case False
    then show ?thesis using None p tk [of ?n] by (simp add: read_chunk_def)
  next
    case True
    have s: "unat (start + of_nat m) = ?x + m"
      using True l(2) by (intro unat_u64_add_of_nat_le(1) [of _ _ "sf_end f"]) simp
    have h': "\<forall>i. ?x + m \<le> i \<longrightarrow> i < ?x + m + (?n - m) \<longrightarrow> rb_holds r i (S i)" using h True by auto
    obtain d' m' where q: "ring_buf_get_ptr r (start + of_nat m) = Some (d', m')" "m' = ?a - (?x + m) mod ?a"
      and tk': "\<And>k. k \<le> ?n - m \<Longrightarrow> k \<le> m' \<Longrightarrow> take k d' = map S [?x + m..<?x + m + k]"
      using get_ptr_at [OF ok h' _ s] True by (metis zero_less_diff)
    have "?x mod ?a < ?a" using p(2,3) by simp
    then have "?x + m = ?a * (?x div ?a) + ?a"
      using p(2) mult_div_mod_eq [of ?a ?x] by linarith
    then have "(?x + m) mod ?a = 0" by simp
    then have m': "m' = ?a" using q(2) by simp
    have "rb_holds r (?x + ?n - 1) (S (?x + ?n - 1))" "rb_holds r ?x (S ?x)" using h n by auto
    then have "?n \<le> ?a" using ok by (auto simp: rb_holds_def rb_ok_def)
    then have lt: "?n - m < m'" using m' True p(3) by linarith
    have "map S [?x..<?x + ?n] = map S [?x..<?x + m] @ map S [?x + m..<?x + ?n]"
      using upt_add_eq_append [of ?x "?x + m" "?n - m"] True by simp
    then show ?thesis
      using None p(1) q(1) lt True tk [of m] tk' [of "?n - m"] by (simp add: read_chunk_def Let_def)
  qed
qed

declare read_loop.simps [simp del] avail_loop.simps [simp del]

text \<open>How much of the frames \<open>fs\<close> is contiguous from \<open>start\<close>, up to \<open>n\<close> bytes.\<close>

definition readable :: "u64 \<Rightarrow> STREAM_FRAME list \<Rightarrow> u64 \<Rightarrow> nat" where
  "readable start fs n = min (unat n) (unat (contig start fs) - unat start)"

definition frames_top :: "u64 \<Rightarrow> STREAM_FRAME list \<Rightarrow> u64" where
  "frames_top start fs = (if fs = [] then start else sf_end (last fs))"

lemma contig_bounds:
  assumes "sf_wf start fs"
  shows "unat start \<le> unat (contig start fs)" "unat (contig start fs) \<le> unat (frames_top start fs)"
  using contig_covered(1,4) [OF assms] by (simp_all add: u64_nat frames_top_def)

text \<open>What the loop returns from an iterator that stands before the frames \<open>fs\<close>.\<close>

definition read_result :: "(nat \<Rightarrow> u8) \<Rightarrow> bool \<Rightarrow> u64 \<Rightarrow> STREAM_FRAME list \<Rightarrow> u64 \<Rightarrow> u64 \<Rightarrow> u8 list \<Rightarrow>
  (u64 \<times> u8 list \<times> bool) option \<Rightarrow> bool" where
  "read_result S sfin start fs n offset buf out \<longleftrightarrow>
     (\<exists>x fin. out = Some (x, buf @ map S [unat start..<unat start + readable start fs n], fin) \<and>
       (if fs = [] \<or> start < sf_start (hd fs) then x = offset else unat x = unat start + readable start fs n) \<and>
       (fin \<longleftrightarrow> sfin \<and> unat start + readable start fs n = unat (frames_top start fs)))"

text \<open>A frame that holds more than the buffer takes.\<close>

lemma read_result_short:
  assumes wf: "sf_wf start (f # fs)" and st: "sf_start f \<le> start" "off \<le> start" and short: "sf_end f - start > n"
    and c: "frame_content (rb_holds r) S off f" "rb_ok r"
  shows "unat (start + n) = unat start + unat n" "readable start (f # fs) n = unat n"
    and "n \<noteq> 0 \<Longrightarrow> read_chunk r \<lparr>r_start = start, r_end = sf_end f\<rparr>
       (map_option (drop (unat (start - sf_start f))) (sf_data f)) n = Some (map S [unat start..<unat start + unat n])"
    and "read_result S sfin start (f # fs) n offset buf (Some (start + n, buf @ map S [unat start..<unat start + unat n], False))"
proof -
  have lt: "start < sf_end f" using wf by simp
  have ns: "unat start + unat n < unat (sf_end f)" using short lt by (simp add: unat_u64_sub u64_nat)
  then show nadd: "unat (start + n) = unat start + unat n"
    using unat_u64_lt [of "sf_end f"] by (intro unat_u64_add) linarith
  have c0: "contig start (f # fs) = contig (sf_end f) fs" using st(1) by auto
  show rd: "readable start (f # fs) n = unat n"
    using ns contig_bounds(1) [OF wf_next [OF wf]] unfolding readable_def c0 by simp
  have "unat (sf_end f) \<le> unat (frames_top start (f # fs))"
    using contig_bounds [OF wf_next [OF wf]] by (auto simp: frames_top_def split: if_splits)
  with ns have top: "unat start + unat n \<noteq> unat (frames_top start (f # fs))" by linarith
  have hit: "\<not> (f # fs = [] \<or> start < sf_start (hd (f # fs)))" using st(1) by auto
  show "read_result S sfin start (f # fs) n offset buf
      (Some (start + n, buf @ map S [unat start..<unat start + unat n], False))"
    unfolding read_result_def if_not_P [OF hit] rd using nadd top by (auto intro: exI [of _ False])
  assume "n \<noteq> 0"
  then show "read_chunk r \<lparr>r_start = start, r_end = sf_end f\<rparr>
      (map_option (drop (unat (start - sf_start f))) (sf_data f)) n = Some (map S [unat start..<unat start + unat n])"
    using c ns st by (intro read_chunk_bytes [where off = off]) (auto simp: word_neq_0_conv)
qed

text \<open>A frame that the buffer takes whole.\<close>

lemma read_result_full:
  assumes wf: "sf_wf start (f # fs)" and st: "sf_start f \<le> start" "off \<le> start" and full: "\<not> sf_end f - start > n"
    and c: "frame_content (rb_holds r) S off f" "rb_ok r"
  shows "sf_end f - start \<noteq> 0" "start + (sf_end f - start) = sf_end f"
    and "read_chunk r \<lparr>r_start = start, r_end = sf_end f\<rparr>
       (map_option (drop (unat (start - sf_start f))) (sf_data f)) (sf_end f - start) = Some (map S [unat start..<unat (sf_end f)])"
    and "n - (sf_end f - start) = 0 \<Longrightarrow> read_result S sfin start (f # fs) n offset buf
       (Some (sf_end f, buf @ map S [unat start..<unat (sf_end f)], fs = [] \<and> sfin))"
    and "read_result S sfin (sf_end f) fs (n - (sf_end f - start)) (sf_end f) (buf @ map S [unat start..<unat (sf_end f)]) out \<Longrightarrow>
       read_result S sfin start (f # fs) n offset buf out"
proof -
  let ?l = "sf_end f - start"
  have lt: "start < sf_end f" using wf by simp
  have le: "unat start + unat ?l = unat (sf_end f)" using lt by (simp add: unat_u64_sub u64_nat)
  show l0: "?l \<noteq> 0" using lt by auto
  show add: "start + ?l = sf_end f" by simp
  note wf' = wf_next [OF wf]
  have c0: "contig start (f # fs) = contig (sf_end f) fs" using st(1) by auto
  have nl: "unat (n - ?l) = unat n - unat ?l" "unat ?l \<le> unat n" using full by (simp_all add: unat_u64_sub u64_nat)
  have rd: "readable start (f # fs) n = unat ?l + readable (sf_end f) fs (n - ?l)"
    unfolding readable_def c0 using contig_bounds(1) [OF wf'] nl le by simp
  have ft: "frames_top start (f # fs) = frames_top (sf_end f) fs" by (simp add: frames_top_def)
  have app: "map S [unat start..<unat start + readable start (f # fs) n] =
      map S [unat start..<unat (sf_end f)] @ map S [unat (sf_end f)..<unat (sf_end f) + readable (sf_end f) fs (n - ?l)]"
    unfolding rd using le upt_add_eq_append [of "unat start" "unat (sf_end f)" "readable (sf_end f) fs (n - ?l)"]
    by (simp add: add.assoc [symmetric] u64_nat)
  show "read_chunk r \<lparr>r_start = start, r_end = sf_end f\<rparr>
      (map_option (drop (unat (start - sf_start f))) (sf_data f)) ?l = Some (map S [unat start..<unat (sf_end f)])"
    using c st l0 le read_chunk_bytes [of r S off f start ?l "sf_end f"] unfolding word_neq_0_conv by simp
  have stop: "unat x = unat (sf_end f) + readable (sf_end f) fs m"
    if "if fs = [] \<or> sf_end f < sf_start (hd fs) then x = sf_end f else unat x = unat (sf_end f) + readable (sf_end f) fs m" for x m
    using that by (cases fs) (auto simp: readable_def split: if_splits)
  have sum: "unat start + readable start (f # fs) n = unat (sf_end f) + readable (sf_end f) fs (n - ?l)"
    using rd le by simp
  show continue: "read_result S sfin start (f # fs) n offset buf out"
    if "read_result S sfin (sf_end f) fs (n - ?l) (sf_end f) (buf @ map S [unat start..<unat (sf_end f)]) out" for out
  proof -
    from that obtain x fin where o: "out = Some (x, (buf @ map S [unat start..<unat (sf_end f)]) @
        map S [unat (sf_end f)..<unat (sf_end f) + readable (sf_end f) fs (n - ?l)], fin)"
      and x: "unat x = unat (sf_end f) + readable (sf_end f) fs (n - ?l)"
      and fin: "fin \<longleftrightarrow> sfin \<and> unat (sf_end f) + readable (sf_end f) fs (n - ?l) = unat (frames_top (sf_end f) fs)"
      unfolding read_result_def using stop by blast
    have ns: "\<not> (f # fs = [] \<or> start < sf_start (hd (f # fs)))" using st(1) by auto
    show ?thesis unfolding read_result_def if_not_P [OF ns] sum ft using o x fin app [unfolded sum] by simp
  qed
  show "read_result S sfin start (f # fs) n offset buf (Some (sf_end f, buf @ map S [unat start..<unat (sf_end f)], fs = [] \<and> sfin))"
    if "n - ?l = 0"
  proof (rule continue)
    have z: "readable (sf_end f) fs (n - ?l) = 0" using that by (simp add: readable_def)
    have "fs = [] \<longleftrightarrow> unat (sf_end f) = unat (frames_top (sf_end f) fs)"
      using wf' by (auto simp: frames_top_def sf_wf_def u64_nat dest: bspec [OF _ last_in_set])
    then show "read_result S sfin (sf_end f) fs (n - ?l) (sf_end f) (buf @ map S [unat start..<unat (sf_end f)])
        (Some (sf_end f, buf @ map S [unat start..<unat (sf_end f)], fs = [] \<and> sfin))"
      unfolding read_result_def z by auto
  qed
qed

lemma read_loop_spec:
  assumes "sf_wf start fs" "peek_pos (rs_fl qrs) iter = (start, i)" "drop i (sl_frames (rs_fl qrs)) = fs"
    and "\<forall>f\<in>set fs. frame_content (rb_holds (rs_rbuf qrs)) S off f" "rb_ok (rs_rbuf qrs)" "off \<le> start"
  shows "read_result S (sl_fin (rs_fl qrs)) start fs n offset buf (read_loop qrs iter n offset buf)"
  using assms
proof (induction fs arbitrary: start iter i n offset buf)
  case Nil
  then show ?case
    using peek_end [OF Nil.prems(2,3)] by (simp add: read_loop.simps read_result_def readable_def frames_top_def Let_def)
next
  case (Cons f fs)
  have lt: "start < sf_end f" using Cons.prems(1) by simp
  note pf = peek_frame [OF Cons.prems(2,3) lt] and wf' = wf_next [OF Cons.prems(1)]
  have c: "frame_content (rb_holds (rs_rbuf qrs)) S off f" "\<forall>f\<in>set fs. frame_content (rb_holds (rs_rbuf qrs)) S off f"
    using Cons.prems(4) by auto
  show ?case
  proof (cases "sf_start f \<le> start")
    case False
    have "start < frames_top start (f # fs)" using Cons.prems(1) by (simp add: frames_top_def sf_wf_def)
    with False pf(1,2) show ?thesis
      by (auto simp: read_loop.simps [of qrs iter] read_result_def readable_def Let_def u64_nat)
  next
    case st: True
    note po = pf(3) [OF st]
    show ?thesis
    proof (cases "sf_end f - start > n")
      case True
      note r = read_result_short [OF Cons.prems(1) st Cons.prems(6) True c(1) Cons.prems(5)]
      show ?thesis
      proof (cases "n = 0")
        case z: True
        then show ?thesis using r(4) [of "sl_fin (rs_fl qrs)" offset buf] True
          by (simp add: read_loop.simps [of qrs iter] po Let_def)
      next
        case False
        then show ?thesis using r(3) r(4) [of "sl_fin (rs_fl qrs)" offset buf] True
          by (simp add: read_loop.simps [of qrs iter] po Let_def)
      qed
    next
      case False
      note r = read_result_full [OF Cons.prems(1) st Cons.prems(6) False c(1) Cons.prems(5)]
      have "off \<le> sf_end f" using Cons.prems(6) lt by simp
      note IH = Cons.IH [OF wf' pf(4,5) c(2) Cons.prems(5) this]
      show ?thesis
        using r IH False by (auto simp: read_loop.simps [of qrs iter] po Let_def)
    qed
  qed
qed

lemma avail_loop_spec:
  assumes "sf_wf start fs" "peek_pos fl iter = (start, i)" "drop i (sl_frames fl) = fs"
  shows "avail_loop fl iter n = (n + (contig start fs - start), sl_fin fl \<and> contig start fs = frames_top start fs)"
  using assms
proof (induction fs arbitrary: start iter i n)
  case Nil
  then show ?case
    using peek_end [OF Nil.prems(2,3)] by (simp add: avail_loop.simps frames_top_def Let_def)
next
  case (Cons f fs)
  have lt: "start < sf_end f" using Cons.prems(1) by simp
  note pf = peek_frame [OF Cons.prems(2,3) lt] and wf' = wf_next [OF Cons.prems(1)]
  show ?case
  proof (cases "sf_start f \<le> start")
    case False
    have "start < sf_end (last (f # fs))" using Cons.prems(1) by (simp add: sf_wf_def)
    with False pf(1,2) show ?thesis by (auto simp: avail_loop.simps [of fl iter] Let_def frames_top_def)
  next
    case True
    then show ?thesis
      using Cons.IH [OF wf' pf(4,5), of "n + (sf_end f - start)"] pf(3)
      by (auto simp: avail_loop.simps [of fl iter] Let_def frames_top_def)
  qed
qed

section \<open>The invariant of a receive stream\<close>

text \<open>
  For a stream with content \<open>S\<close> and final size \<open>F\<close> of which the offsets \<open>R\<close> have been received: every frame
  and the ring buffer carry the bytes of the stream, what has been received is what has been read with what
  the frames cover, and a locked record starts at the read offset.
\<close>

definition record_ok :: "nat set \<Rightarrow> u64 \<Rightarrow> u64 \<Rightarrow> UINT_RANGE \<Rightarrow> bool" where
  "record_ok R off hi hr \<longleftrightarrow> r_start hr = off \<and> off \<le> r_end hr \<and> r_end hr \<le> hi \<and>
     {unat off..<unat (r_end hr)} \<subseteq> R"

definition rs_inv :: "(nat \<Rightarrow> u8) \<Rightarrow> nat \<Rightarrow> nat set \<Rightarrow> QUIC_RSTREAM \<Rightarrow> bool" where
  "rs_inv S F R qrs \<longleftrightarrow> sf_inv (rs_fl qrs) \<and> rb_stores (sl_offset (rs_fl qrs)) (rs_rbuf qrs) \<and>
     (\<forall>f\<in>set (sl_frames (rs_fl qrs)). frame_content (rb_holds (rs_rbuf qrs)) S (sl_offset (rs_fl qrs)) f) \<and>
     covered (sl_frames (rs_fl qrs)) \<union> {..<unat (sl_offset (rs_fl qrs))} = R \<and>
     unat (sf_top (rs_fl qrs)) < 2 ^ 62 \<and> unat (sf_top (rs_fl qrs)) \<le> F \<and>
     (sl_fin (rs_fl qrs) \<longrightarrow> unat (sf_top (rs_fl qrs)) = F) \<and>
     (sl_head_locked (rs_fl qrs) \<longrightarrow> record_ok R (sl_offset (rs_fl qrs)) (sf_top (rs_fl qrs)) (rs_head_range qrs))"

abbreviation rs_offset :: "QUIC_RSTREAM \<Rightarrow> nat" where
  "rs_offset qrs \<equiv> unat (sl_offset (rs_fl qrs))"

lemma rs_inv_frames:
  assumes "rs_inv S F R qrs"
  shows "sf_inv (rs_fl qrs)" "sf_wf (sl_offset (rs_fl qrs)) (sl_frames (rs_fl qrs))"
    "rb_ok (rs_rbuf qrs)" "ctail_offset (rs_rbuf qrs) = sl_offset (rs_fl qrs)" "head_offset (rs_rbuf qrs) \<le> MAX_OFFSET"
    "\<forall>f\<in>set (sl_frames (rs_fl qrs)). frame_content (rb_holds (rs_rbuf qrs)) S (sl_offset (rs_fl qrs)) f"
    "R = covered (sl_frames (rs_fl qrs)) \<union> {..<rs_offset qrs}"
  using assms by (auto simp: rs_inv_def rb_stores_def sf_inv_def)

lemma frames_top_eq: "frames_top (sl_offset fl) (sl_frames fl) = sf_top fl"
  by (simp add: frames_top_def sf_top_def)

text \<open>Consuming data up to an offset that has been received contiguously.\<close>

lemma consume_inv:
  assumes inv: "rs_inv S F R qrs" and x: "sl_offset (rs_fl qrs) \<le> x" "x \<le> sf_top (rs_fl qrs)" "x \<noteq> 0"
    and sub: "{rs_offset qrs..<unat x} \<subseteq> R" and d: "ossl_sframe_list_drop_frames (rs_fl qrs) x = (fl, ok)"
  shows "ok" "sl_offset fl = x"
    "rs_inv S F R (qrs\<lparr>rs_fl := fl, rs_rbuf := ring_buf_cpop_range (rs_rbuf qrs) 0 (x - 1) c\<rparr>)"
proof -
  note i = rs_inv_frames [OF inv]
  let ?r = "ring_buf_cpop_range (rs_rbuf qrs) 0 (x - 1) c"
  note ds = drop_frames_spec [OF i(1) d]
  show ok: "ok" using ds(1) x by simp
  have dt: "dropped_to (rs_fl qrs) x fl" using ds(3) ok .
  then show off: "sl_offset fl = x" by (simp add: dropped_to_def)
  have x1: "unat (x - 1) + 1 = unat x" using unat_u64_pred [of x] x(3) by (simp add: word_neq_0_conv u64_nat)
  have tp: "unat (sf_top (rs_fl qrs)) < 2 ^ 62" using inv by (simp add: rs_inv_def)
  then have mx: "x - 1 < MAX_OFFSET" using x(2) x1 by (simp add: u64_nat unat_MAX_OFFSET)
  have le: "unat (ctail_offset (rs_rbuf qrs)) \<le> unat (x - 1) + 1" using x(1) x1 i(4) by (simp add: u64_nat)
  note cp = cpop_correct [OF i(3) le _ mx, where start = 0 and cleanse = c, simplified]
  have "unat (ctail_offset ?r) = unat x" using cp(2) x1 by simp
  then have "ctail_offset ?r = x" by (rule u64_unat_inj)
  moreover have "head_offset ?r \<le> MAX_OFFSET"
    using cp(4) i(5) x(2) x1 tp by (simp add: u64_nat unat_MAX_OFFSET)
  ultimately have st: "rb_stores x ?r" using cp(1) by (simp add: rb_stores_def)
  have keep: "rb_holds ?r i b" if "rb_holds (rs_rbuf qrs) i b" "unat x \<le> i" for i b
    using that cp(2,4,5) x1 i(3,4) by (auto simp: rb_holds_def in_window_def rb_ok_def)
  have "frame_content (rb_holds ?r) S x f" if "f \<in> set (sl_frames fl)" for f
  proof -
    have "frame_content (rb_holds (rs_rbuf qrs)) S (sl_offset (rs_fl qrs)) f"
      using i(6) dt that by (auto simp: dropped_to_def)
    then show ?thesis using keep x(1) by (auto simp: frame_content_def u64_nat split: option.splits)
  qed
  moreover have "covered (sl_frames fl) \<union> {..<unat x} = R"
  proof -
    have "{..<unat x} = {..<rs_offset qrs} \<union> {rs_offset qrs..<unat x}" using x(1) by (auto simp: u64_nat)
    then show ?thesis using dt sub i(7) by (auto simp: dropped_to_def)
  qed
  ultimately show "rs_inv S F R (qrs\<lparr>rs_fl := fl, rs_rbuf := ?r\<rparr>)"
    using inv dt st by (simp add: rs_inv_def dropped_to_def)
qed

text \<open>The number of bytes a read returns.\<close>

definition rs_readable :: "QUIC_RSTREAM \<Rightarrow> u64 \<Rightarrow> nat" where
  "rs_readable qrs n = readable (sl_offset (rs_fl qrs)) (sl_frames (rs_fl qrs)) n"

lemma rs_readable_spec:
  assumes "rs_inv S F R qrs"
  shows "{rs_offset qrs..<rs_offset qrs + rs_readable qrs n} \<subseteq> R" "rs_readable qrs n \<le> unat n"
    "rs_readable qrs n < unat n \<Longrightarrow> rs_offset qrs + rs_readable qrs n \<notin> R"
    "rs_offset qrs + rs_readable qrs n \<le> unat (sf_top (rs_fl qrs))"
proof -
  note i = rs_inv_frames [OF assms]
  note c = contig_covered [OF i(2)] and b = contig_bounds [OF i(2), unfolded frames_top_eq]
  have "rs_offset qrs + rs_readable qrs n \<le> unat (contig (sl_offset (rs_fl qrs)) (sl_frames (rs_fl qrs)))"
    using b(1) by (simp add: rs_readable_def readable_def)
  then have "{rs_offset qrs..<rs_offset qrs + rs_readable qrs n} \<subseteq>
      {rs_offset qrs..<unat (contig (sl_offset (rs_fl qrs)) (sl_frames (rs_fl qrs)))}" by auto
  then show "{rs_offset qrs..<rs_offset qrs + rs_readable qrs n} \<subseteq> R"
    unfolding i(7) using c(2) by blast
  show "rs_readable qrs n \<le> unat n" by (simp add: rs_readable_def readable_def)
  show "rs_offset qrs + rs_readable qrs n \<le> unat (sf_top (rs_fl qrs))"
    using b by (simp add: rs_readable_def readable_def)
  assume "rs_readable qrs n < unat n"
  then have "rs_offset qrs + rs_readable qrs n = unat (contig (sl_offset (rs_fl qrs)) (sl_frames (rs_fl qrs)))"
    using b(1) by (simp add: rs_readable_def readable_def min_def split: if_splits)
  then show "rs_offset qrs + rs_readable qrs n \<notin> R" unfolding i(7) using c(3) b(1) by simp
qed

definition read_frame :: "QUIC_RSTREAM \<Rightarrow> QUIC_RSTREAM \<Rightarrow> bool" where
  "read_frame qrs qrs' \<longleftrightarrow> rs_rxfc qrs' = rs_rxfc qrs \<and> rs_statm qrs' = rs_statm qrs \<and>
     sl_fin (rs_fl qrs') = sl_fin (rs_fl qrs) \<and> sf_top (rs_fl qrs') = sf_top (rs_fl qrs) \<and>
     (sl_head_locked (rs_fl qrs') \<longrightarrow> qrs' = qrs)"

lemma consume_frame:
  "sf_inv (rs_fl qrs) \<Longrightarrow> ossl_sframe_list_drop_frames (rs_fl qrs) x = (fl, True) \<Longrightarrow>
   read_frame qrs (qrs\<lparr>rs_fl := fl, rs_rbuf := r\<rparr>)"
  using drop_frames_spec(3) by (fastforce simp: dropped_to_def read_frame_def)

lemma read_internal_spec:
  assumes inv: "rs_inv S F R qrs" and r: "read_internal qrs n d = (qrs', ro)"
  shows "ro = \<lparr>ro_ret = True, ro_buf = map S [rs_offset qrs..<rs_offset qrs + rs_readable qrs n],
      ro_fin = (sl_fin (rs_fl qrs) \<and> rs_offset qrs + rs_readable qrs n = unat (sf_top (rs_fl qrs)))\<rparr>"
    and "rs_inv S F R qrs'" "rs_offset qrs' = rs_offset qrs + (if d then rs_readable qrs n else 0)" "\<not> d \<Longrightarrow> qrs' = qrs"
    and "read_frame qrs qrs'"
proof -
  note i = rs_inv_frames [OF inv]
  let ?off = "sl_offset (rs_fl qrs)" and ?fs = "sl_frames (rs_fl qrs)" and ?m = "rs_readable qrs n"
  have pos: "peek_pos (rs_fl qrs) None = (?off, 0)" by (simp add: peek_pos_def)
  obtain x fin where l: "read_loop qrs None n 0 [] = Some (x, map S [unat ?off..<unat ?off + ?m], fin)"
    and x: "if ?fs = [] \<or> ?off < sf_start (hd ?fs) then x = 0 else unat x = unat ?off + ?m"
    and fin: "fin \<longleftrightarrow> sl_fin (rs_fl qrs) \<and> unat ?off + ?m = unat (sf_top (rs_fl qrs))"
    using read_loop_spec [OF i(2) pos _ i(6,3), of n 0 "[]"]
    unfolding read_result_def rs_readable_def frames_top_eq by auto
  have refl: "read_frame qrs qrs" by (simp add: read_frame_def)
  let ?ro = "\<lparr>ro_ret = True, ro_buf = map S [unat ?off..<unat ?off + ?m], ro_fin = fin\<rparr>"
  have "ro = ?ro \<and> rs_inv S F R qrs' \<and> rs_offset qrs' = unat ?off + (if d then ?m else 0) \<and> (\<not> d \<longrightarrow> qrs' = qrs) \<and> read_frame qrs qrs'"
  proof (cases "d \<and> x \<noteq> 0")
    case False
    then have q: "qrs' = qrs" "ro = ?ro" using r l by (auto simp: read_internal_def)
    moreover have "?m = 0" if "d"
    proof (cases "?fs = [] \<or> ?off < sf_start (hd ?fs)")
      case True
      then show ?thesis by (cases ?fs) (auto simp: rs_readable_def readable_def)
    next
      case hit: False
      have "x = 0" using False that by simp
      then show ?thesis using x hit by simp
    qed
    ultimately show ?thesis using inv refl by auto
  next
    case True
    then have ux: "unat x = unat ?off + ?m" using x by (auto split: if_splits)
    note rd = rs_readable_spec [OF inv, of n]
    obtain fl ok where dr: "ossl_sframe_list_drop_frames (rs_fl qrs) x = (fl, ok)" by fastforce
    have xs: "?off \<le> x" "x \<le> sf_top (rs_fl qrs)" "x \<noteq> 0" "{unat ?off..<unat x} \<subseteq> R"
      using ux rd(1,4) True by (auto simp: u64_nat)
    note c = consume_inv [OF inv xs dr]
    have "qrs' = qrs\<lparr>rs_fl := fl, rs_rbuf := ring_buf_cpop_range (rs_rbuf qrs) 0 (x - 1) (sl_cleanse fl)\<rparr>" "ro = ?ro"
      using r l True dr c(1) by (auto simp: read_internal_def)
    then show ?thesis using c ux True consume_frame [OF i(1)] dr by simp
  qed
  then show "ro = \<lparr>ro_ret = True, ro_buf = map S [rs_offset qrs..<rs_offset qrs + rs_readable qrs n],
      ro_fin = (sl_fin (rs_fl qrs) \<and> rs_offset qrs + rs_readable qrs n = unat (sf_top (rs_fl qrs)))\<rparr>"
    "rs_inv S F R qrs'" "rs_offset qrs' = rs_offset qrs + (if d then rs_readable qrs n else 0)" "\<not> d \<Longrightarrow> qrs' = qrs"
    "read_frame qrs qrs'"
    using fin by auto
qed

section \<open>The operations keep the invariant\<close>

text \<open>Frame data that belongs to the stream: the wire format and flow control leave only such calls.\<close>

definition queue_ok :: "(nat \<Rightarrow> u8) \<Rightarrow> nat \<Rightarrow> u64 \<Rightarrow> u8 list option \<Rightarrow> u64 \<Rightarrow> bool \<Rightarrow> bool" where
  "queue_ok S F offset data data_len fin \<longleftrightarrow> unat offset + unat data_len < 2 ^ 62 \<and> unat offset + unat data_len \<le> F \<and>
     (fin \<longrightarrow> unat offset + unat data_len = F) \<and>
     (case data of None \<Rightarrow> True | Some d \<Rightarrow> d = map S [unat offset..<unat offset + unat data_len])"

lemma queue_data_spec:
  assumes inv: "rs_inv S F R qrs" and ok: "queue_ok S F offset data data_len fin"
    and q: "ossl_quic_rstream_queue_data mem_ok qrs pkt offset data data_len fin = (qrs', res)"
  shows "res \<Longrightarrow> rs_inv S F (R \<union> {unat offset..<unat offset + unat data_len}) qrs'" "\<not> res \<Longrightarrow> qrs' = qrs"
    and "rs_offset qrs' = rs_offset qrs" "rs_head_range qrs' = rs_head_range qrs"
    and "sl_head_locked (rs_fl qrs') = sl_head_locked (rs_fl qrs)"
    and "mem_ok \<Longrightarrow> data \<noteq> None \<or> data_len = 0 \<Longrightarrow> data_len \<noteq> 0 \<or> fin \<Longrightarrow> res"
    and "rs_rxfc qrs' = rs_rxfc qrs" "sl_fin (rs_fl qrs') = (res \<and> fin \<or> sl_fin (rs_fl qrs))"
proof -
  let ?rg = "\<lparr>r_start = offset, r_end = offset + data_len\<rparr>"
  have e: "unat (offset + data_len) = unat offset + unat data_len"
    using ok by (intro unat_u64_add) (simp add: queue_ok_def)
  have rg: "r_start ?rg \<le> r_end ?rg" using e by (simp add: u64_nat)
  obtain fl ok' where ins: "ossl_sframe_list_insert mem_ok (rs_fl qrs) ?rg pkt data fin = (fl, ok')" by fastforce
  note ins' = insert_spec [OF rs_inv_frames(1) [OF inv] rg ins]
  let ?new = "\<lparr>sf_range = ?rg, sf_pkt = pkt, sf_data = data\<rparr>"
  let ?bad = "(data = None \<and> data_len \<noteq> 0) \<or> (data_len = 0 \<and> \<not> fin)"
  have eq: "(qrs', res) = (if ?bad then (qrs, False) else (qrs\<lparr>rs_fl := fl\<rparr>, ok'))"
    using q unfolding ossl_quic_rstream_queue_data_def ins split by (rule sym)
  have new: "frame_content (rb_holds (rs_rbuf qrs)) S (sl_offset (rs_fl qrs)) ?new" if "\<not> ?bad"
    using ok that e by (cases data) (auto simp: frame_content_def queue_ok_def frame_bytes_at_def)
  show "\<not> res \<Longrightarrow> qrs' = qrs" using eq ins'(2) by (auto split: if_splits)
  show "mem_ok \<Longrightarrow> data \<noteq> None \<or> data_len = 0 \<Longrightarrow> data_len \<noteq> 0 \<or> fin \<Longrightarrow> res" using eq ins'(1) by auto
  have same: "rs_offset qrs' = rs_offset qrs \<and> sl_head_locked (rs_fl qrs') = sl_head_locked (rs_fl qrs) \<and>
      rs_head_range qrs' = rs_head_range qrs \<and> rs_rxfc qrs' = rs_rxfc qrs \<and>
      sl_fin (rs_fl qrs') = (res \<and> fin \<or> sl_fin (rs_fl qrs))"
    using eq ins'(2,3) by (cases ok') (auto simp: inserted_def split: if_splits)
  then show "rs_offset qrs' = rs_offset qrs" "rs_head_range qrs' = rs_head_range qrs"
    "sl_head_locked (rs_fl qrs') = sl_head_locked (rs_fl qrs)" "rs_rxfc qrs' = rs_rxfc qrs"
    "sl_fin (rs_fl qrs') = (res \<and> fin \<or> sl_fin (rs_fl qrs))" by blast+
  assume res: "res"
  then have bad: "\<not> ?bad" and q': "qrs' = qrs\<lparr>rs_fl := fl\<rparr>" and "ok'" using eq by (auto split: if_splits)
  then have i: "inserted (rs_fl qrs) ?new fin fl" using ins'(3) by blast
  have nb: "frame_bytes_at ?new = {unat offset..<unat offset + unat data_len}" using e by (simp add: frame_bytes_at_def)
  have content: "\<forall>f\<in>set (sl_frames fl). frame_content (rb_holds (rs_rbuf qrs)) S (sl_offset (rs_fl qrs)) f"
    using i inv new [OF bad] by (auto simp: inserted_def rs_inv_def)
  have top: "sf_top fl = max (sf_top (rs_fl qrs)) (offset + data_len)" using i by (simp add: inserted_def)
  then have ut: "unat (sf_top fl) = max (unat (sf_top (rs_fl qrs))) (unat offset + unat data_len)"
    by (simp add: unat_u64_max e)
  have cov: "covered (sl_frames fl) \<union> {..<rs_offset qrs} = R \<union> {unat offset..<unat offset + unat data_len}"
    using i rs_inv_frames(7) [OF inv] nb by (auto simp: inserted_def)
  have "sf_top (rs_fl qrs) \<le> sf_top fl" by (simp add: top)
  then have lk: "record_ok R (sl_offset (rs_fl qrs)) (sf_top (rs_fl qrs)) hr \<Longrightarrow>
      record_ok (R \<union> {unat offset..<unat offset + unat data_len}) (sl_offset (rs_fl qrs)) (sf_top fl) hr" for hr
    unfolding record_ok_def by (meson order.trans sup.coboundedI1)
  have lk: "sl_head_locked (rs_fl qrs) \<longrightarrow>
      record_ok (R \<union> {unat offset..<unat offset + unat data_len}) (sl_offset (rs_fl qrs)) (sf_top fl) (rs_head_range qrs)"
    using inv lk by (simp add: rs_inv_def)
  have F: "unat (sf_top fl) < 2 ^ 62" "unat (sf_top fl) \<le> F" "sl_fin fl \<longrightarrow> unat (sf_top fl) = F"
    using inv ok i ut unfolding rs_inv_def queue_ok_def inserted_def by auto
  have s: "sf_inv fl" "rb_stores (sl_offset (rs_fl qrs)) (rs_rbuf qrs)" "sl_offset fl = sl_offset (rs_fl qrs)"
    "sl_head_locked fl = sl_head_locked (rs_fl qrs)"
    using i inv by (simp_all add: inserted_def rs_inv_def)
  show "rs_inv S F (R \<union> {unat offset..<unat offset + unat data_len}) qrs'"
    unfolding rs_inv_def q' using s content cov F lk by simp
qed

lemma unlock_inv:
  assumes inv: "rs_inv S F R qrs" and d: "ossl_sframe_list_drop_frames (rs_fl qrs) (sl_offset (rs_fl qrs)) = (fl, ok)"
  shows "ok" "rs_inv S F R (qrs\<lparr>rs_fl := fl\<rparr>)" "sl_offset fl = sl_offset (rs_fl qrs)"
proof -
  note i = rs_inv_frames [OF inv]
  note ds = drop_frames_spec [OF i(1) d]
  show ok: "ok" using ds(1) top_ge_offset [OF i(1)] by simp
  have dt: "dropped_to (rs_fl qrs) (sl_offset (rs_fl qrs)) fl" using ds(3) ok .
  then show "sl_offset fl = sl_offset (rs_fl qrs)" by (simp add: dropped_to_def)
  show "rs_inv S F R (qrs\<lparr>rs_fl := fl\<rparr>)"
    using inv dt unfolding rs_inv_def dropped_to_def by auto
qed

text \<open>Releasing a record consumes as much of it as the caller says.\<close>

lemma release_record_spec:
  assumes inv: "rs_inv S F R qrs" and r: "ossl_quic_rstream_release_record now statms h qrs read_len = (h', qrs', res)"
  shows "rs_inv S F R qrs'" "rs_offset qrs \<le> rs_offset qrs'"
    and "\<not> sl_head_locked (rs_fl qrs) \<Longrightarrow> qrs' = qrs \<and> \<not> res"
    and "rs_offset qrs' \<noteq> rs_offset qrs \<Longrightarrow> sl_head_locked (rs_fl qrs) \<and> rs_offset qrs' \<le> unat (r_end (rs_head_range qrs))"
    and "sl_head_locked (rs_fl qrs') \<Longrightarrow> qrs' = qrs" "sl_fin (rs_fl qrs') = sl_fin (rs_fl qrs)"
proof -
  let ?hr = "rs_head_range qrs"
  define beyond where "beyond = (read_len > r_end ?hr - r_start ?hr)"
  define x where "x = (if beyond then r_end ?hr else r_start ?hr + read_len)"
  note i = rs_inv_frames [OF inv]
  note r' = r [unfolded ossl_quic_rstream_release_record_def Let_def ossl_sframe_list_is_head_locked_def,
      folded beyond_def, folded x_def]
  have "rs_inv S F R qrs' \<and> rs_offset qrs \<le> rs_offset qrs' \<and> (\<not> sl_head_locked (rs_fl qrs) \<longrightarrow> qrs' = qrs \<and> \<not> res) \<and>
    (rs_offset qrs' \<noteq> rs_offset qrs \<longrightarrow> sl_head_locked (rs_fl qrs) \<and> rs_offset qrs' \<le> unat (r_end ?hr)) \<and>
    (sl_head_locked (rs_fl qrs') \<longrightarrow> qrs' = qrs) \<and> sl_fin (rs_fl qrs') = sl_fin (rs_fl qrs)"
  proof (cases "\<not> sl_head_locked (rs_fl qrs) \<or> beyond \<and> read_len \<noteq> SIZE_MAX")
    case True
    then have "qrs' = qrs \<and> \<not> res"
      using r' by (cases "sl_head_locked (rs_fl qrs)") (simp_all only: simp_thms if_True if_False prod.inject)
    then show ?thesis using inv by auto
  next
    case False
    then have lk: "sl_offset (rs_fl qrs) = r_start ?hr" "r_start ?hr \<le> r_end ?hr" "r_end ?hr \<le> sf_top (rs_fl qrs)"
      "{unat (r_start ?hr)..<unat (r_end ?hr)} \<subseteq> R"
      using inv by (auto simp: rs_inv_def record_ok_def)
    have le: "unat (r_start ?hr) \<le> unat (r_end ?hr)" using lk(2) by (simp add: u64_nat)
    have "unat (r_start ?hr) + unat read_len \<le> unat (r_end ?hr)" if "\<not> beyond"
      using that lk(2) by (simp add: beyond_def not_less unat_u64_sub u64_nat)
    then have "unat (r_start ?hr + read_len) = unat (r_start ?hr) + unat read_len" if "\<not> beyond"
      using that unat_u64_lt [of "r_end ?hr"] by (intro unat_u64_add) (meson le_less_trans)
    then have xs: "unat (r_start ?hr) \<le> unat x" "unat x \<le> unat (r_end ?hr)"
      using \<open>\<not> beyond \<Longrightarrow> unat (r_start ?hr) + unat read_len \<le> unat (r_end ?hr)\<close> le by (auto simp: x_def)
    then have xs': "sl_offset (rs_fl qrs) \<le> x" "x \<le> sf_top (rs_fl qrs)" "{rs_offset qrs..<unat x} \<subseteq> R"
      using lk by (auto simp: u64_nat)
    obtain fl ok where d: "ossl_sframe_list_drop_frames (rs_fl qrs) x = (fl, ok)" by fastforce
    let ?q = "qrs\<lparr>rs_fl := fl\<rparr>" and ?c = "ring_buf_cpop_range (rs_rbuf qrs) 0 (x - 1) (sl_cleanse fl)"
    have "ok \<and> sl_offset fl = x \<and> rs_inv S F R (if x > 0 then qrs\<lparr>rs_fl := fl, rs_rbuf := ?c\<rparr> else ?q)"
    proof (cases "x = 0")
      case True
      then have "x = sl_offset (rs_fl qrs)" using xs(1) lk(1) by (simp add: unat_eq_0)
      then show ?thesis using unlock_inv [OF inv] d True by simp
    next
      case False
      then show ?thesis using consume_inv [OF inv xs'(1,2) False xs'(3) d] by (simp add: word_neq_0_conv)
    qed
    then have c: "ok" "sl_offset fl = x" "rs_inv S F R (if x > 0 then qrs\<lparr>rs_fl := fl, rs_rbuf := ?c\<rparr> else ?q)" by auto
    have q': "qrs' = (if x > 0 then qrs\<lparr>rs_fl := fl, rs_rbuf := ?c\<rparr> else ?q)"
      using r' False c(1) d by (auto split: option.splits prod.splits)
    have "\<not> sl_head_locked fl" "sl_fin fl = sl_fin (rs_fl qrs)"
      using drop_frames_spec(3) [OF i(1) d c(1)] by (simp_all add: dropped_to_def)
    then show ?thesis using c q' xs lk(1) False by auto
  qed
  then show "rs_inv S F R qrs'" "rs_offset qrs \<le> rs_offset qrs'"
    "\<not> sl_head_locked (rs_fl qrs) \<Longrightarrow> qrs' = qrs \<and> \<not> res"
    "rs_offset qrs' \<noteq> rs_offset qrs \<Longrightarrow> sl_head_locked (rs_fl qrs) \<and> rs_offset qrs' \<le> unat (r_end (rs_head_range qrs))"
    "sl_head_locked (rs_fl qrs') \<Longrightarrow> qrs' = qrs" "sl_fin (rs_fl qrs') = sl_fin (rs_fl qrs)" by blast+
qed

text \<open>A record is a piece of the stream from the read offset on.\<close>

lemma get_record_bytes:
  assumes ok: "rb_ok (rs_rbuf qrs)" and c: "frame_content (rb_holds (rs_rbuf qrs)) S off f"
    and st: "sf_start f \<le> off" and l: "0 < sf_end f - off" "unat off + unat (sf_end f - off) = unat (sf_end f)"
    and u: "\<not> sl_head_locked (rs_fl qrs)"
    and po: "ossl_sframe_list_peek (rs_fl qrs) None = \<lparr>po_ok = True, po_iter = Some 0,
      po_range = \<lparr>r_start = off, r_end = sf_end f\<rparr>, po_data = map_option (drop (unat (off - sf_start f))) (sf_data f), po_fin = fin\<rparr>"
    and g: "ossl_quic_rstream_get_record qrs = (qrs', out)"
  shows "\<exists>e. off < e \<and> e \<le> sf_end f \<and>
    qrs' = qrs\<lparr>rs_fl := (rs_fl qrs)\<lparr>sl_head_locked := True\<rparr>, rs_head_range := \<lparr>r_start = off, r_end = e\<rparr>\<rparr> \<and>
    rec_ret out \<and> rec_bytes out = map S [unat off..<unat e]"
proof -
  let ?len = "sf_end f - off" and ?q = "qrs\<lparr>rs_fl := (rs_fl qrs)\<lparr>sl_head_locked := True\<rparr>, rs_head_range := \<lparr>r_start = off, r_end = sf_end f\<rparr>\<rparr>"
  have ne: "sf_end f \<noteq> off" using l(1) by auto
  have lt: "off < sf_end f" using l by (simp add: u64_nat)
  show ?thesis
  proof (cases "sf_data f")
    case (Some d)
    then have d: "d = map S [unat (sf_start f)..<unat (sf_end f)]" using c by (simp add: frame_content_def)
    have "take (unat ?len) (drop (unat (off - sf_start f)) d) = map S [unat off..<unat (sf_end f)]"
      using st l(2) by (simp add: d drop_map take_map drop_upt take_upt unat_u64_sub u64_nat)
    then show ?thesis
      using g u ne lt Some
      by (auto simp: ossl_quic_rstream_get_record_def ossl_sframe_list_lock_head_def po Let_def)
  next
    case None
    have h: "\<forall>i. unat off \<le> i \<longrightarrow> i < unat off + unat ?len \<longrightarrow> rb_holds (rs_rbuf qrs) i (S i)"
      using c None st l(2) by (auto simp: frame_content_def in_frame_bytes_at u64_nat)
    have n: "0 < unat ?len" using l(1) by (simp add: u64_nat)
    obtain d m where p: "ring_buf_get_ptr (rs_rbuf qrs) off = Some (d, m)" "0 < m"
      and tk: "\<And>k. k \<le> unat ?len \<Longrightarrow> k \<le> m \<Longrightarrow> take k d = map S [unat off..<unat off + k]"
      using get_ptr_at [OF ok h n refl] by metis
    show ?thesis
    proof (cases "m < unat ?len")
      case True
      then have m: "unat (off + of_nat m) = unat off + m"
        using l(2) by (intro unat_u64_add_of_nat_le(1) [of _ _ "sf_end f"]) simp
      then show ?thesis
        using g u ne None p True tk [of m] l(2)
        by (intro exI [of _ "off + of_nat m"])
          (auto simp: ossl_quic_rstream_get_record_def ossl_sframe_list_lock_head_def po Let_def u64_nat)
    next
      case False
      then show ?thesis
        using g u ne lt None p tk [of "unat ?len"] l(2)
        by (auto simp: ossl_quic_rstream_get_record_def ossl_sframe_list_lock_head_def po Let_def)
    qed
  qed
qed

lemma get_record_spec:
  assumes inv: "rs_inv S F R qrs" and g: "ossl_quic_rstream_get_record qrs = (qrs', out)"
  shows "rec_ret out" "rs_inv S F R qrs'" "rs_offset qrs' = rs_offset qrs"
    and "sl_head_locked (rs_fl qrs) \<Longrightarrow> qrs' = qrs \<and> rec_bytes out = []"
    and "\<not> sl_head_locked (rs_fl qrs) \<Longrightarrow> sl_head_locked (rs_fl qrs') \<Longrightarrow> rec_bytes out \<noteq> [] \<and>
      rec_bytes out = map S [rs_offset qrs..<unat (r_end (rs_head_range qrs'))]"
    and "\<not> sl_head_locked (rs_fl qrs') \<Longrightarrow> rec_bytes out = []" "sl_fin (rs_fl qrs') = sl_fin (rs_fl qrs)"
proof -
  note i = rs_inv_frames [OF inv]
  let ?fl = "rs_fl qrs" and ?off = "sl_offset (rs_fl qrs)"
  let ?ok = "rec_ret out \<and> rs_inv S F R qrs' \<and> rs_offset qrs' = rs_offset qrs \<and>
    (sl_head_locked ?fl \<longrightarrow> qrs' = qrs \<and> rec_bytes out = []) \<and>
    (\<not> sl_head_locked ?fl \<longrightarrow> sl_head_locked (rs_fl qrs') \<longrightarrow> rec_bytes out \<noteq> [] \<and>
      rec_bytes out = map S [rs_offset qrs..<unat (r_end (rs_head_range qrs'))]) \<and>
    (\<not> sl_head_locked (rs_fl qrs') \<longrightarrow> rec_bytes out = []) \<and> sl_fin (rs_fl qrs') = sl_fin (rs_fl qrs)"
  have pos: "peek_pos ?fl None = (?off, 0)" by (simp add: peek_pos_def)
  have ?ok
  proof (cases "sl_head_locked ?fl")
    case True
    then show ?thesis
      using g inv by (auto simp: ossl_quic_rstream_get_record_def ossl_sframe_list_lock_head_def)
  next
    case unlocked: False
    define po where "po = ossl_sframe_list_peek ?fl None"
    show ?thesis
    proof (cases "po_ok po")
      case False
      then have "qrs' = qrs\<lparr>rs_head_range := po_range po\<rparr>" "out = \<lparr>rec_ret = True, rec_bytes = [], rec_fin = Some (po_fin po)\<rparr>"
        using g unlocked by (auto simp: ossl_quic_rstream_get_record_def ossl_sframe_list_lock_head_def po_def Let_def)
      then show ?thesis using inv unlocked by (simp add: rs_inv_def)
    next
      case True
      then obtain f fs where ff: "sl_frames ?fl = f # fs" using peek_end(1) [OF pos] by (cases "sl_frames ?fl") (auto simp: po_def)
      have lt: "?off < sf_end f" using i(2) ff by simp
      have d0: "drop 0 (sl_frames ?fl) = f # fs" using ff by simp
      note pf = peek_frame [OF pos d0 lt]
      have st: "sf_start f \<le> ?off" using True pf(1) by (simp add: po_def)
      let ?d = "map_option (drop (unat (?off - sf_start f))) (sf_data f)" and ?len = "sf_end f - ?off"
      have po: "po = \<lparr>po_ok = True, po_iter = Some 0, po_range = \<lparr>r_start = ?off, r_end = sf_end f\<rparr>, po_data = ?d, po_fin = (fs = [] \<and> sl_fin ?fl)\<rparr>"
        using pf(3) [OF st] by (simp add: po_def)
      have l: "unat ?off + unat ?len = unat (sf_end f)" "0 < ?len" "?len \<noteq> 0"
        using lt by (auto simp: unat_u64_sub u64_nat)
      have h: "frame_content (rb_holds (rs_rbuf qrs)) S ?off f" using i(6) ff by simp
      obtain e where e: "?off < e" "e \<le> sf_end f"
        "qrs' = qrs\<lparr>rs_fl := ?fl\<lparr>sl_head_locked := True\<rparr>, rs_head_range := \<lparr>r_start = ?off, r_end = e\<rparr>\<rparr>"
        "rec_ret out" "rec_bytes out = map S [unat ?off..<unat e]"
        using get_record_bytes [OF i(3) h st l(2,1) unlocked po [unfolded po_def] g] by blast
      have "record_ok R ?off (sf_top ?fl) \<lparr>r_start = ?off, r_end = e\<rparr>"
      proof -
        have "{unat ?off..<unat e} \<subseteq> frame_bytes_at f" using st e(2) by (auto simp: in_frame_bytes_at u64_nat)
        then have "{unat ?off..<unat e} \<subseteq> R" unfolding i(7) ff by auto
        moreover have "sf_end f \<le> sf_top ?fl"
          using i(2) ff by (auto simp: sf_top_def sf_before_def intro: order.strict_implies_order)
        ultimately show ?thesis using e(1,2) by (auto simp: record_ok_def)
      qed
      then have "rs_inv S F R qrs'"
        using inv by (auto simp: rs_inv_def e(3) sf_inv_def sf_top_def)
      then show ?thesis using e unlocked by (auto simp: u64_nat)
    qed
  qed
  then show "rec_ret out" "rs_inv S F R qrs'" "rs_offset qrs' = rs_offset qrs"
    "sl_head_locked (rs_fl qrs) \<Longrightarrow> qrs' = qrs \<and> rec_bytes out = []"
    "\<not> sl_head_locked (rs_fl qrs) \<Longrightarrow> sl_head_locked (rs_fl qrs') \<Longrightarrow> rec_bytes out \<noteq> [] \<and>
      rec_bytes out = map S [rs_offset qrs..<unat (r_end (rs_head_range qrs'))]"
    "\<not> sl_head_locked (rs_fl qrs') \<Longrightarrow> rec_bytes out = []" "sl_fin (rs_fl qrs') = sl_fin (rs_fl qrs)" by blast+
qed

lemma move_to_rbuf_spec:
  assumes inv: "rs_inv S F R qrs" and m: "ossl_quic_rstream_move_to_rbuf qrs = (qrs', res)"
  shows "rs_inv S F R qrs'" "rs_offset qrs' = rs_offset qrs" "rs_head_range qrs' = rs_head_range qrs"
    "sl_head_locked (rs_fl qrs') = sl_head_locked (rs_fl qrs)" "sl_fin (rs_fl qrs') = sl_fin (rs_fl qrs)"
proof -
  note i = rs_inv_frames [OF inv]
  obtain fl rbuf ok where mv: "ossl_sframe_list_move_data write_at_ring_buf_cb (rs_fl qrs) (rs_rbuf qrs) = (fl, rbuf, ok)"
    by (rule prod_cases3)
  have st: "rb_stores (sl_offset (rs_fl qrs)) (rs_rbuf qrs)" using inv by (simp add: rs_inv_def)
  have bd: "\<forall>f\<in>set (sl_frames (rs_fl qrs)). unat (sf_end f) < 2 ^ 62"
  proof
    fix f
    assume f: "f \<in> set (sl_frames (rs_fl qrs))"
    then have "sf_end f \<le> sf_top (rs_fl qrs)"
      using sf_wf_last [OF i(2) f] by (auto simp: sf_top_def sf_before_def intro: order.strict_implies_order)
    then show "unat (sf_end f) < 2 ^ 62" using inv by (simp add: rs_inv_def u64_nat)
  qed
  note s = rb.move_data_spec [OF i(1,6) st bd mv]
  have "qrs' = qrs \<or> qrs' = qrs\<lparr>rs_fl := fl, rs_rbuf := rbuf\<rparr>"
    using m mv by (auto simp: ossl_quic_rstream_move_to_rbuf_def split: if_splits)
  moreover have "rs_inv S F R (qrs\<lparr>rs_fl := fl, rs_rbuf := rbuf\<rparr>)"
    using inv s unfolding rs_inv_def by simp
  ultimately show "rs_inv S F R qrs'" "rs_offset qrs' = rs_offset qrs" "rs_head_range qrs' = rs_head_range qrs"
    "sl_head_locked (rs_fl qrs') = sl_head_locked (rs_fl qrs)" "sl_fin (rs_fl qrs') = sl_fin (rs_fl qrs)"
    using inv s(6-8) by auto
qed

lemma resize_rbuf_spec:
  assumes inv: "rs_inv S F R qrs" and b: "\<And>m. block = Some m \<Longrightarrow> length m = unat n" "unat n \<le> 2 ^ 62"
    and m: "ossl_quic_rstream_resize_rbuf block qrs n = (qrs', res)"
  shows "rs_inv S F R qrs'" "rs_fl qrs' = rs_fl qrs" "rs_head_range qrs' = rs_head_range qrs"
proof -
  note i = rs_inv_frames [OF inv]
  obtain rbuf ok where rz: "ring_buf_resize block (rs_rbuf qrs) n = (rbuf, ok)" by fastforce
  note s = resize_correct [OF i(3,5) b rz]
  have q: "qrs' = qrs \<or> qrs' = qrs\<lparr>rs_rbuf := rbuf\<rparr>"
    using m rz by (auto simp: ossl_quic_rstream_resize_rbuf_def split: if_splits)
  then show "rs_fl qrs' = rs_fl qrs" "rs_head_range qrs' = rs_head_range qrs" by auto
  have holds: "rb_holds (rs_rbuf qrs) j c \<Longrightarrow> rb_holds rbuf j c" for j c
    using s(2,3,6) by (simp add: rb_holds_def)
  have "\<forall>f\<in>set (sl_frames (rs_fl qrs)). frame_content (rb_holds rbuf) S (sl_offset (rs_fl qrs)) f"
    using i(6) holds by (auto intro: frame_content_mono)
  moreover have "rb_stores (sl_offset (rs_fl qrs)) rbuf" using s(1-3) i(4,5) by (simp add: rb_stores_def)
  ultimately have "rs_inv S F R (qrs\<lparr>rs_rbuf := rbuf\<rparr>)" using inv unfolding rs_inv_def by simp
  with q inv show "rs_inv S F R qrs'" by auto
qed

lemma set_cleanse_inv: "rs_inv S F R qrs \<Longrightarrow> rs_inv S F R (ossl_quic_rstream_set_cleanse qrs c)"
  by (auto simp: rs_inv_def ossl_quic_rstream_set_cleanse_def sf_inv_def sf_top_def)

lemma new_inv:
  assumes "\<And>m. block = Some m \<Longrightarrow> length m = unat n" "unat n \<le> 2 ^ 62"
    and "ossl_quic_rstream_new mem_ok block rxfc statm n = Some qrs"
  shows "rs_inv S F {} qrs" "rs_offset qrs = 0" "rs_rxfc qrs = rxfc" "\<not> sl_head_locked (rs_fl qrs)" "\<not> sl_fin (rs_fl qrs)"
proof -
  obtain rbuf where rz: "ring_buf_resize block ring_buf_init n = (rbuf, True)"
    and q: "qrs = \<lparr>rs_fl = ossl_sframe_list_init, rs_rxfc = rxfc, rs_statm = statm,
                 rs_head_range = \<lparr>r_start = 0, r_end = 0\<rparr>, rs_rbuf = rbuf\<rparr>"
    using assms(3) by (auto simp: ossl_quic_rstream_new_def split: if_splits prod.splits)
  have i: "rb_ok ring_buf_init" "head_offset ring_buf_init \<le> MAX_OFFSET" by (simp_all add: rb_ok_def ring_buf_init_def)
  note s = resize_correct [OF i assms(1,2) rz]
  show "rs_inv S F {} qrs" "rs_offset qrs = 0" "rs_rxfc qrs = rxfc" "\<not> sl_head_locked (rs_fl qrs)" "\<not> sl_fin (rs_fl qrs)"
    using s(1-3) by (auto simp: rs_inv_def q ossl_sframe_list_init_def sf_inv_def sf_top_def rb_stores_def ring_buf_init_def fun_eq_iff)
qed

lemma available_spec:
  assumes "rs_inv S F R qrs" "ossl_quic_rstream_available qrs = (n, fin)"
  shows "{rs_offset qrs..<rs_offset qrs + unat n} \<subseteq> R" "rs_offset qrs + unat n \<notin> R"
    "fin \<longleftrightarrow> sl_fin (rs_fl qrs) \<and> rs_offset qrs + unat n = unat (sf_top (rs_fl qrs))"
proof -
  note i = rs_inv_frames [OF assms(1)]
  let ?c = "contig (sl_offset (rs_fl qrs)) (sl_frames (rs_fl qrs))"
  have pos: "peek_pos (rs_fl qrs) None = (sl_offset (rs_fl qrs), 0)" by (simp add: peek_pos_def)
  have e: "n = ?c - sl_offset (rs_fl qrs)" "fin \<longleftrightarrow> sl_fin (rs_fl qrs) \<and> ?c = sf_top (rs_fl qrs)"
    using assms(2) avail_loop_spec [OF i(2) pos, of 0] by (auto simp: ossl_quic_rstream_available_def frames_top_eq)
  note c = contig_covered [OF i(2)]
  have u: "rs_offset qrs + unat n = unat ?c" using e(1) c(1) by (simp add: unat_u64_sub u64_nat)
  show "{rs_offset qrs..<rs_offset qrs + unat n} \<subseteq> R" unfolding u i(7) using c(2) by blast
  show "rs_offset qrs + unat n \<notin> R" unfolding u i(7) using c(1,3) by (simp add: u64_nat)
  show "fin \<longleftrightarrow> sl_fin (rs_fl qrs) \<and> rs_offset qrs + unat n = unat (sf_top (rs_fl qrs))"
    unfolding u using e(2) by (auto intro: u64_unat_inj)
qed

section \<open>Runs\<close>

text \<open>
  A run of calls on one stream. \<open>last_rec\<close> is the record the application got last and \<open>delivered\<close> all it has
  taken out of the stream: the bytes that reads have copied, and of a record as much as its release moves
  the read offset. \<open>accepted\<close> collects the offsets of the data that was queued successfully,
  \<open>fin_accepted\<close> whether the end of the stream was among it.
\<close>

datatype rstream_op =
    Rs_Queue bool "nat option" u64 "u8 list option" u64 bool
  | Rs_Read u64 OSSL_TIME
  | Rs_Peek u64
  | Rs_Get_Record
  | Rs_Release u64 OSSL_TIME
  | Rs_Move
  | Rs_Resize "u8 list option" u64
  | Rs_Cleanse bool

record rstream_run =
  rr_fc :: rxfc_store
  rr_qrs :: QUIC_RSTREAM
  last_rec :: "u8 list"
  delivered :: "u8 list"
  accepted :: "nat set"
  fin_accepted :: bool

fun rstream_step :: "statm_store \<Rightarrow> rstream_op \<Rightarrow> rstream_run \<Rightarrow> rstream_run" where
  "rstream_step statms (Rs_Queue mem_ok pkt offset data data_len fin) s =
     (case ossl_quic_rstream_queue_data mem_ok (rr_qrs s) pkt offset data data_len fin of
        (qrs, ok) \<Rightarrow> s\<lparr>rr_qrs := qrs,
          accepted := (if ok then accepted s \<union> {unat offset..<unat offset + unat data_len} else accepted s),
          fin_accepted := (ok \<and> fin \<or> fin_accepted s)\<rparr>)"
| "rstream_step statms (Rs_Read n now) s =
     (case ossl_quic_rstream_read now statms (rr_fc s) (rr_qrs s) n of
        (h, qrs, ro) \<Rightarrow> s\<lparr>rr_fc := h, rr_qrs := qrs, delivered := delivered s @ ro_buf ro\<rparr>)"
| "rstream_step statms (Rs_Peek n) s = s\<lparr>rr_qrs := fst (ossl_quic_rstream_peek (rr_qrs s) n)\<rparr>"
| "rstream_step statms Rs_Get_Record s =
     (case ossl_quic_rstream_get_record (rr_qrs s) of
        (qrs, out) \<Rightarrow> s\<lparr>rr_qrs := qrs, last_rec := (if rec_bytes out = [] then last_rec s else rec_bytes out)\<rparr>)"
| "rstream_step statms (Rs_Release n now) s =
     (case ossl_quic_rstream_release_record now statms (rr_fc s) (rr_qrs s) n of
        (h, qrs, ok) \<Rightarrow> s\<lparr>rr_fc := h, rr_qrs := qrs,
          delivered := delivered s @ take (rs_offset qrs - rs_offset (rr_qrs s)) (last_rec s)\<rparr>)"
| "rstream_step statms Rs_Move s = s\<lparr>rr_qrs := fst (ossl_quic_rstream_move_to_rbuf (rr_qrs s))\<rparr>"
| "rstream_step statms (Rs_Resize block n) s = s\<lparr>rr_qrs := fst (ossl_quic_rstream_resize_rbuf block (rr_qrs s) n)\<rparr>"
| "rstream_step statms (Rs_Cleanse c) s = s\<lparr>rr_qrs := ossl_quic_rstream_set_cleanse (rr_qrs s) c\<rparr>"

definition rstream_exec :: "statm_store \<Rightarrow> rstream_op list \<Rightarrow> rstream_run \<Rightarrow> rstream_run" where
  "rstream_exec statms ops s = fold (rstream_step statms) ops s"

definition rstream_begin :: "rxfc_store \<Rightarrow> QUIC_RSTREAM \<Rightarrow> rstream_run" where
  "rstream_begin h qrs = \<lparr>rr_fc = h, rr_qrs = qrs, last_rec = [], delivered = [], accepted = {},
     fin_accepted = False\<rparr>"

text \<open>
  The calls that the peer and the allocator can cause: frames of the stream \<open>S\<close> with final size \<open>F\<close>, and blocks
  of the size asked for.
\<close>

fun rstream_op_ok :: "(nat \<Rightarrow> u8) \<Rightarrow> nat \<Rightarrow> rstream_op \<Rightarrow> bool" where
  "rstream_op_ok S F (Rs_Queue mem_ok pkt offset data data_len fin) = queue_ok S F offset data data_len fin"
| "rstream_op_ok S F (Rs_Resize block n) =
     ((case block of None \<Rightarrow> True | Some m \<Rightarrow> length m = unat n) \<and> unat n \<le> 2 ^ 62)"
| "rstream_op_ok S F _ = True"

definition run_inv :: "(nat \<Rightarrow> u8) \<Rightarrow> nat \<Rightarrow> rstream_run \<Rightarrow> bool" where
  "run_inv S F s \<longleftrightarrow> rs_inv S F (accepted s) (rr_qrs s) \<and> delivered s = map S [0..<rs_offset (rr_qrs s)] \<and>
     fin_accepted s = sl_fin (rs_fl (rr_qrs s)) \<and>
     (sl_head_locked (rs_fl (rr_qrs s)) \<longrightarrow>
        last_rec s = map S [rs_offset (rr_qrs s)..<unat (r_end (rs_head_range (rr_qrs s)))])"

lemma rstream_step_inv:
  assumes inv: "run_inv S F s" and ok: "rstream_op_ok S F op"
  shows "run_inv S F (rstream_step statms op s)"
proof -
  have rs: "rs_inv S F (accepted s) (rr_qrs s)" and dl: "delivered s = map S [0..<rs_offset (rr_qrs s)]"
    and fn: "fin_accepted s = sl_fin (rs_fl (rr_qrs s))" and lr: "sl_head_locked (rs_fl (rr_qrs s)) \<Longrightarrow>
      last_rec s = map S [rs_offset (rr_qrs s)..<unat (r_end (rs_head_range (rr_qrs s)))]"
    using inv by (auto simp: run_inv_def)
  have append: "map S [0..<a] @ map S [a..<b] = map S [0..<b]" if "a \<le> b" for a b
    using that upt_add_eq_append [of 0 a "b - a"] by simp
  show ?thesis
  proof (cases op)
    case (Rs_Queue mem_ok pkt offset data data_len fin)
    obtain qrs' res where q: "ossl_quic_rstream_queue_data mem_ok (rr_qrs s) pkt offset data data_len fin = (qrs', res)" by fastforce
    have "queue_ok S F offset data data_len fin" using ok Rs_Queue by simp
    note qs = queue_data_spec [OF rs this q]
    show ?thesis using Rs_Queue q qs rs dl lr fn by (cases res) (auto simp: run_inv_def)
  next
    case (Rs_Read n now)
    obtain q1 ro where r: "read_internal (rr_qrs s) n True = (q1, ro)" by fastforce
    note sp = read_internal_spec [OF rs r]
    obtain h qrs ro' where rd: "ossl_quic_rstream_read now statms (rr_fc s) (rr_qrs s) n = (h, qrs, ro')" by (rule prod_cases3)
    then have q: "qrs = q1" "ro_buf ro' = ro_buf ro"
      using r sp(1) by (auto simp: ossl_quic_rstream_read_def Let_def split: option.splits prod.splits)
    have "q1 = rr_qrs s" if "sl_head_locked (rs_fl q1)"
      using sp(5) that unfolding read_frame_def by blast
    then have "sl_head_locked (rs_fl q1) \<Longrightarrow> last_rec s = map S [rs_offset q1..<unat (r_end (rs_head_range q1))]"
      using lr by simp
    moreover have "delivered s @ ro_buf ro = map S [0..<rs_offset q1]"
      using dl sp(1,3) append [of "rs_offset (rr_qrs s)" "rs_offset q1"] by simp
    ultimately show ?thesis
      using Rs_Read rd q sp(2,5) fn by (simp add: run_inv_def read_frame_def)
  next
    case (Rs_Peek n)
    obtain q1 ro where r: "read_internal (rr_qrs s) n False = (q1, ro)" by fastforce
    show ?thesis using Rs_Peek r read_internal_spec(4) [OF rs r] inv by (simp add: ossl_quic_rstream_peek_def run_inv_def)
  next
    case Rs_Get_Record
    obtain qrs' out where g: "ossl_quic_rstream_get_record (rr_qrs s) = (qrs', out)" by fastforce
    note gs = get_record_spec [OF rs g]
    show ?thesis using Rs_Get_Record g gs dl lr fn by (cases "sl_head_locked (rs_fl (rr_qrs s))") (auto simp: run_inv_def)
  next
    case (Rs_Release n now)
    obtain h qrs' res where r: "ossl_quic_rstream_release_record now statms (rr_fc s) (rr_qrs s) n = (h, qrs', res)"
      by (rule prod_cases3)
    note sp = release_record_spec [OF rs r]
    have "take (rs_offset qrs' - rs_offset (rr_qrs s)) (last_rec s) = map S [rs_offset (rr_qrs s)..<rs_offset qrs']"
      if "rs_offset qrs' \<noteq> rs_offset (rr_qrs s)"
      using sp(2) sp(4) [OF that] lr by (simp add: take_map take_upt)
    then have "delivered s @ take (rs_offset qrs' - rs_offset (rr_qrs s)) (last_rec s) = map S [0..<rs_offset qrs']"
      using dl append [OF sp(2)] by (cases "rs_offset qrs' = rs_offset (rr_qrs s)") auto
    then show ?thesis using Rs_Release r sp(1,5,6) lr fn by (auto simp: run_inv_def)
  next
    case Rs_Move
    obtain qrs' res where m: "ossl_quic_rstream_move_to_rbuf (rr_qrs s) = (qrs', res)" by fastforce
    show ?thesis using Rs_Move m move_to_rbuf_spec [OF rs m] dl lr fn by (simp add: run_inv_def)
  next
    case (Rs_Resize block n)
    obtain qrs' res where m: "ossl_quic_rstream_resize_rbuf block (rr_qrs s) n = (qrs', res)" by fastforce
    have b: "\<And>m. block = Some m \<Longrightarrow> length m = unat n" "unat n \<le> 2 ^ 62" using ok Rs_Resize by (auto split: option.splits)
    show ?thesis using Rs_Resize m resize_rbuf_spec [OF rs b m] dl lr fn by (simp add: run_inv_def)
  next
    case (Rs_Cleanse c)
    then show ?thesis
      using set_cleanse_inv [OF rs] dl lr fn by (simp add: run_inv_def ossl_quic_rstream_set_cleanse_def)
  qed
qed

lemma rstream_exec_inv:
  "run_inv S F s \<Longrightarrow> list_all (rstream_op_ok S F) ops \<Longrightarrow> run_inv S F (rstream_exec statms ops s)"
  unfolding rstream_exec_def by (induction ops arbitrary: s) (auto simp: rstream_step_inv)

text \<open>No call changes which flow controller a stream points to.\<close>

lemma read_internal_rxfc: "rs_rxfc (fst (read_internal qrs n d)) = rs_rxfc qrs"
  by (auto simp: read_internal_def split: option.splits prod.splits)

lemma rstream_op_rxfc:
  "rs_rxfc (fst (ossl_quic_rstream_queue_data mem_ok qrs pkt offset data data_len fin)) = rs_rxfc qrs"
  "rs_rxfc (fst (snd (ossl_quic_rstream_read now statms h qrs n))) = rs_rxfc qrs"
  "rs_rxfc (fst (ossl_quic_rstream_get_record qrs)) = rs_rxfc qrs"
  "rs_rxfc (fst (snd (ossl_quic_rstream_release_record now statms h qrs n))) = rs_rxfc qrs"
  "rs_rxfc (fst (ossl_quic_rstream_move_to_rbuf qrs)) = rs_rxfc qrs"
  "rs_rxfc (fst (ossl_quic_rstream_resize_rbuf block qrs n)) = rs_rxfc qrs"
  subgoal by (simp add: ossl_quic_rstream_queue_data_def split: prod.split)
  subgoal using read_internal_rxfc [of qrs n True]
    by (auto simp: ossl_quic_rstream_read_def Let_def split: prod.splits option.splits)
  subgoal by (auto simp: ossl_quic_rstream_get_record_def Let_def split: prod.splits option.splits)
  subgoal by (auto simp: ossl_quic_rstream_release_record_def Let_def split: prod.splits option.splits)
  subgoal by (simp add: ossl_quic_rstream_move_to_rbuf_def split: prod.split)
  subgoal by (simp add: ossl_quic_rstream_resize_rbuf_def split: prod.split)
  done

lemma rstream_step_rxfc: "rs_rxfc (rr_qrs (rstream_step statms op s)) = rs_rxfc (rr_qrs s)"
  by (cases op) (simp_all add: split_def rstream_op_rxfc read_internal_rxfc ossl_quic_rstream_peek_def
      ossl_quic_rstream_set_cleanse_def)

lemma rstream_exec_rxfc: "rs_rxfc (rr_qrs (rstream_exec statms ops s)) = rs_rxfc (rr_qrs s)"
  unfolding rstream_exec_def by (induction ops arbitrary: s) (auto simp: rstream_step_rxfc)

text \<open>A new stream and a run on it.\<close>

definition rstream_run_ok :: "(nat \<Rightarrow> u8) \<Rightarrow> nat \<Rightarrow> u8 list option \<Rightarrow> u64 \<Rightarrow> rstream_op list \<Rightarrow> bool" where
  "rstream_run_ok S F block n ops \<longleftrightarrow>
     (case block of None \<Rightarrow> True | Some m \<Rightarrow> length m = unat n) \<and> unat n \<le> 2 ^ 62 \<and> list_all (rstream_op_ok S F) ops"

lemma rstream_run_inv:
  assumes "rstream_run_ok S F block n ops" "ossl_quic_rstream_new mem_ok block rxfc statm n = Some qrs"
  shows "run_inv S F (rstream_exec statms ops (rstream_begin h qrs))"
proof (rule rstream_exec_inv)
  have b: "\<And>m. block = Some m \<Longrightarrow> length m = unat n" "unat n \<le> 2 ^ 62"
    using assms(1) by (auto simp: rstream_run_ok_def split: option.splits)
  show "run_inv S F (rstream_begin h qrs)"
    using new_inv [OF b assms(2)] by (simp add: run_inv_def rstream_begin_def)
qed (use assms(1) in \<open>simp add: rstream_run_ok_def\<close>)

section \<open>Properties\<close>

text \<open>
  C10: Whatever the peer sends, in which order, with which overlaps and repetitions, and however reads, peeks,
  records, moves to the ring buffer, resizes and failing allocations interleave: what the application takes
  out of a receive stream is an initial piece of the stream that was sent, in order and without repetition,
  and all of it was received.
\<close>
theorem rstream_delivers_stream:
  assumes "rstream_run_ok S F block n ops" "ossl_quic_rstream_new mem_ok block rxfc statm n = Some qrs"
    and s_def: "s = rstream_exec statms ops (rstream_begin h qrs)"
  shows "delivered s = map S [0..<length (delivered s)] \<and> {..<length (delivered s)} \<subseteq> accepted s"
proof -
  have i: "run_inv S F s" unfolding s_def by (rule rstream_run_inv [OF assms(1,2)])
  then have d: "delivered s = map S [0..<rs_offset (rr_qrs s)]" by (simp add: run_inv_def)
  have "accepted s = covered (sl_frames (rs_fl (rr_qrs s))) \<union> {..<rs_offset (rr_qrs s)}"
    using i rs_inv_frames(7) [of S F "accepted s" "rr_qrs s"] by (simp add: run_inv_def)
  then show ?thesis unfolding d by simp
qed

definition demo_stream :: "nat \<Rightarrow> u8" where
  "demo_stream i = of_nat i + 65"

definition demo_ops :: "rstream_op list" where
  "demo_ops = [Rs_Queue True (Some 7) 2 (Some [67, 68, 69]) 3 True, Rs_Read 9 0,
     Rs_Queue True (Some 8) 0 (Some [65, 66, 67]) 3 False, Rs_Get_Record, Rs_Release 2 0, Rs_Read 2 0]"

lemma demo_run_ok: "rstream_run_ok demo_stream 5 (Some [0, 0, 0, 0]) 4 demo_ops"
  by (simp add: rstream_run_ok_def demo_ops_def queue_ok_def demo_stream_def upt_rec)

definition demo_new :: QUIC_RSTREAM where
  "demo_new = \<lparr>rs_fl = ossl_sframe_list_init, rs_rxfc = None, rs_statm = None, rs_head_range = \<lparr>r_start = 0, r_end = 0\<rparr>,
     rs_rbuf = \<lparr>rb_start = [0, 0, 0, 0], rb_alloc = 4, head_offset = 0, ctail_offset = 0\<rparr>\<rparr>"

lemma demo_new: "ossl_quic_rstream_new True (Some [0, 0, 0, 0]) None None 4 = Some demo_new"
  by (simp add: ossl_quic_rstream_new_def demo_new_def ring_buf_resize_def ring_buf_init_def ring_buf_used_def
      resize_copy.simps ring_buf_get_buf_at_def)

definition demo_run :: rstream_run where
  "demo_run = rstream_exec (\<lambda>_. ossl_statm_init) demo_ops (rstream_begin (\<lambda>_. rxfc_fresh None 0 0) demo_new)"

lemma demo_delivered: "delivered demo_run = [65, 66, 67, 68]"
  by code_simp

theorem rstream_delivers_stream_witness:
  "rstream_run_ok demo_stream 5 (Some [0, 0, 0, 0]) 4 demo_ops \<and>
   ossl_quic_rstream_new True (Some [0, 0, 0, 0]) None None 4 = Some demo_new \<and>
   delivered demo_run = [65, 66, 67, 68] \<and> delivered demo_run = map demo_stream [0..<length (delivered demo_run)] \<and>
   {..<length (delivered demo_run)} \<subseteq> accepted demo_run"
  using rstream_delivers_stream [OF demo_run_ok demo_new demo_run_def] demo_run_ok demo_new
    demo_delivered by blast

text \<open>
  C12: After any such run a read succeeds and copies exactly as much as fits of what has been received without
  a gap after the bytes already delivered: no received byte is lost or withheld. It reports the end of the
  stream exactly if the end has been received and it has delivered the last byte.
\<close>
theorem rstream_read_complete:
  assumes "rstream_run_ok S F block n ops" "ossl_quic_rstream_new mem_ok block None statm n = Some qrs"
    and s_def: "s = rstream_exec statms ops (rstream_begin h qrs)"
    and rd: "ossl_quic_rstream_read now statms (rr_fc s) (rr_qrs s) size' = (h', qrs', ro)"
    and d_def: "d = length (delivered s)" and k_def: "k = length (ro_buf ro)"
  shows "ro_ret ro \<and> ro_buf ro = map S [d..<d + k] \<and> k \<le> unat size' \<and> {..<d + k} \<subseteq> accepted s \<and>
    (k < unat size' \<longrightarrow> d + k \<notin> accepted s) \<and> (ro_fin ro \<longleftrightarrow> fin_accepted s \<and> d + k = F)"
proof -
  have i: "run_inv S F s" unfolding s_def by (rule rstream_run_inv [OF assms(1,2)])
  then have rs: "rs_inv S F (accepted s) (rr_qrs s)" and d: "d = rs_offset (rr_qrs s)"
    and fin: "fin_accepted s = sl_fin (rs_fl (rr_qrs s))"
    by (simp_all add: run_inv_def d_def)
  have fc: "rs_rxfc (rr_qrs s) = None"
    using assms(2) by (auto simp: s_def rstream_exec_rxfc rstream_begin_def ossl_quic_rstream_new_def split: if_splits prod.splits)
  obtain q1 ro1 where r: "read_internal (rr_qrs s) size' True = (q1, ro1)" by fastforce
  note sp = read_internal_spec [OF rs r] and rr = rs_readable_spec [OF rs, of size']
  have "rs_rxfc q1 = None" using sp(5) fc by (simp add: read_frame_def)
  with rd r sp(1) have ro: "ro = ro1" by (simp add: ossl_quic_rstream_read_def)
  have k: "k = rs_readable (rr_qrs s) size'" using sp(1) ro by (simp add: k_def)
  have "{..<d + k} = {..<d} \<union> {d..<d + k}" by auto
  then have "{..<d + k} \<subseteq> accepted s" using rr(1) rs_inv_frames(7) [OF rs] d k by blast
  moreover have "sl_fin (rs_fl (rr_qrs s)) \<Longrightarrow> unat (sf_top (rs_fl (rr_qrs s))) = F" using rs by (simp add: rs_inv_def)
  ultimately show ?thesis using sp(1) ro d k rr(2,3) fin by auto
qed

definition demo_read :: "rxfc_store \<times> QUIC_RSTREAM \<times> read_out" where
  "demo_read = ossl_quic_rstream_read 0 (\<lambda>_. ossl_statm_init) (rr_fc demo_run) (rr_qrs demo_run) 3"

lemma demo_read_out: "snd (snd demo_read) = \<lparr>ro_ret = True, ro_buf = [69], ro_fin = True\<rparr>"
  by code_simp

lemma demo_read: "ossl_quic_rstream_read 0 (\<lambda>_. ossl_statm_init) (rr_fc demo_run) (rr_qrs demo_run) 3 =
    (fst demo_read, fst (snd demo_read), snd (snd demo_read))"
  by (simp add: demo_read_def)

theorem rstream_read_complete_witness:
  "ro_buf (snd (snd demo_read)) = map demo_stream [4..<5] \<and> ro_fin (snd (snd demo_read)) \<and> {..<5} \<subseteq> accepted demo_run \<and>
   5 \<notin> accepted demo_run \<and> fin_accepted demo_run"
  using rstream_read_complete [OF demo_run_ok demo_new demo_run_def demo_read, of 4 1]
  by (simp add: demo_read_out demo_delivered)

text \<open>
  C14: The references to received packets are balanced. After any run the calls have acquired every packet
  exactly as often more than they have released it as frames of the list refer to it, and freeing the stream
  releases what is left: no packet buffer leaks and none is released too often.
\<close>
theorem rstream_packet_references_balanced:
  assumes "rstream_run_ok S F block n ops" "ossl_quic_rstream_new mem_ok block rxfc statm n = Some qrs"
    and s_def: "s = rstream_exec statms ops (rstream_begin h qrs)"
  shows "pkt_balance (sl_calls (rs_fl (rr_qrs s))) p = pkts_held (sl_frames (rs_fl (rr_qrs s))) p \<and>
    pkt_balance (sl_calls (rs_fl (ossl_quic_rstream_free (rr_qrs s)))) p = 0"
proof -
  have "run_inv S F s" unfolding s_def by (rule rstream_run_inv [OF assms(1,2)])
  then have "sf_inv (rs_fl (rr_qrs s))" by (simp add: run_inv_def rs_inv_def)
  then show ?thesis
    using destroy_balance [of "rs_fl (rr_qrs s)" p] by (simp add: sf_inv_def ossl_quic_rstream_free_def)
qed

lemma demo_references:
  "pkts_held (sl_frames (rs_fl (rr_qrs demo_run))) 7 = 1" "pkts_held (sl_frames (rs_fl (rr_qrs demo_run))) 8 = 0"
  by code_simp+

theorem rstream_packet_references_balanced_witness:
  "pkt_balance (sl_calls (rs_fl (rr_qrs demo_run))) 7 = 1 \<and>
   pkt_balance (sl_calls (rs_fl (ossl_quic_rstream_free (rr_qrs demo_run)))) 7 = 0"
  using rstream_packet_references_balanced [OF demo_run_ok demo_new demo_run_def, of 7] by (simp add: demo_references)



end
