(* ===== verification/Quic_Sstream.thy ===== *)
theory Quic_Sstream
  imports Ring_Buf Uint_Set
begin

text \<open>
  The send stream, \<open>ssl/quic/quic_sstream.c\<close>: it keeps the bytes the application writes until they are
  acknowledged and knows which of them are new, in flight or acknowledged. The \<open>OSSL_QTX_IOVEC\<close> entries that
  \<open>ossl_quic_sstream_get_stream_frame\<close> fills are the lists of the bytes they point to. The allocators behind
  the range sets and the buffer are arguments, as in \<open>Uint_Set\<close> and \<open>Ring_Buf\<close>.
\<close>

section \<open>Model\<close>

record QUIC_SSTREAM =
  ss_ring :: ring_buf
  new_set :: UINT_SET
  acked_set :: UINT_SET
  have_final_size :: bool
  sent_final_size :: bool
  acked_final_size :: bool
  ss_cleanse :: bool

definition ossl_quic_sstream_new :: "bool \<Rightarrow> u8 list option \<Rightarrow> u64 \<Rightarrow> QUIC_SSTREAM option" where
  "ossl_quic_sstream_new mem_ok block init_buf_size =
     (if \<not> mem_ok then None
      else case ring_buf_resize block ring_buf_init init_buf_size of
        (ring, ok) \<Rightarrow> if \<not> ok then None
          else Some \<lparr>ss_ring = ring, new_set = ossl_uint_set_init, acked_set = ossl_uint_set_init,
                 have_final_size = False, sent_final_size = False, acked_final_size = False, ss_cleanse = False\<rparr>)"

text \<open>What is left of the parts of the object when its memory is freed.\<close>

definition ossl_quic_sstream_free :: "QUIC_SSTREAM \<Rightarrow> QUIC_SSTREAM" where
  "ossl_quic_sstream_free qss =
     qss\<lparr>new_set := ossl_uint_set_destroy (new_set qss), acked_set := ossl_uint_set_destroy (acked_set qss),
         ss_ring := ring_buf_destroy (ss_ring qss)\<rparr>"

record stream_hdr =
  sh_offset :: u64
  sh_len :: u64
  sh_is_fin :: bool

text \<open>
  The loop that fills the entries: \<open>total_len\<close> and the entries, \<open>None\<close> if the buffer does not hold an offset.
  It has room for \<open>n\<close> further entries; where the code asserts that there is one, the loop gives \<open>None\<close> if
  there is not.
\<close>

fun iov_loop :: "nat \<Rightarrow> ring_buf \<Rightarrow> u64 \<Rightarrow> u64 \<Rightarrow> u64 \<Rightarrow> u8 list list \<Rightarrow> (u64 \<times> u8 list list) option" where
  "iov_loop n r start max_len total_len iov =
     (if total_len \<ge> max_len then Some (total_len, iov)
      else case ring_buf_get_buf_at r (start + total_len) of
        None \<Rightarrow> None
      | Some src \<Rightarrow>
          if src = [] then Some (total_len, iov)
          else case n of
            0 \<Rightarrow> None
          | Suc n' \<Rightarrow>
              let src_len = of_nat (length src);
                  src_len = (if total_len + src_len > max_len then max_len - total_len else src_len)
              in iov_loop n' r start max_len (total_len + src_len) (iov @ [take (unat src_len) src]))"

definition ossl_quic_sstream_get_stream_frame ::
  "QUIC_SSTREAM \<Rightarrow> nat \<Rightarrow> nat \<Rightarrow> (stream_hdr \<times> u8 list list) option" where
  "ossl_quic_sstream_get_stream_frame qss skip num_iov =
     (if num_iov < 2 then None
      else if skip \<ge> length (new_set qss) then
        (if length (new_set qss) < skip then None
         else if \<not> have_final_size qss \<or> sent_final_size qss then None
         else Some (\<lparr>sh_offset = head_offset (ss_ring qss), sh_len = 0, sh_is_fin = True\<rparr>, []))
      else
        let rg = new_set qss ! skip;
            max_len = r_end rg - r_start rg + 1
        in case iov_loop 2 (ss_ring qss) (r_start rg) max_len 0 [] of
             None \<Rightarrow> None
           | Some (total_len, iov) \<Rightarrow>
               Some (\<lparr>sh_offset = r_start rg, sh_len = total_len,
                      sh_is_fin = (have_final_size qss \<and> r_start rg + total_len = head_offset (ss_ring qss))\<rparr>, iov))"

definition ossl_quic_sstream_has_pending :: "QUIC_SSTREAM \<Rightarrow> bool" where
  "ossl_quic_sstream_has_pending qss = (ossl_quic_sstream_get_stream_frame qss 0 2 \<noteq> None)"

definition ossl_quic_sstream_get_cur_size :: "QUIC_SSTREAM \<Rightarrow> u64" where
  "ossl_quic_sstream_get_cur_size qss = head_offset (ss_ring qss)"

definition ossl_quic_sstream_mark_transmitted ::
  "bool \<Rightarrow> QUIC_SSTREAM \<Rightarrow> u64 \<Rightarrow> u64 \<Rightarrow> (QUIC_SSTREAM \<times> bool) option" where
  "ossl_quic_sstream_mark_transmitted mem_ok qss start end' =
     (case ossl_uint_set_remove mem_ok (new_set qss) \<lparr>r_start = start, r_end = end'\<rparr> of
        None \<Rightarrow> None
      | Some (s, ok) \<Rightarrow> Some (qss\<lparr>new_set := s\<rparr>, ok))"

definition ossl_quic_sstream_mark_transmitted_fin :: "QUIC_SSTREAM \<Rightarrow> u64 \<Rightarrow> QUIC_SSTREAM \<times> bool" where
  "ossl_quic_sstream_mark_transmitted_fin qss final_size =
     (if \<not> have_final_size qss \<or> final_size \<noteq> head_offset (ss_ring qss) then (qss, False)
      else (qss\<lparr>sent_final_size := True\<rparr>, True))"

definition ossl_quic_sstream_mark_lost :: "bool \<Rightarrow> QUIC_SSTREAM \<Rightarrow> u64 \<Rightarrow> u64 \<Rightarrow> QUIC_SSTREAM \<times> bool" where
  "ossl_quic_sstream_mark_lost mem_ok qss start end' =
     (case ossl_uint_set_insert mem_ok (new_set qss) \<lparr>r_start = start, r_end = end'\<rparr> of
        (s, ok) \<Rightarrow> (qss\<lparr>new_set := s\<rparr>, ok))"

definition ossl_quic_sstream_mark_lost_fin :: "QUIC_SSTREAM \<Rightarrow> QUIC_SSTREAM \<times> bool" where
  "ossl_quic_sstream_mark_lost_fin qss =
     (if acked_final_size qss then (qss, False) else (qss\<lparr>sent_final_size := False\<rparr>, True))"

definition qss_cull :: "QUIC_SSTREAM \<Rightarrow> QUIC_SSTREAM" where
  "qss_cull qss =
     (case acked_set qss of
        [] \<Rightarrow> qss
      | h # _ \<Rightarrow> qss\<lparr>ss_ring := ring_buf_cpop_range (ss_ring qss) (r_start h) (r_end h) (ss_cleanse qss)\<rparr>)"

definition ossl_quic_sstream_mark_acked :: "bool \<Rightarrow> QUIC_SSTREAM \<Rightarrow> u64 \<Rightarrow> u64 \<Rightarrow> QUIC_SSTREAM \<times> bool" where
  "ossl_quic_sstream_mark_acked mem_ok qss start end' =
     (case ossl_uint_set_insert mem_ok (acked_set qss) \<lparr>r_start = start, r_end = end'\<rparr> of
        (s, ok) \<Rightarrow> let qss = qss\<lparr>acked_set := s\<rparr> in if \<not> ok then (qss, False) else (qss_cull qss, True))"

definition ossl_quic_sstream_mark_acked_fin :: "QUIC_SSTREAM \<Rightarrow> QUIC_SSTREAM \<times> bool" where
  "ossl_quic_sstream_mark_acked_fin qss =
     (if \<not> have_final_size qss then (qss, False) else (qss\<lparr>acked_final_size := True\<rparr>, True))"

definition ossl_quic_sstream_fin :: "QUIC_SSTREAM \<Rightarrow> QUIC_SSTREAM" where
  "ossl_quic_sstream_fin qss = (if have_final_size qss then qss else qss\<lparr>have_final_size := True\<rparr>)"

definition ossl_quic_sstream_get_final_size :: "QUIC_SSTREAM \<Rightarrow> u64 option" where
  "ossl_quic_sstream_get_final_size qss =
     (if \<not> have_final_size qss then None else Some (head_offset (ss_ring qss)))"

text \<open>The loop of \<open>ossl_quic_sstream_append\<close>: the buffer and the number of bytes it has taken.\<close>

function append_loop :: "ring_buf \<Rightarrow> u8 list \<Rightarrow> nat \<Rightarrow> ring_buf \<times> nat" where
  "append_loop r buf consumed =
     (if buf = [] then (r, consumed)
      else case ring_buf_push r buf of (r', l) \<Rightarrow>
        if l = 0 then (r', consumed) else append_loop r' (drop l buf) (consumed + l))"
  by pat_completeness auto
termination
  by (relation "measure (\<lambda>(r, buf, consumed). length buf)") auto

text \<open>
  When the range set cannot grow, the saved buffer header is put back; it points to the same memory, to which
  the bytes have been copied.
\<close>

definition ossl_quic_sstream_append :: "bool \<Rightarrow> QUIC_SSTREAM \<Rightarrow> u8 list \<Rightarrow> QUIC_SSTREAM \<times> nat \<times> bool" where
  "ossl_quic_sstream_append mem_ok qss buf =
     (if have_final_size qss then (qss, 0, False)
      else
        let old_ring_buf = ss_ring qss in
        case append_loop (ss_ring qss) buf 0 of (r, consumed) \<Rightarrow>
          let qss = qss\<lparr>ss_ring := r\<rparr> in
          if consumed > 0 then
            (case ossl_uint_set_insert mem_ok (new_set qss)
                    \<lparr>r_start = head_offset old_ring_buf, r_end = head_offset old_ring_buf + of_nat consumed - 1\<rparr> of
               (s, ok) \<Rightarrow>
                 if \<not> ok then (qss\<lparr>new_set := s, ss_ring := old_ring_buf\<lparr>rb_start := rb_start r\<rparr>\<rparr>, 0, False)
                 else (qss\<lparr>new_set := s\<rparr>, consumed, True))
          else (qss, consumed, True))"

definition ossl_quic_sstream_set_buffer_size :: "u8 list option \<Rightarrow> QUIC_SSTREAM \<Rightarrow> u64 \<Rightarrow> QUIC_SSTREAM \<times> bool" where
  "ossl_quic_sstream_set_buffer_size block qss num_bytes =
     (case ring_buf_resize block (ss_ring qss) num_bytes of (r, ok) \<Rightarrow> (qss\<lparr>ss_ring := r\<rparr>, ok))"

definition ossl_quic_sstream_get_buffer_size :: "QUIC_SSTREAM \<Rightarrow> u64" where
  "ossl_quic_sstream_get_buffer_size qss = rb_alloc (ss_ring qss)"

definition ossl_quic_sstream_get_buffer_used :: "QUIC_SSTREAM \<Rightarrow> u64" where
  "ossl_quic_sstream_get_buffer_used qss = ring_buf_used (ss_ring qss)"

definition ossl_quic_sstream_get_buffer_avail :: "QUIC_SSTREAM \<Rightarrow> u64" where
  "ossl_quic_sstream_get_buffer_avail qss = ring_buf_avail (ss_ring qss)"

definition ossl_quic_sstream_is_totally_acked :: "QUIC_SSTREAM \<Rightarrow> bool" where
  "ossl_quic_sstream_is_totally_acked qss =
     (if have_final_size qss \<and> \<not> acked_final_size qss then False
      else if ossl_quic_sstream_get_cur_size qss = 0 then True
      else case acked_set qss of
        [r] \<Rightarrow> r_start r = 0 \<and> r_end r + 1 = head_offset (ss_ring qss)
      | _ \<Rightarrow> False)"

text \<open>The entries after truncation to \<open>len\<close> bytes; \<open>running\<close> sums their lengths before it.\<close>

fun adjust_iov_loop :: "u64 \<Rightarrow> u64 \<Rightarrow> u8 list list \<Rightarrow> u8 list list" where
  "adjust_iov_loop len running [] = []"
| "adjust_iov_loop len running (b # iov) =
     (let iovlen = of_nat (length b);
          b' = (if running \<ge> len then []
                else if running + iovlen > len then take (unat (len - running)) b
                else b)
      in b' # adjust_iov_loop len (running + iovlen) iov)"

definition ossl_quic_sstream_adjust_iov :: "u64 \<Rightarrow> u8 list list \<Rightarrow> u8 list list" where
  "ossl_quic_sstream_adjust_iov len iov = adjust_iov_loop len 0 iov"

definition ossl_quic_sstream_set_cleanse :: "QUIC_SSTREAM \<Rightarrow> bool \<Rightarrow> QUIC_SSTREAM" where
  "ossl_quic_sstream_set_cleanse qss cleanse = qss\<lparr>ss_cleanse := cleanse\<rparr>"

section \<open>Frames\<close>

declare iov_loop.simps [simp del] append_loop.simps [simp del]

lemma iov_done: "max_len \<le> t \<Longrightarrow> iov_loop n r start max_len t iov = Some (t, iov)"
  by (simp add: iov_loop.simps)

lemma iov_step:
  "\<not> max_len \<le> t \<Longrightarrow> ring_buf_get_buf_at r (start + t) = Some src \<Longrightarrow> src \<noteq> [] \<Longrightarrow>
   (if t + of_nat (length src) > max_len then max_len - t else of_nat (length src)) = l \<Longrightarrow>
   iov_loop (Suc n) r start max_len t iov = iov_loop n r start max_len (t + l) (iov @ [take (unat l) src])"
  by (auto simp: iov_loop.simps [of "Suc n"] Let_def)

lemma iov_loop_spec:
  assumes ok: "rb_ok r" and st: "ctail_offset r \<le> start" and len: "0 < max_len" "unat start + unat max_len \<le> unat (head_offset r)"
  shows "\<exists>iov. iov_loop 2 r start max_len 0 [] = Some (max_len, iov) \<and> length iov \<le> 2 \<and>
    concat iov = map (rb_byte r) [unat start..<unat start + unat max_len]"
proof -
  let ?a = "unat (rb_alloc r)" and ?h = "unat (head_offset r)" and ?s = "unat start" and ?m = "unat max_len"
  have m: "0 < ?m" and m0: "max_len \<noteq> 0" using len(1) by (auto simp: u64_nat)
  have win: "?h \<le> unat (ctail_offset r) + ?a" using ok by (simp add: rb_ok_def)
  have a: "rb_alloc r \<noteq> 0" using win st len m by (auto simp: u64_nat)
  have get: "\<exists>src. ring_buf_get_buf_at r x = Some src" if "start \<le> x" "unat x \<le> ?h" for x
    using that st a by (auto simp: ring_buf_get_buf_at_def Let_def u64_nat)
  obtain s1 where s1: "ring_buf_get_buf_at r start = Some s1" using get [of start] len(2) by auto
  note b1 = get_buf_at_bytes [OF ok s1] and l1 = get_buf_at_length [OF ok s1 a]
  have ne1: "s1 \<noteq> []" using b1(2) len m by auto
  have n1: "unat (of_nat (length s1) :: u64) = length s1"
    using get_buf_at_Some(3) [OF s1] by (rule unat_u64_add_of_nat_le(2))
  show ?thesis
  proof (cases "?m \<le> length s1")
    case True
    have "(if 0 + of_nat (length s1) > max_len then max_len - 0 else of_nat (length s1)) = max_len"
      using True n1 by (intro u64_unat_inj) (simp add: u64_nat)
    then have "iov_loop (Suc (Suc 0)) r start max_len 0 [] = Some (max_len, [take ?m s1])"
      using iov_step [of max_len 0 r start s1 max_len "Suc 0" "[]"] s1 ne1 m by (simp add: iov_done u64_nat)
    moreover have "take ?m s1 = map (rb_byte r) [?s..<?s + ?m]"
      using True by (subst b1(1)) (simp add: take_map take_upt)
    ultimately show ?thesis unfolding numeral_2_eq_2 by simp
  next
    case False
    then have sh: "length s1 < ?m" by simp
    define x where "x = start + of_nat (length s1)"
    have ux: "unat x = ?s + length s1"
      unfolding x_def using sh len(2) by (intro unat_u64_add_of_nat_le(1) [of _ _ "head_offset r"]) simp
    obtain s2 where s2: "ring_buf_get_buf_at r x = Some s2" using get [of x] ux sh len(2) by (auto simp: u64_nat)
    note b2 = get_buf_at_bytes [OF ok s2] and l2 = get_buf_at_length [OF ok s2 a]
    have e1: "length s1 = ?a - ?s mod ?a" using l1 sh len(2) by (auto simp: min_def split: if_splits)
    have "?s mod ?a < ?a" using a by (simp add: unat_gt_0)
    then have "?s + length s1 = ?a * (?s div ?a) + ?a" using e1 mult_div_mod_eq [of ?a ?s] by linarith
    then have "unat x mod ?a = 0" using ux by simp
    then have l2': "length s2 = ?h - unat x" using l2 win st ux by (auto simp: u64_nat)
    then have ge2: "?m - length s1 \<le> length s2" "s2 \<noteq> []" using ux sh len(2) by auto
    have n2: "unat (of_nat (length s2) :: u64) = length s2"
      using get_buf_at_Some(3) [OF s2] by (rule unat_u64_add_of_nat_le(2))
    have lt: "\<not> max_len \<le> of_nat (length s1)" "\<not> of_nat (length s1) > max_len" using sh n1 by (simp_all add: u64_nat)
    have sub: "unat (max_len - of_nat (length s1)) = ?m - length s1" using lt n1 by (simp add: unat_u64_sub u64_nat)
    have "unat (of_nat (length s1) + of_nat (length s2) :: u64) = length s1 + length s2"
    proof -
      have "length s1 + length s2 \<le> ?h" using l2' ux get_buf_at_Some(3) [OF s2] by linarith
      then have "length s1 + length s2 < 18446744073709551616"
        using unat_u64_lt [of "head_offset r"] by (rule le_less_trans)
      then show ?thesis using n1 n2 by (subst unat_u64_add) auto
    qed
    then have t2: "(if of_nat (length s1) + of_nat (length s2) > max_len then max_len - of_nat (length s1) else of_nat (length s2)) =
        max_len - of_nat (length s1)"
      using ge2(1) n2 sub by (intro u64_unat_inj) (auto simp: u64_nat)
    have "take (?m - length s1) s2 = map (rb_byte r) [?s + length s1..<?s + ?m]"
      using ge2 sh by (subst b2(1)) (simp add: take_map take_upt ux)
    moreover have "s1 = map (rb_byte r) [?s..<?s + length s1]" by (rule b1(1))
    moreover have "[?s..<?s + ?m] = [?s..<?s + length s1] @ [?s + length s1..<?s + ?m]"
      using upt_add_eq_append [of ?s "?s + length s1" "?m - length s1"] sh by simp
    ultimately have c: "concat [s1, take (?m - length s1) s2] = map (rb_byte r) [?s..<?s + ?m]" by simp
    have "iov_loop (Suc (Suc 0)) r start max_len 0 [] = iov_loop (Suc 0) r start max_len (of_nat (length s1)) [s1]"
      using iov_step [of max_len 0 r start s1 "of_nat (length s1)" "Suc 0" "[]"] s1 ne1 m0 lt n1 by (auto simp: u64_less_unat)
    also have "\<dots> = Some (max_len, [s1, take (?m - length s1) s2])"
      using iov_step [of max_len "of_nat (length s1)" r start s2 "max_len - of_nat (length s1)" 0 "[s1]", OF lt(1) s2 [unfolded x_def] ge2(2) t2]
        sub by (simp add: iov_done)
    finally show ?thesis using c unfolding numeral_2_eq_2 by auto
  qed
qed

lemma adjust_iov_loop_concat:
  assumes "unat running + length (concat iov) < 2 ^ 64"
  shows "concat (adjust_iov_loop len running iov) = take (unat len - unat running) (concat iov)"
  using assms
proof (induction iov arbitrary: running)
  case (Cons b iov)
  have nb: "unat (of_nat (length b) :: u64) = length b"
    using Cons.prems by (intro unat_u64_of_nat) simp
  have add: "unat (running + of_nat (length b)) = unat running + length b"
    using Cons.prems nb by (subst unat_u64_add) auto
  note IH = Cons.IH [of "running + of_nat (length b)"]
  consider "len \<le> running" | "running < len" "len < running + of_nat (length b)" | "running < len" "running + of_nat (length b) \<le> len"
    by force
  then show ?case
  proof cases
    case 1
    then show ?thesis using IH Cons.prems add by (simp add: u64_nat Let_def)
  next
    case 2
    then show ?thesis using IH Cons.prems add by (auto simp: u64_nat Let_def unat_u64_sub)
  next
    case 3
    then show ?thesis using IH Cons.prems add by (auto simp: u64_nat Let_def)
  qed
qed simp

lemma adjust_iov_concat:
  "length (concat iov) < 2 ^ 64 \<Longrightarrow> concat (ossl_quic_sstream_adjust_iov len iov) = take (unat len) (concat iov)"
  using adjust_iov_loop_concat [of 0 iov len] by (simp add: ossl_quic_sstream_adjust_iov_def)

section \<open>Appending\<close>

lemma push_room_pushed:
  assumes "rb_ok r" "pushed_to r bs r'" "head_offset r' \<le> MAX_OFFSET"
  shows "push_room r' = push_room r - length bs"
proof -
  have p: "rb_ok r'" "ctail_offset r' = ctail_offset r" "rb_alloc r' = rb_alloc r"
    "unat (head_offset r') = unat (head_offset r) + length bs"
    using assms(2) by (auto simp: pushed_to_def)
  have h: "head_offset r \<le> MAX_OFFSET" using p(4) assms(3) by (simp add: u64_nat)
  show ?thesis
    using rb_ok_bounds(2) [OF assms(1)] rb_ok_bounds(2) [OF p(1)] p h assms(3)
    by (simp add: push_room_def unat_u64_sub min_def)
qed

lemma append_loop_spec:
  fixes buf :: "u8 list"
  assumes ok: "rb_ok r" "head_offset r \<le> MAX_OFFSET"
  defines "k \<equiv> min (length buf) (push_room r)"
  shows "\<exists>r'. append_loop r buf c = (r', c + k) \<and> pushed_to r (take k buf) r' \<and> head_offset r' \<le> MAX_OFFSET"
proof (cases "buf = []")
  case True
  then show ?thesis using ok by (simp add: append_loop.simps k_def pushed_to_Nil)
next
  case False
  obtain r1 n where p1: "ring_buf_push r buf = (r1, n)" by fastforce
  note q1 = push_correct [OF ok p1]
  have n: "n = k" using q1(1) by (simp add: k_def)
  have ok1: "rb_ok r1" using q1(2) by (simp add: pushed_to_def)
  show ?thesis
  proof (cases "k = 0 \<or> k = length buf")
    case True
    then show ?thesis
      using False p1 q1 n by (auto simp: append_loop.simps [of r] append_loop.simps [of r1])
  next
    case part: False
    then have room: "push_room r1 = 0"
      using push_room_pushed [OF ok(1) q1(2,3)] n by (auto simp: k_def)
    obtain r2 n2 where p2: "ring_buf_push r1 (drop n buf) = (r2, n2)" by fastforce
    note q2 = push_correct [OF ok1 q1(3) p2]
    have "n2 = 0" using q2(1) room by simp
    moreover have "pushed_to r (take n buf) r2" using pushed_to_trans [OF q1(2)] q2(2) \<open>n2 = 0\<close> by fastforce
    moreover have "drop k buf \<noteq> []" using part by (auto simp: k_def min_def split: if_splits)
    ultimately show ?thesis
      using False p1 p2 part n q2(3) by (simp add: append_loop.simps [of r] append_loop.simps [of r1])
  qed
qed

section \<open>A sender\<close>

text \<open>
  How the packetiser and the in-flight frame dispatcher drive a send stream (\<open>quic_txp.c\<close>, \<open>quic_fifd.c\<close>): a
  frame is cut to the length that fits and loses its end mark if bytes are cut off, a chunk that records it
  stays in flight until its packet is acknowledged or lost, and each of these events marks the range of the
  chunk unless its end lies before its start. A chunk whose mark fails stays in flight. A step is \<open>None\<close> where
  the code would use a NULL pointer.
\<close>

record sent_chunk =
  ck_start :: u64
  ck_end :: u64
  ck_has_fin :: bool

record sender =
  sd_qss :: QUIC_SSTREAM
  appended :: "u8 list"
  flight :: "sent_chunk list"
  frames_out :: "(u64 \<times> u8 list \<times> bool) list"

datatype sender_op =
    Ss_Append bool "u8 list"
  | Ss_Fin
  | Ss_Send nat u64 bool
  | Ss_Ack nat bool
  | Ss_Lose nat bool
  | Ss_Resize "u8 list option" u64
  | Ss_Cleanse bool

definition chunk_of :: "stream_hdr \<Rightarrow> u64 \<Rightarrow> bool \<Rightarrow> sent_chunk" where
  "chunk_of hdr len fin = \<lparr>ck_start = sh_offset hdr, ck_end = sh_offset hdr + len - 1, ck_has_fin = fin\<rparr>"

definition commit_chunk :: "bool \<Rightarrow> QUIC_SSTREAM \<Rightarrow> sent_chunk \<Rightarrow> (QUIC_SSTREAM \<times> bool) option" where
  "commit_chunk mem_ok qss c =
     (case (if ck_end c \<ge> ck_start c then ossl_quic_sstream_mark_transmitted mem_ok qss (ck_start c) (ck_end c)
            else Some (qss, True)) of
        None \<Rightarrow> None
      | Some (qss, ok) \<Rightarrow>
          Some (if \<not> ok then (qss, False)
                else if ck_has_fin c then ossl_quic_sstream_mark_transmitted_fin qss (ck_end c + 1)
                else (qss, True)))"

definition ack_chunk :: "bool \<Rightarrow> QUIC_SSTREAM \<Rightarrow> sent_chunk \<Rightarrow> QUIC_SSTREAM \<times> bool" where
  "ack_chunk mem_ok qss c =
     (case (if ck_end c \<ge> ck_start c then ossl_quic_sstream_mark_acked mem_ok qss (ck_start c) (ck_end c)
            else (qss, True)) of
        (qss, ok) \<Rightarrow> (if ck_has_fin c then fst (ossl_quic_sstream_mark_acked_fin qss) else qss, ok))"

definition lose_chunk :: "bool \<Rightarrow> QUIC_SSTREAM \<Rightarrow> sent_chunk \<Rightarrow> QUIC_SSTREAM \<times> bool" where
  "lose_chunk mem_ok qss c =
     (case (if ck_end c \<ge> ck_start c then ossl_quic_sstream_mark_lost mem_ok qss (ck_start c) (ck_end c)
            else (qss, True)) of
        (qss, ok) \<Rightarrow> (if ck_has_fin c then fst (ossl_quic_sstream_mark_lost_fin qss) else qss, ok))"

definition remove_nth :: "nat \<Rightarrow> 'a list \<Rightarrow> 'a list" where
  "remove_nth i xs = take i xs @ drop (Suc i) xs"

fun sender_step :: "sender_op \<Rightarrow> sender \<Rightarrow> sender option" where
  "sender_step (Ss_Append mem_ok buf) s =
     (case ossl_quic_sstream_append mem_ok (sd_qss s) buf of
        (qss, consumed, ok) \<Rightarrow> Some (s\<lparr>sd_qss := qss, appended := appended s @ take consumed buf\<rparr>))"
| "sender_step Ss_Fin s = Some (s\<lparr>sd_qss := ossl_quic_sstream_fin (sd_qss s)\<rparr>)"
| "sender_step (Ss_Send skip k mem_ok) s =
     (case ossl_quic_sstream_get_stream_frame (sd_qss s) skip 2 of
        None \<Rightarrow> Some s
      | Some (hdr, iov) \<Rightarrow>
          let len = (if k < sh_len hdr then k else sh_len hdr);
              fin = (sh_is_fin hdr \<and> \<not> len < sh_len hdr);
              c = chunk_of hdr len fin
          in if len = 0 \<and> \<not> fin then Some s
             else case commit_chunk mem_ok (sd_qss s) c of
               None \<Rightarrow> None
             | Some (qss, ok) \<Rightarrow>
                 Some (s\<lparr>sd_qss := qss, flight := flight s @ [c],
                         frames_out := frames_out s @ [(sh_offset hdr, concat (ossl_quic_sstream_adjust_iov len iov), fin)]\<rparr>))"
| "sender_step (Ss_Ack i mem_ok) s =
     (if i < length (flight s) then
        (case ack_chunk mem_ok (sd_qss s) (flight s ! i) of
           (qss, ok) \<Rightarrow> Some (s\<lparr>sd_qss := qss, flight := (if ok then remove_nth i (flight s) else flight s)\<rparr>))
      else Some s)"
| "sender_step (Ss_Lose i mem_ok) s =
     (if i < length (flight s) then
        (case lose_chunk mem_ok (sd_qss s) (flight s ! i) of
           (qss, ok) \<Rightarrow> Some (s\<lparr>sd_qss := qss, flight := (if ok then remove_nth i (flight s) else flight s)\<rparr>))
      else Some s)"
| "sender_step (Ss_Resize block n) s = Some (s\<lparr>sd_qss := fst (ossl_quic_sstream_set_buffer_size block (sd_qss s) n)\<rparr>)"
| "sender_step (Ss_Cleanse c) s = Some (s\<lparr>sd_qss := ossl_quic_sstream_set_cleanse (sd_qss s) c\<rparr>)"

fun sender_exec :: "sender_op list \<Rightarrow> sender \<Rightarrow> sender option" where
  "sender_exec [] s = Some s"
| "sender_exec (x # xs) s = (case sender_step x s of None \<Rightarrow> None | Some s' \<Rightarrow> sender_exec xs s')"

definition sender_begin :: "QUIC_SSTREAM \<Rightarrow> sender" where
  "sender_begin qss = \<lparr>sd_qss = qss, appended = [], flight = [], frames_out = []\<rparr>"

text \<open>Blocks of the size asked for.\<close>

fun sender_op_ok :: "sender_op \<Rightarrow> bool" where
  "sender_op_ok (Ss_Resize block n) = ((case block of None \<Rightarrow> True | Some m \<Rightarrow> length m = unat n) \<and> unat n \<le> 2 ^ 62)"
| "sender_op_ok _ = True"

section \<open>The invariant of a sender\<close>

definition ring_has :: "u8 list \<Rightarrow> ring_buf \<Rightarrow> bool" where
  "ring_has A r \<longleftrightarrow> rb_ok r \<and> head_offset r \<le> MAX_OFFSET \<and> unat (head_offset r) = length A \<and>
     (\<forall>i. unat (ctail_offset r) \<le> i \<longrightarrow> i < length A \<longrightarrow> rb_byte r i = A ! i)"

definition chunk_range :: "sent_chunk \<Rightarrow> u64 set" where
  "chunk_range c = {ck_start c..ck_end c}"

text \<open>
  The states of the bytes of a stream that has any: every byte is new, acknowledged or in exactly one chunk in
  flight. The buffer is culled up to the end of the first acknowledged range if that starts at 0.
\<close>

definition bytes_tracked :: "u8 list \<Rightarrow> sent_chunk list \<Rightarrow> QUIC_SSTREAM \<Rightarrow> bool" where
  "bytes_tracked A fl qss \<longleftrightarrow>
     uint_set_inv (new_set qss) \<and> uint_set_inv (acked_set qss) \<and> uint_set_gaps (acked_set qss) \<and>
     uint_set_members (new_set qss) \<union> uint_set_members (acked_set qss) \<union> \<Union> (chunk_range ` set fl) = {v. unat v < length A} \<and>
     uint_set_members (new_set qss) \<inter> uint_set_members (acked_set qss) = {} \<and>
     (\<forall>c\<in>set fl. chunk_range c \<inter> (uint_set_members (new_set qss) \<union> uint_set_members (acked_set qss)) = {}) \<and>
     sorted_wrt (\<lambda>c d. chunk_range c \<inter> chunk_range d = {}) fl \<and>
     ctail_offset (ss_ring qss) =
       (case acked_set qss of [] \<Rightarrow> 0 | h # _ \<Rightarrow> if r_start h = 0 then r_end h + 1 else 0)"

text \<open>
  A stream that ends without any byte: the chunk that carries its end spans, by wrap-around, all offsets, and
  so do the ranges it leaves in the sets.
\<close>

definition full_range :: UINT_RANGE where
  "full_range = \<lparr>r_start = 0, r_end = UINT64_MAX\<rparr>"

definition empty_tracked :: "sent_chunk list \<Rightarrow> QUIC_SSTREAM \<Rightarrow> bool" where
  "empty_tracked fl qss \<longleftrightarrow> ctail_offset (ss_ring qss) = 0 \<and>
     new_set qss \<in> {[], [full_range]} \<and> acked_set qss \<in> {[], [full_range]} \<and>
     (\<forall>c\<in>set fl. c = \<lparr>ck_start = 0, ck_end = UINT64_MAX, ck_has_fin = True\<rparr>) \<and>
     (\<not> have_final_size qss \<longrightarrow> new_set qss = [] \<and> acked_set qss = [] \<and> fl = [])"

definition ss_inv :: "u8 list \<Rightarrow> sent_chunk list \<Rightarrow> QUIC_SSTREAM \<Rightarrow> bool" where
  "ss_inv A fl qss \<longleftrightarrow> ring_has A (ss_ring qss) \<and>
     (if A = [] then empty_tracked fl qss else bytes_tracked A fl qss)"

text \<open>The frames sent carry bytes of the stream, with its end only on the last one.\<close>

definition frames_ok :: "u8 list \<Rightarrow> bool \<Rightarrow> (u64 \<times> u8 list \<times> bool) list \<Rightarrow> bool" where
  "frames_ok A ended frames \<longleftrightarrow>
     (\<forall>(off, bs, fin)\<in>set frames. unat off + length bs \<le> length A \<and> bs = take (length bs) (drop (unat off) A) \<and>
        (fin \<longrightarrow> ended \<and> unat off + length bs = length A))"

definition sender_inv :: "sender \<Rightarrow> bool" where
  "sender_inv s \<longleftrightarrow> ss_inv (appended s) (flight s) (sd_qss s) \<and>
     frames_ok (appended s) (have_final_size (sd_qss s)) (frames_out s)"

lemma ring_has_bounds:
  assumes "ring_has A r"
  shows "rb_ok r" "unat (head_offset r) = length A" "length A \<le> 2 ^ 62" "head_offset r \<le> MAX_OFFSET"
  using assms by (auto simp: ring_has_def u64_nat MAX_OFFSET_def)

lemma ring_has_frame:
  assumes "ring_has A r" "rb_ok r'" "head_offset r' = head_offset r" "ctail_offset r' = ctail_offset r"
    and "\<And>i. unat (ctail_offset r) \<le> i \<Longrightarrow> i < unat (head_offset r) \<Longrightarrow> rb_byte r' i = rb_byte r i"
  shows "ring_has A r'"
  using assms by (auto simp: ring_has_def)

lemma ss_inv_ring:
  "ss_inv A fl qss \<Longrightarrow> ring_has A r \<Longrightarrow> ctail_offset r = ctail_offset (ss_ring qss) \<Longrightarrow> ss_inv A fl (qss\<lparr>ss_ring := r\<rparr>)"
  unfolding ss_inv_def empty_tracked_def bytes_tracked_def by (cases "A = []") auto

lemma ss_inv_frame:
  assumes "ss_inv A fl qss" "ss_ring qss' = ss_ring qss" "new_set qss' = new_set qss" "acked_set qss' = acked_set qss"
    "have_final_size qss \<Longrightarrow> have_final_size qss'"
  shows "ss_inv A fl qss'"
  using assms unfolding ss_inv_def empty_tracked_def bytes_tracked_def by (cases "A = []") auto

text \<open>Appending.\<close>

lemma range_from_head:
  assumes "unat h + k \<le> 2 ^ 62" "0 < k"
  shows "unat (h + of_nat k - 1 :: u64) = unat h + k - 1" "h \<le> h + of_nat k - 1"
    and "{h..h + of_nat k - 1} = {v. unat h \<le> unat v \<and> unat v < unat h + k}"
proof -
  have "unat (h + of_nat k) = unat h + k" using assms by (intro unat_u64_add_of_nat) simp
  moreover from this have "0 < h + of_nat k" using assms(2) by (simp add: u64_nat)
  ultimately show e: "unat (h + of_nat k - 1) = unat h + k - 1" using unat_u64_pred by simp
  then show "h \<le> h + of_nat k - 1" using assms(2) by (simp add: u64_nat)
  show "{h..h + of_nat k - 1} = {v. unat h \<le> unat v \<and> unat v < unat h + k}"
    using e assms(2) by (auto simp: u64_nat)
qed

lemma ring_push_has:
  assumes h: "ring_has A r" and p: "pushed_to r bs r'" "head_offset r' \<le> MAX_OFFSET"
  shows "ring_has (A @ bs) r'" "ring_has A (r\<lparr>rb_start := rb_start r'\<rparr>)"
proof -
  note b = ring_has_bounds [OF h]
  have win: "in_window r i" if "unat (ctail_offset r) \<le> i" "i < length A + length bs" for i
    using that p(1) b(2) by (auto simp: in_window_def pushed_to_def rb_ok_def)
  show "ring_has (A @ bs) r'"
    using h p win b(2) by (auto simp: ring_has_def pushed_to_def nth_append)
  show "ring_has A (r\<lparr>rb_start := rb_start r'\<rparr>)"
  proof (rule ring_has_frame [OF h])
    show "rb_ok (r\<lparr>rb_start := rb_start r'\<rparr>)"
      using b(1) p(1) by (auto simp: rb_ok_def pushed_to_def)
    show "rb_byte (r\<lparr>rb_start := rb_start r'\<rparr>) i = rb_byte r i"
      if "unat (ctail_offset r) \<le> i" "i < unat (head_offset r)" for i
      using that win [of i] p(1) b(2) by (auto simp: rb_byte_def pushed_to_def)
  qed simp_all
qed

lemma append_tracked:
  assumes t: "if A = [] then empty_tracked fl qss \<and> \<not> have_final_size qss else bytes_tracked A fl qss"
    and h: "unat h = length A" and k: "length A + k \<le> 2 ^ 62" "0 < k" "length B = k"
    and ins: "ossl_uint_set_insert mem_ok (new_set qss) \<lparr>r_start = h, r_end = h + of_nat k - 1\<rparr> = (s, ok)"
    and r: "ctail_offset r = ctail_offset (ss_ring qss)"
  shows "ok \<Longrightarrow> bytes_tracked (A @ B) fl (qss\<lparr>ss_ring := r, new_set := s\<rparr>)" "\<not> ok \<Longrightarrow> s = new_set qss"
proof -
  let ?rg = "\<lparr>r_start = h, r_end = h + of_nat k - 1\<rparr>"
  note rh = range_from_head [of h k, unfolded h, OF k(1,2)]
  have inv: "uint_set_inv (new_set qss)" using t by (auto simp: empty_tracked_def bytes_tracked_def split: if_splits)
  have sp: "insert_spec mem_ok (new_set qss) ?rg (s, ok)"
    using insert_correct [OF inv, of ?rg mem_ok] rh(2) ins by simp
  then show "\<not> ok \<Longrightarrow> s = new_set qss" by (simp add: insert_spec_def)
  assume "ok"
  then have s: "uint_set_inv s" "uint_set_members s = uint_set_members (new_set qss) \<union> {v. length A \<le> unat v \<and> unat v < length A + k}"
    using sp rh(3) by (auto simp: insert_spec_def range_set_def)
  have range: "{v :: u64. unat v < length (A @ B)} = {v. unat v < length A} \<union> {v. length A \<le> unat v \<and> unat v < length A + k}"
    using k(3) by auto
  show "bytes_tracked (A @ B) fl (qss\<lparr>ss_ring := r, new_set := s\<rparr>)"
  proof (cases "A = []")
    case True
    then show ?thesis using t s r k(3) by (auto simp: empty_tracked_def bytes_tracked_def)
  next
    case False
    then have b: "bytes_tracked A fl qss" using t by simp
    let ?N = "uint_set_members (new_set qss)" and ?K = "uint_set_members (acked_set qss)" and ?new = "{v :: u64. length A \<le> unat v \<and> unat v < length A + k}"
    have u: "?N \<union> ?K \<union> \<Union> (chunk_range ` set fl) = {v. unat v < length A}" using b by (simp add: bytes_tracked_def)
    have below: "unat v < length A" if "v \<in> ?K \<or> (\<exists>c \<in> set fl. v \<in> chunk_range c)" for v
      using u that by blast
    have "?K \<inter> ?new = {}" "\<And>c. c \<in> set fl \<Longrightarrow> chunk_range c \<inter> ?new = {}"
      using below by (auto simp: not_less [symmetric])
    then show ?thesis
      using b s u r unfolding bytes_tracked_def range by auto
  qed
qed

lemma append_inv:
  assumes inv: "ss_inv A fl qss" and a: "ossl_quic_sstream_append mem_ok qss buf = (qss', consumed, ok)"
  shows "ss_inv (A @ take consumed buf) fl qss'" "have_final_size qss' = have_final_size qss"
    "have_final_size qss \<Longrightarrow> consumed = 0"
proof -
  have rh: "ring_has A (ss_ring qss)" using inv by (simp add: ss_inv_def)
  note b = ring_has_bounds [OF rh]
  have "ss_inv (A @ take consumed buf) fl qss' \<and> have_final_size qss' = have_final_size qss \<and> (have_final_size qss \<longrightarrow> consumed = 0)"
  proof (cases "have_final_size qss")
    case True
    then show ?thesis using a inv by (simp add: ossl_quic_sstream_append_def)
  next
    case unfinished: False
    obtain r' k where l: "append_loop (ss_ring qss) buf 0 = (r', k)"
      and p: "pushed_to (ss_ring qss) (take k buf) r'" "head_offset r' \<le> MAX_OFFSET" and kl: "k \<le> length buf"
      using append_loop_spec [OF b(1,4), of buf 0] by (metis add_0 min.cobounded1)
    note ph = ring_push_has [OF rh p]
    have ct: "ctail_offset r' = ctail_offset (ss_ring qss)" using p(1) by (simp add: pushed_to_def)
    show ?thesis
    proof (cases "k = 0")
      case True
      then have q: "qss' = qss\<lparr>ss_ring := r'\<rparr>" "consumed = 0" using a unfinished l by (auto simp: ossl_quic_sstream_append_def)
      have "ring_has A r'" using ph(1) True by simp
      then show ?thesis using ss_inv_ring [OF inv _ ct] q by simp
    next
      case False
      let ?h = "head_offset (ss_ring qss)"
      obtain s ok' where ins: "ossl_uint_set_insert mem_ok (new_set qss) \<lparr>r_start = ?h, r_end = ?h + of_nat k - 1\<rparr> = (s, ok')" by fastforce
      have t: "if A = [] then empty_tracked fl qss \<and> \<not> have_final_size qss else bytes_tracked A fl qss"
        using inv unfinished by (simp add: ss_inv_def split: if_splits)
      have len: "length (take k buf) = k" using kl by simp
      have bnd: "length A + k \<le> 2 ^ 62" using ring_has_bounds(3) [OF ph(1)] len by simp
      have k0: "0 < k" using False by simp
      note tr = append_tracked [OF t b(2) bnd k0 len ins ct]
      show ?thesis
      proof (cases ok')
        case True
        then have "qss' = qss\<lparr>ss_ring := r', new_set := s\<rparr>" "consumed = k"
          using a unfinished l k0 ins by (auto simp: ossl_quic_sstream_append_def Let_def)
        then show ?thesis using tr(1) [OF True] ph(1) k0 len unfinished by (auto simp: ss_inv_def)
      next
        case False
        then have "qss' = qss\<lparr>ss_ring := (ss_ring qss)\<lparr>rb_start := rb_start r'\<rparr>\<rparr>" "consumed = 0"
          using a unfinished l k0 ins tr(2) by (auto simp: ossl_quic_sstream_append_def Let_def)
        then show ?thesis using ss_inv_ring [OF inv ph(2)] by simp
      qed
    qed
  qed
  then show "ss_inv (A @ take consumed buf) fl qss'" "have_final_size qss' = have_final_size qss"
    "have_final_size qss \<Longrightarrow> consumed = 0" by auto
qed

text \<open>Frames.\<close>

lemma tracked_below:
  assumes "bytes_tracked A fl qss" "v \<in> uint_set_members (new_set qss) \<union> uint_set_members (acked_set qss) \<union> \<Union> (chunk_range ` set fl)"
  shows "unat v < length A"
  using assms by (simp add: bytes_tracked_def)

lemma acked_head_end:
  assumes "bytes_tracked A fl qss" "unat ho = length A" "acked_set qss = h # rest"
  shows "r_end h < ho" "unat (r_end h + 1) = unat (r_end h) + 1" "r_start h \<le> r_end h"
proof -
  have "uint_set_inv (h # rest)" using assms by (simp add: bytes_tracked_def)
  then show le: "r_start h \<le> r_end h" by simp
  then have "r_end h \<in> uint_set_members (acked_set qss)" using assms(3) by (simp add: in_range_set)
  then show "r_end h < ho" using tracked_below [OF assms(1)] assms(2) by (simp add: u64_nat)
  then show "unat (r_end h + 1) = unat (r_end h) + 1" by (rule unat_u64_succ)
qed

lemma tail_acked:
  fixes ho :: u64
  assumes t: "bytes_tracked A fl qss" "unat ho = length A" and v: "v < ctail_offset (ss_ring qss)"
  shows "v \<in> uint_set_members (acked_set qss)"
proof -
  have ct: "ctail_offset (ss_ring qss) =
       (case acked_set qss of [] \<Rightarrow> 0 | h # _ \<Rightarrow> if r_start h = 0 then r_end h + 1 else 0)"
    using t by (simp add: bytes_tracked_def)
  then obtain h rest where a: "acked_set qss = h # rest" "r_start h = 0" "v < r_end h + 1"
    using v by (cases "acked_set qss") (auto simp: u64_nat split: if_splits)
  then show ?thesis using acked_head_end(2) [OF t a(1)] by (simp add: in_range_set u64_nat)
qed

lemma new_range_bounds:
  assumes t: "bytes_tracked A fl qss" "unat ho = length A" and z: "z \<in> set (new_set qss)"
  shows "r_start z \<le> r_end z" "r_end z < ho" "ctail_offset (ss_ring qss) \<le> r_start z"
proof -
  have "uint_set_inv (new_set qss)" using t by (simp add: bytes_tracked_def)
  then show le: "r_start z \<le> r_end z" using z by (simp add: uint_set_inv_def list_all_iff)
  then have m: "r_end z \<in> uint_set_members (new_set qss)" "r_start z \<in> uint_set_members (new_set qss)"
    using z by (auto simp: in_uint_set_members)
  then show "r_end z < ho" using tracked_below [OF t(1)] t(2) by (simp add: u64_nat)
  have "uint_set_members (new_set qss) \<inter> uint_set_members (acked_set qss) = {}" using t by (simp add: bytes_tracked_def)
  then have "r_start z \<notin> uint_set_members (acked_set qss)" using m(2) by blast
  then show "ctail_offset (ss_ring qss) \<le> r_start z" using tail_acked [OF t] by (meson not_le)
qed

lemma ring_bytes:
  assumes "ring_has A r" "unat (ctail_offset r) \<le> i" "j \<le> length A"
  shows "map (rb_byte r) [i..<j] = take (j - i) (drop i A)"
  using assms by (auto simp: ring_has_def intro!: nth_equalityI)

definition frame_spec :: "u8 list \<Rightarrow> QUIC_SSTREAM \<Rightarrow> stream_hdr \<Rightarrow> u8 list list \<Rightarrow> bool" where
  "frame_spec A qss hdr iov \<longleftrightarrow>
     unat (sh_offset hdr) + unat (sh_len hdr) \<le> length A \<and> length iov \<le> 2 \<and>
     concat iov = take (unat (sh_len hdr)) (drop (unat (sh_offset hdr)) A) \<and>
     (sh_is_fin hdr \<longleftrightarrow> have_final_size qss \<and> unat (sh_offset hdr) + unat (sh_len hdr) = length A) \<and>
     (sh_len hdr = 0 \<longrightarrow> sh_is_fin hdr \<and> sh_offset hdr = head_offset (ss_ring qss)) \<and>
     (sh_len hdr \<noteq> 0 \<longrightarrow> (\<exists>z\<in>set (new_set qss). r_start z = sh_offset hdr \<and> r_end z = sh_offset hdr + sh_len hdr - 1))"

lemma range_frame:
  assumes r: "ring_has A (ss_ring qss)" and t: "bytes_tracked A fl qss" and sk: "skip < length (new_set qss)"
  shows "\<exists>hdr iov. ossl_quic_sstream_get_stream_frame qss skip 2 = Some (hdr, iov) \<and> frame_spec A qss hdr iov \<and> sh_len hdr \<noteq> 0"
proof -
  note b = ring_has_bounds [OF r]
  define z where "z = new_set qss ! skip"
  define l where "l = r_end z - r_start z + 1"
  have z: "z \<in> set (new_set qss)" using sk by (simp add: z_def)
  note nb = new_range_bounds [OF t b(2) z]
  have d: "unat (r_end z - r_start z) = unat (r_end z) - unat (r_start z)" using nb(1) by (rule unat_u64_sub)
  have "r_end z - r_start z < head_offset (ss_ring qss)" using d nb(2) by (simp add: u64_nat)
  then have l: "unat l = unat (r_end z) - unat (r_start z) + 1" unfolding l_def using d by (simp add: unat_u64_succ)
  have l0: "0 < l" "unat (r_start z) + unat l \<le> length A" "l \<noteq> 0" using l nb b(2) by (auto simp: u64_nat)
  obtain iov where iov: "iov_loop 2 (ss_ring qss) (r_start z) l 0 [] = Some (l, iov)" "length iov \<le> 2"
      "concat iov = map (rb_byte (ss_ring qss)) [unat (r_start z)..<unat (r_start z) + unat l]"
    using iov_loop_spec [OF b(1) nb(3) l0(1)] l0(2) b(2) by auto
  have c: "concat iov = take (unat l) (drop (unat (r_start z)) A)"
    using ring_bytes [OF r, of "unat (r_start z)"] nb(3) l0(2) iov(3) by (simp add: u64_nat)
  have "unat (r_start z + l) = unat (r_start z) + unat l"
    using l0(2) b(3) by (intro unat_u64_add) simp
  then have e: "r_start z + l = head_offset (ss_ring qss) \<longleftrightarrow> unat (r_start z) + unat l = length A"
    using b(2) u64_unat_inj by (metis (lifting))
  show ?thesis
    using sk iov c e l0 z l_def by (auto simp: ossl_quic_sstream_get_stream_frame_def Let_def z_def [symmetric] frame_spec_def)
qed

lemma get_frame_spec:
  assumes inv: "ss_inv A fl qss" "A \<noteq> []" and g: "ossl_quic_sstream_get_stream_frame qss skip 2 = Some (hdr, iov)"
  shows "frame_spec A qss hdr iov"
proof (cases "skip < length (new_set qss)")
  case True
  then show ?thesis using range_frame [of A qss fl skip] inv g by (auto simp: ss_inv_def)
next
  case False
  then show ?thesis
    using g ring_has_bounds(2) [of A "ss_ring qss"] inv
    by (auto simp: ossl_quic_sstream_get_stream_frame_def frame_spec_def ss_inv_def split: if_splits)
qed

lemma get_frame_empty:
  assumes inv: "ss_inv [] fl qss" and g: "ossl_quic_sstream_get_stream_frame qss skip 2 = Some (hdr, iov)"
  shows "hdr = \<lparr>sh_offset = 0, sh_len = 0, sh_is_fin = True\<rparr>" "iov = []" "have_final_size qss"
proof -
  have h: "head_offset (ss_ring qss) = 0"
    using inv by (intro u64_unat_inj) (simp add: ss_inv_def ring_has_def)
  have t: "empty_tracked fl qss" using inv by (simp add: ss_inv_def)
  have "hdr = \<lparr>sh_offset = 0, sh_len = 0, sh_is_fin = True\<rparr> \<and> iov = [] \<and> have_final_size qss"
  proof (cases "skip < length (new_set qss)")
    case True
    then have "new_set qss = [full_range]" "have_final_size qss" "skip = 0" using t by (auto simp: empty_tracked_def)
    then show ?thesis
      using g h by (auto simp: ossl_quic_sstream_get_stream_frame_def full_range_def iov_done)
  next
    case False
    then show ?thesis using g h by (auto simp: ossl_quic_sstream_get_stream_frame_def split: if_splits)
  qed
  then show "hdr = \<lparr>sh_offset = 0, sh_len = 0, sh_is_fin = True\<rparr>" "iov = []" "have_final_size qss" by auto
qed

text \<open>A chunk changes hands: from new to in flight, and from there to acknowledged or back to new.\<close>

lemma chunk_range_set: "range_set \<lparr>r_start = ck_start c, r_end = ck_end c\<rparr> = chunk_range c"
  by (simp add: range_set_def chunk_range_def)

lemma track_sent:
  assumes t: "bytes_tracked A fl qss" and c: "chunk_range c \<subseteq> uint_set_members (new_set qss)"
    and s: "uint_set_inv (new_set qss')" "uint_set_members (new_set qss') = uint_set_members (new_set qss) - chunk_range c"
    and fr: "acked_set qss' = acked_set qss" "ctail_offset (ss_ring qss') = ctail_offset (ss_ring qss)"
  shows "bytes_tracked A (fl @ [c]) qss'"
proof -
  let ?N = "uint_set_members (new_set qss)" and ?K = "uint_set_members (acked_set qss)"
  have u: "?N \<union> ?K \<union> \<Union> (chunk_range ` set fl) = {v. unat v < length A}"
    and d: "?N \<inter> ?K = {}" "\<forall>x\<in>set fl. chunk_range x \<inter> (?N \<union> ?K) = {}"
    using t by (auto simp: bytes_tracked_def)
  have "(?N - chunk_range c) \<union> ?K \<union> \<Union> (chunk_range ` set (fl @ [c])) = ?N \<union> ?K \<union> \<Union> (chunk_range ` set fl)"
    using c by auto
  moreover have "\<forall>x\<in>set (fl @ [c]). chunk_range x \<inter> ((?N - chunk_range c) \<union> ?K) = {}"
    using d c by auto
  moreover have "\<forall>x\<in>set fl. chunk_range x \<inter> chunk_range c = {}" using d(2) c by blast
  ultimately show ?thesis
    using t s fr u d(1) unfolding bytes_tracked_def by (auto simp: sorted_wrt_append)
qed

lemma remove_nth_parts:
  assumes "i < length xs"
  shows "xs = take i xs @ xs ! i # drop (Suc i) xs" "set xs = insert (xs ! i) (set (remove_nth i xs))"
proof -
  show e: "xs = take i xs @ xs ! i # drop (Suc i) xs" using assms by (rule id_take_nth_drop)
  show "set xs = insert (xs ! i) (set (remove_nth i xs))"
    unfolding remove_nth_def by (subst e) auto
qed

lemma track_taken:
  assumes t: "bytes_tracked A fl qss" and i: "i < length fl"
  shows "sorted_wrt (\<lambda>c d. chunk_range c \<inter> chunk_range d = {}) (remove_nth i fl)"
    and "x \<in> set (remove_nth i fl) \<Longrightarrow> chunk_range x \<inter> chunk_range (fl ! i) = {}"
proof -
  have "sorted_wrt (\<lambda>c d. chunk_range c \<inter> chunk_range d = {}) (take i fl @ fl ! i # drop (Suc i) fl)"
    using t remove_nth_parts(1) [OF i] by (simp add: bytes_tracked_def)
  then show "sorted_wrt (\<lambda>c d. chunk_range c \<inter> chunk_range d = {}) (remove_nth i fl)"
    "x \<in> set (remove_nth i fl) \<Longrightarrow> chunk_range x \<inter> chunk_range (fl ! i) = {}"
    by (auto simp: remove_nth_def sorted_wrt_append)
qed

lemma track_lost:
  assumes t: "bytes_tracked A fl qss" and i: "i < length fl"
    and s: "uint_set_inv (new_set qss')" "uint_set_members (new_set qss') = uint_set_members (new_set qss) \<union> chunk_range (fl ! i)"
    and fr: "acked_set qss' = acked_set qss" "ctail_offset (ss_ring qss') = ctail_offset (ss_ring qss)"
  shows "bytes_tracked A (remove_nth i fl) qss'"
proof -
  let ?N = "uint_set_members (new_set qss)" and ?K = "uint_set_members (acked_set qss)" and ?C = "chunk_range (fl ! i)"
  note tt = track_taken [OF t i] and st = remove_nth_parts(2) [OF i]
  have u: "?N \<union> ?K \<union> \<Union> (chunk_range ` set fl) = {v. unat v < length A}"
    and d: "?N \<inter> ?K = {}" "\<forall>x\<in>set fl. chunk_range x \<inter> (?N \<union> ?K) = {}"
    using t by (auto simp: bytes_tracked_def)
  have "(?N \<union> ?C) \<union> ?K \<union> \<Union> (chunk_range ` set (remove_nth i fl)) = {v. unat v < length A}"
    using u st by auto
  moreover have "(?N \<union> ?C) \<inter> ?K = {}" using d i by auto
  moreover have "\<forall>x\<in>set (remove_nth i fl). chunk_range x \<inter> ((?N \<union> ?C) \<union> ?K) = {}"
    using d st tt(2) by blast
  ultimately show ?thesis
    using t s fr tt(1) unfolding bytes_tracked_def by simp
qed

lemma track_acked:
  assumes t: "bytes_tracked A fl qss" and i: "i < length fl"
    and s: "uint_set_inv (acked_set qss')" "uint_set_gaps (acked_set qss')"
      "uint_set_members (acked_set qss') = uint_set_members (acked_set qss) \<union> chunk_range (fl ! i)"
    and fr: "new_set qss' = new_set qss" "ctail_offset (ss_ring qss') =
       (case acked_set qss' of [] \<Rightarrow> 0 | h # _ \<Rightarrow> if r_start h = 0 then r_end h + 1 else 0)"
  shows "bytes_tracked A (remove_nth i fl) qss'"
proof -
  let ?N = "uint_set_members (new_set qss)" and ?K = "uint_set_members (acked_set qss)" and ?C = "chunk_range (fl ! i)"
  note tt = track_taken [OF t i] and st = remove_nth_parts(2) [OF i]
  have u: "?N \<union> ?K \<union> \<Union> (chunk_range ` set fl) = {v. unat v < length A}"
    and d: "?N \<inter> ?K = {}" "\<forall>x\<in>set fl. chunk_range x \<inter> (?N \<union> ?K) = {}"
    using t by (auto simp: bytes_tracked_def)
  have "?N \<union> (?K \<union> ?C) \<union> \<Union> (chunk_range ` set (remove_nth i fl)) = {v. unat v < length A}"
    using u st by auto
  moreover have "?N \<inter> (?K \<union> ?C) = {}" using d i by auto
  moreover have "\<forall>x\<in>set (remove_nth i fl). chunk_range x \<inter> (?N \<union> (?K \<union> ?C)) = {}"
    using d st tt(2) by blast
  ultimately show ?thesis
    using t s fr tt(1) unfolding bytes_tracked_def by simp
qed

text \<open>Sending.\<close>

lemma commit_bytes:
  assumes t: "bytes_tracked A fl qss" and z: "z \<in> set (new_set qss)" "r_start z = ck_start c" "ck_start c \<le> ck_end c" "ck_end c \<le> r_end z"
  shows "\<exists>s. ossl_quic_sstream_mark_transmitted mem_ok qss (ck_start c) (ck_end c) = Some (qss\<lparr>new_set := s\<rparr>, True) \<and>
    bytes_tracked A (fl @ [c]) (qss\<lparr>new_set := s\<rparr>)"
proof -
  let ?rg = "\<lparr>r_start = ck_start c, r_end = ck_end c\<rparr>"
  have inv: "uint_set_inv (new_set qss)" using t by (simp add: bytes_tracked_def)
  obtain s where s: "ossl_uint_set_remove mem_ok (new_set qss) ?rg = Some (s, True)" "uint_set_inv s"
      "uint_set_members s = uint_set_members (new_set qss) - chunk_range c"
    using remove_range_prefix [OF inv z(1), of ?rg mem_ok] z(2-4) chunk_range_set [of c] by auto
  have "chunk_range c \<subseteq> uint_set_members (new_set qss)"
  proof
    fix v
    assume "v \<in> chunk_range c"
    then have "r_start z \<le> v" "v \<le> r_end z" using z(2,4) by (auto simp: chunk_range_def)
    then show "v \<in> uint_set_members (new_set qss)" using z(1) by (auto simp: in_uint_set_members)
  qed
  then have "bytes_tracked A (fl @ [c]) (qss\<lparr>new_set := s\<rparr>)"
    using s(2,3) by (intro track_sent [OF t]) simp_all
  then show ?thesis using s(1) by (auto simp: ossl_quic_sstream_mark_transmitted_def)
qed

lemma tracked_frame:
  "bytes_tracked A fl qss \<Longrightarrow> new_set qss' = new_set qss \<Longrightarrow> acked_set qss' = acked_set qss \<Longrightarrow>
   ctail_offset (ss_ring qss') = ctail_offset (ss_ring qss) \<Longrightarrow> bytes_tracked A fl qss'"
  by (simp add: bytes_tracked_def)

lemma commit_inv:
  assumes r: "ring_has A (ss_ring qss)" and t: "bytes_tracked A fl qss" "A \<noteq> []" and f: "frame_spec A qss hdr iov"
    and len: "len \<le> sh_len hdr" and fin: "fin \<longleftrightarrow> sh_is_fin hdr \<and> len = sh_len hdr" "len \<noteq> 0 \<or> fin"
    and c: "c = chunk_of hdr len fin"
  shows "\<exists>qss'. commit_chunk mem_ok qss c = Some (qss', True) \<and> bytes_tracked A (fl @ [c]) qss' \<and>
    ss_ring qss' = ss_ring qss \<and> have_final_size qss' = have_final_size qss \<and>
    (fin \<longrightarrow> sent_final_size qss') \<and> acked_final_size qss' = acked_final_size qss"
proof -
  note b = ring_has_bounds [OF r]
  let ?fin = "\<lambda>q. if fin then q\<lparr>sent_final_size := True\<rparr> else q"
  have le: "unat len \<le> unat (sh_len hdr)" "unat (sh_offset hdr) + unat (sh_len hdr) \<le> length A"
    using len f by (auto simp: u64_nat frame_spec_def)
  have add: "unat (sh_offset hdr + len) = unat (sh_offset hdr) + unat len"
    using le b(3) by (intro unat_u64_add) simp
  have cf: "ck_has_fin c = fin" by (simp add: c chunk_of_def)
  have e: "fin \<Longrightarrow> ck_end c + 1 = head_offset (ss_ring qss) \<and> have_final_size qss"
    using fin add f b(2) u64_unat_inj [of "sh_offset hdr + len" "head_offset (ss_ring qss)"]
    by (auto simp: c chunk_of_def frame_spec_def)
  obtain q where q: "(if ck_end c \<ge> ck_start c then ossl_quic_sstream_mark_transmitted mem_ok qss (ck_start c) (ck_end c)
      else Some (qss, True)) = Some (q, True)" "bytes_tracked A (fl @ [c]) q"
      "ss_ring q = ss_ring qss" "have_final_size q = have_final_size qss" "acked_final_size q = acked_final_size qss"
  proof (cases "len = 0")
    case True
    then have "sh_offset hdr = head_offset (ss_ring qss)" "sh_len hdr = 0" using fin f by (auto simp: frame_spec_def)
    then have lt: "ck_end c < ck_start c"
      using b(2) t(2) True by (simp add: c chunk_of_def u64_nat unat_u64_pred)
    then have "chunk_range c = {}" by (simp add: chunk_range_def)
    then have "bytes_tracked A (fl @ [c]) qss"
      using t(1) by (intro track_sent [OF t(1)]) (simp_all add: bytes_tracked_def)
    moreover have "\<not> ck_start c \<le> ck_end c" using lt by (meson not_le)
    ultimately show ?thesis using that [of qss] by simp
  next
    case False
    then have "sh_len hdr \<noteq> 0" using len by auto
    then obtain z where z: "z \<in> set (new_set qss)" "r_start z = sh_offset hdr" "r_end z = sh_offset hdr + sh_len hdr - 1"
      using f by (auto simp: frame_spec_def)
    have "unat (sh_offset hdr + sh_len hdr) = unat (sh_offset hdr) + unat (sh_len hdr)"
      using le b(3) by (intro unat_u64_add) simp
    moreover have "0 < unat len" using False by (simp add: unat_gt_0)
    ultimately have o: "ck_start c \<le> ck_end c" "ck_end c \<le> r_end z" "r_start z = ck_start c"
      using add le z(3) by (auto simp: c chunk_of_def u64_nat unat_u64_pred z(2))
    show ?thesis
      using commit_bytes [OF t(1) z(1) o(3,1,2), of mem_ok] o(1) that by auto
  qed
  have "commit_chunk mem_ok qss c = Some (?fin q, True)"
    unfolding commit_chunk_def q(1) using q(3,4) e cf by (simp add: ossl_quic_sstream_mark_transmitted_fin_def)
  moreover have "bytes_tracked A (fl @ [c]) (?fin q)" using q(2) by (rule tracked_frame) simp_all
  ultimately show ?thesis using q(3-5) by auto
qed

lemma commit_empty:
  assumes t: "empty_tracked fl qss" "have_final_size qss" "head_offset (ss_ring qss) = 0"
    and c: "c = \<lparr>ck_start = 0, ck_end = UINT64_MAX, ck_has_fin = True\<rparr>"
  shows "\<exists>qss'. commit_chunk mem_ok qss c = Some (qss', True) \<and> empty_tracked (fl @ [c]) qss' \<and>
    ss_ring qss' = ss_ring qss \<and> have_final_size qss' = have_final_size qss \<and> sent_final_size qss' \<and>
    acked_final_size qss' = acked_final_size qss"
proof -
  have "ossl_uint_set_remove mem_ok (new_set qss) full_range = Some ([], True)"
  proof -
    have "new_set qss = [] \<or> new_set qss = [full_range]" using t(1) by (auto simp: empty_tracked_def)
    moreover have "ossl_uint_set_remove mem_ok [] full_range = Some ([], True)"
      "ossl_uint_set_remove mem_ok [full_range] full_range = Some ([], True)"
      by (simp_all add: ossl_uint_set_remove_def full_range_def)
    ultimately show ?thesis by auto
  qed
  then have "commit_chunk mem_ok qss c = Some (qss\<lparr>new_set := [], sent_final_size := True\<rparr>, True)"
    using t c by (simp add: commit_chunk_def ossl_quic_sstream_mark_transmitted_def full_range_def
        ossl_quic_sstream_mark_transmitted_fin_def)
  moreover have "empty_tracked (fl @ [c]) (qss\<lparr>new_set := [], sent_final_size := True\<rparr>)"
    using t c by (auto simp: empty_tracked_def)
  ultimately show ?thesis by simp
qed

text \<open>Acknowledgement and loss.\<close>

lemma cull_ring:
  assumes r: "ring_has A (ss_ring qss)" and t: "bytes_tracked A fl qss"
    and s: "uint_set_inv (acked_set qss')" "uint_set_gaps (acked_set qss')"
      "uint_set_members (acked_set qss) \<subseteq> uint_set_members (acked_set qss')" "\<And>v. v \<in> uint_set_members (acked_set qss') \<Longrightarrow> unat v < length A"
    and q: "ss_ring qss' = ss_ring qss"
  shows "ring_has A (ss_ring (qss_cull qss'))"
    "ctail_offset (ss_ring (qss_cull qss')) = (case acked_set qss' of [] \<Rightarrow> 0 | h # _ \<Rightarrow> if r_start h = 0 then r_end h + 1 else 0)"
proof -
  let ?r = "ss_ring qss"
  note b = ring_has_bounds [OF r]
  have old: "v < ctail_offset ?r \<Longrightarrow> v \<in> uint_set_members (acked_set qss')" for v
    using tail_acked [OF t b(2)] s(3) by blast
  have "ring_has A (ss_ring (qss_cull qss')) \<and>
    ctail_offset (ss_ring (qss_cull qss')) = (case acked_set qss' of [] \<Rightarrow> 0 | h # _ \<Rightarrow> if r_start h = 0 then r_end h + 1 else 0)"
  proof (cases "acked_set qss'")
    case Nil
    then have "ctail_offset ?r = 0" using old [of 0] by (auto simp: word_gt_0)
    then show ?thesis using r q Nil by (simp add: qss_cull_def)
  next
    case (Cons h rest)
    have "h \<in> set (acked_set qss')" using Cons by simp
    then have hi: "r_start h \<le> r_end h" "r_end h \<in> uint_set_members (acked_set qss')"
      using s(1) Cons by (auto simp: in_range_set)
    have e: "unat (r_end h) < length A" using s(4) hi(2) by blast
    then have lt: "r_end h < head_offset ?r" using b(2) by (simp add: u64_nat)
    have em: "r_end h < MAX_OFFSET" "unat (r_end h + 1) = unat (r_end h) + 1"
      using lt b(4) unat_u64_succ [OF lt] by auto
    show ?thesis
    proof (cases "r_start h = 0")
      case False
      have "0 \<notin> uint_set_members (acked_set qss')"
        using False s(1) Cons by (auto simp: in_uint_set_members in_range_set)
      then have "ctail_offset ?r = 0" using old [of 0] by (auto simp: word_gt_0)
      then show ?thesis using r q Cons False by (simp add: qss_cull_def ring_buf_cpop_range_def word_gt_0)
    next
      case True
      have ct: "unat (ctail_offset ?r) \<le> unat (r_end h) + 1"
      proof (cases "ctail_offset ?r = 0")
        case False
        then have p: "unat (ctail_offset ?r - 1) = unat (ctail_offset ?r) - 1" using unat_u64_pred by (simp add: word_gt_0)
        have "0 < unat (ctail_offset ?r)" using False by (simp add: unat_gt_0)
        then have "x < ctail_offset ?r" if "x \<le> ctail_offset ?r - 1" for x
          using that p by (simp add: u64_nat)
        then have "{r_start h..ctail_offset ?r - 1} \<subseteq> uint_set_members (h # rest)"
          using old unfolding Cons by (meson atLeastAtMost_iff subsetI)
        then have "ctail_offset ?r - 1 \<le> r_end h"
          using s(1,2) Cons True by (intro first_range_maximal [of h rest]) auto
        then show ?thesis using p by (simp add: u64_nat)
      qed simp
      note cp = cpop_correct [where cleanse = "ss_cleanse qss'" and start = 0, OF b(1) ct word_zero_le em(1)]
      let ?r' = "ring_buf_cpop_range ?r 0 (r_end h) (ss_cleanse qss')"
      have "head_offset ?r' = head_offset ?r"
        using cp(4) e b(2) by (intro u64_unat_inj) simp
      moreover have "in_window ?r i" if "unat (r_end h) + 1 \<le> i" "i < length A" for i
        using that ct b(1,2) by (auto simp: in_window_def rb_ok_def)
      ultimately have "ring_has A ?r'"
        using r cp(1,2,5) ct by (auto simp: ring_has_def)
      then show ?thesis using cp(2) em(2) q Cons True by (auto simp: qss_cull_def intro: u64_unat_inj)
    qed
  qed
  then show "ring_has A (ss_ring (qss_cull qss'))"
    "ctail_offset (ss_ring (qss_cull qss')) = (case acked_set qss' of [] \<Rightarrow> 0 | h # _ \<Rightarrow> if r_start h = 0 then r_end h + 1 else 0)"
    by auto
qed

lemma qss_cull_frame [simp]:
  "new_set (qss_cull qss) = new_set qss" "acked_set (qss_cull qss) = acked_set qss"
  "have_final_size (qss_cull qss) = have_final_size qss" "sent_final_size (qss_cull qss) = sent_final_size qss"
  "acked_final_size (qss_cull qss) = acked_final_size qss"
  by (simp_all add: qss_cull_def split: list.split)

lemma ack_bytes:
  assumes r: "ring_has A (ss_ring qss)" and t: "bytes_tracked A fl qss" and i: "i < length fl"
    and le: "ck_start (fl ! i) \<le> ck_end (fl ! i)"
    and m: "ossl_quic_sstream_mark_acked mem_ok qss (ck_start (fl ! i)) (ck_end (fl ! i)) = (qss', ok)"
  shows "ring_has A (ss_ring qss') \<and> bytes_tracked A (if ok then remove_nth i fl else fl) qss' \<and>
    have_final_size qss' = have_final_size qss"
proof -
  let ?rg = "\<lparr>r_start = ck_start (fl ! i), r_end = ck_end (fl ! i)\<rparr>"
  have inv: "uint_set_inv (acked_set qss)" "uint_set_gaps (acked_set qss)" using t by (auto simp: bytes_tracked_def)
  have dis: "range_set ?rg \<inter> uint_set_members (acked_set qss) = {}"
    using t i unfolding chunk_range_set bytes_tracked_def by (meson disjoint_iff nth_mem UnCI)
  obtain s ok' where ins: "ossl_uint_set_insert mem_ok (acked_set qss) ?rg = (s, ok')" by fastforce
  note sp = insert_correct [OF inv(1), of ?rg mem_ok, unfolded ins insert_spec_def chunk_range_set]
  have le': "r_start ?rg \<le> r_end ?rg" using le by simp
  have gaps: "uint_set_gaps s" using insert_disjoint_gaps [OF inv le' dis, of mem_ok] ins by simp
  show ?thesis
  proof (cases ok')
    case False
    then have "qss' = qss" "\<not> ok" using m ins sp le by (auto simp: ossl_quic_sstream_mark_acked_def)
    then show ?thesis using r t by simp
  next
    case True
    let ?q = "qss\<lparr>acked_set := s\<rparr>"
    have q: "qss' = qss_cull ?q" "ok" using True m ins by (auto simp: ossl_quic_sstream_mark_acked_def)
    have s: "uint_set_inv s" "uint_set_members s = uint_set_members (acked_set qss) \<union> chunk_range (fl ! i)"
      using True sp le by auto
    have below: "unat v < length A" if "v \<in> uint_set_members s" for v
      using that s(2) nth_mem [OF i] by (intro tracked_below [OF t]) auto
    note cr = cull_ring [OF r t, of ?q]
    have "ring_has A (ss_ring qss')" "ctail_offset (ss_ring qss') = (case s of [] \<Rightarrow> 0 | h # _ \<Rightarrow> if r_start h = 0 then r_end h + 1 else 0)"
      using cr s gaps below q(1) by auto
    moreover from this have "bytes_tracked A (remove_nth i fl) qss'"
      using s gaps q(1) by (intro track_acked [OF t i]) simp_all
    ultimately show ?thesis using q by simp
  qed
qed

lemma set_full_insert:
  "s \<in> {[], [full_range]} \<Longrightarrow> ossl_uint_set_insert mem_ok s full_range = (s', ok) \<Longrightarrow>
   s' \<in> {[], [full_range]} \<and> (ok \<longrightarrow> s' = [full_range])"
  by (auto simp: ossl_uint_set_insert_def create_set_item_def full_range_def split: if_splits)

lemma ack_inv:
  assumes inv: "ss_inv A fl qss" and i: "i < length fl" and a: "ack_chunk mem_ok qss (fl ! i) = (qss', ok)"
  shows "ss_inv A (if ok then remove_nth i fl else fl) qss'" "have_final_size qss' = have_final_size qss"
proof -
  define c where "c = fl ! i"
  obtain q where q: "(if ck_end c \<ge> ck_start c then ossl_quic_sstream_mark_acked mem_ok qss (ck_start c) (ck_end c) else (qss, True)) = (q, ok)"
    and q': "qss' = (if ck_has_fin c then fst (ossl_quic_sstream_mark_acked_fin q) else q)"
    using a unfolding ack_chunk_def c_def [symmetric] by (auto split: prod.splits)
  have fr: "ss_ring qss' = ss_ring q" "new_set qss' = new_set q" "acked_set qss' = acked_set q" "have_final_size qss' = have_final_size q"
    by (simp_all add: q' ossl_quic_sstream_mark_acked_fin_def)
  have r: "ring_has A (ss_ring qss)" using inv by (simp add: ss_inv_def)
  have "ss_inv A (if ok then remove_nth i fl else fl) qss' \<and> have_final_size qss' = have_final_size qss"
  proof (cases "A = []")
    case True
    then have t: "empty_tracked fl qss" using inv by (simp add: ss_inv_def)
    then have c: "c = \<lparr>ck_start = 0, ck_end = UINT64_MAX, ck_has_fin = True\<rparr>" "have_final_size qss" "fl \<noteq> []"
      using nth_mem [OF i] by (auto simp: empty_tracked_def c_def)
    obtain s ok' where ins: "ossl_uint_set_insert mem_ok (acked_set qss) full_range = (s, ok')" by fastforce
    have s: "s \<in> {[], [full_range]}" "ok' \<longrightarrow> s = [full_range]"
      using set_full_insert [OF _ ins] t by (auto simp: empty_tracked_def)
    have "ring_buf_cpop_range (ss_ring qss) 0 UINT64_MAX b = ss_ring qss" for b
      by (simp add: ring_buf_cpop_range_def MAX_OFFSET_def)
    then have "q = qss\<lparr>acked_set := s\<rparr>"
      using q c ins s by (auto simp: ossl_quic_sstream_mark_acked_def qss_cull_def full_range_def Let_def split: if_splits)
    moreover have "set (remove_nth i fl) \<subseteq> set fl" using remove_nth_parts(2) [OF i] by blast
    ultimately show ?thesis
      using True t r fr s c by (auto simp: ss_inv_def empty_tracked_def)
  next
    case False
    then have t: "bytes_tracked A fl qss" using inv by (simp add: ss_inv_def)
    have "ring_has A (ss_ring q) \<and> bytes_tracked A (if ok then remove_nth i fl else fl) q \<and> have_final_size q = have_final_size qss"
    proof (cases "ck_start c \<le> ck_end c")
      case True
      then show ?thesis using ack_bytes [OF r t i] q by (simp add: c_def)
    next
      case no: False
      then have "chunk_range c = {}" "q = qss" ok using q by (auto simp: chunk_range_def)
      moreover from this have "bytes_tracked A (remove_nth i fl) qss"
        using t by (intro track_acked [OF t i]) (auto simp: bytes_tracked_def c_def)
      ultimately show ?thesis using r by simp
    qed
    then show ?thesis using False fr tracked_frame [of A _ q qss'] by (simp add: ss_inv_def)
  qed
  then show "ss_inv A (if ok then remove_nth i fl else fl) qss'" "have_final_size qss' = have_final_size qss" by auto
qed

lemma lose_inv:
  assumes inv: "ss_inv A fl qss" and i: "i < length fl" and a: "lose_chunk mem_ok qss (fl ! i) = (qss', ok)"
  shows "ss_inv A (if ok then remove_nth i fl else fl) qss'" "have_final_size qss' = have_final_size qss"
proof -
  define c where "c = fl ! i"
  obtain q where q: "(if ck_end c \<ge> ck_start c then ossl_quic_sstream_mark_lost mem_ok qss (ck_start c) (ck_end c) else (qss, True)) = (q, ok)"
    and q': "qss' = (if ck_has_fin c then fst (ossl_quic_sstream_mark_lost_fin q) else q)"
    using a unfolding lose_chunk_def c_def [symmetric] by (auto split: prod.splits)
  have fr: "ss_ring qss' = ss_ring q" "new_set qss' = new_set q" "acked_set qss' = acked_set q" "have_final_size qss' = have_final_size q"
    by (simp_all add: q' ossl_quic_sstream_mark_lost_fin_def)
  have r: "ring_has A (ss_ring qss)" using inv by (simp add: ss_inv_def)
  have "ss_inv A (if ok then remove_nth i fl else fl) qss' \<and> have_final_size qss' = have_final_size qss"
  proof (cases "A = []")
    case True
    then have t: "empty_tracked fl qss" using inv by (simp add: ss_inv_def)
    then have c: "c = \<lparr>ck_start = 0, ck_end = UINT64_MAX, ck_has_fin = True\<rparr>" "have_final_size qss" "fl \<noteq> []"
      using nth_mem [OF i] by (auto simp: empty_tracked_def c_def)
    obtain s ok' where ins: "ossl_uint_set_insert mem_ok (new_set qss) full_range = (s, ok')" by fastforce
    have s: "s \<in> {[], [full_range]}" using set_full_insert [OF _ ins] t by (auto simp: empty_tracked_def)
    have "q = qss\<lparr>new_set := s\<rparr>"
      using q c ins by (auto simp: ossl_quic_sstream_mark_lost_def full_range_def)
    moreover have "set (remove_nth i fl) \<subseteq> set fl" using remove_nth_parts(2) [OF i] by blast
    ultimately show ?thesis
      using True t r fr s c by (auto simp: ss_inv_def empty_tracked_def)
  next
    case False
    then have t: "bytes_tracked A fl qss" using inv by (simp add: ss_inv_def)
    then have iv: "uint_set_inv (new_set qss)" by (simp add: bytes_tracked_def)
    have "ring_has A (ss_ring q) \<and> bytes_tracked A (if ok then remove_nth i fl else fl) q \<and> have_final_size q = have_final_size qss"
    proof (cases "ck_start c \<le> ck_end c")
      case True
      let ?rg = "\<lparr>r_start = ck_start c, r_end = ck_end c\<rparr>"
      obtain s where ins: "ossl_uint_set_insert mem_ok (new_set qss) ?rg = (s, ok)" and qs: "q = qss\<lparr>new_set := s\<rparr>"
        using q True by (auto simp: ossl_quic_sstream_mark_lost_def split: prod.splits)
      note sp = insert_correct [OF iv, of ?rg mem_ok, unfolded ins insert_spec_def chunk_range_set]
      show ?thesis
      proof (cases ok)
        case ok: True
        then have "bytes_tracked A (remove_nth i fl) q"
          using sp True qs by (intro track_lost [OF t i]) (auto simp: c_def)
        then show ?thesis using ok r qs by simp
      next
        case False
        then show ?thesis using sp True qs r t by simp
      qed
    next
      case no: False
      then have "chunk_range c = {}" "q = qss" ok using q by (auto simp: chunk_range_def)
      moreover from this have "bytes_tracked A (remove_nth i fl) qss"
        using t by (intro track_lost [OF t i]) (auto simp: bytes_tracked_def c_def)
      ultimately show ?thesis using r by simp
    qed
    then show ?thesis using False fr tracked_frame [of A _ q qss'] by (simp add: ss_inv_def)
  qed
  then show "ss_inv A (if ok then remove_nth i fl else fl) qss'" "have_final_size qss' = have_final_size qss" by auto
qed

end
