(* ===== verification/Stream_Map.thy ===== *)
theory Stream_Map
  imports Quic_Rstream Quic_Sstream "HOL-Library.AList"
begin

text \<open>
  The stream map, \<open>ssl/quic/quic_stream_map.c\<close> and \<open>include/internal/quic_stream_map.h\<close>: the streams of a
  connection, the state machines of their send and receive parts, the queue of active streams that the packetiser
  walks, the accept queue and the bookkeeping of shutdown and deletion. A \<open>QUIC_STREAM\<close> pointer is the id
  under which the stream is in the hash table; the table is an association list in the order in which
  \<open>lh_QUIC_STREAM_doall_arg\<close> visits it. The flow controllers embedded in the streams and those of the
  connection live in the stores of \<open>Quic_Fc\<close> at the address \<open>qs_fc\<close>. The circular lists are lists of ids.
\<close>

section \<open>Streams\<close>

datatype send_state =
    SS_NONE | SS_READY | SS_SEND | SS_DATA_SENT | SS_DATA_RECVD | SS_RESET_SENT | SS_RESET_RECVD

datatype recv_state =
    RS_NONE | RS_RECV | RS_SIZE_KNOWN | RS_DATA_RECVD | RS_DATA_READ | RS_RESET_RECVD | RS_RESET_READ

record QUIC_STREAM =
  qs_id :: u64
  stop_sending_aec :: u64
  reset_stream_aec :: u64
  peer_stop_sending_aec :: u64
  peer_reset_stream_aec :: u64
  send_final_size :: u64
  qs_sstream :: "QUIC_SSTREAM option"
  qs_rstream :: "QUIC_RSTREAM option"
  qs_fc :: nat
  qs_type :: u64
  qs_send_state :: send_state
  qs_recv_state :: recv_state
  qs_active :: bool
  as_server :: bool
  stop_sending :: bool
  peer_stop_sending :: bool
  want_max_stream_data :: bool
  want_stop_sending :: bool
  want_reset_stream :: bool
  acked_stop_sending :: bool
  qs_deleted :: bool
  ready_for_gc :: bool
  shutdown_flush :: bool

definition QUIC_STREAM_INITIATOR_CLIENT :: u64 where
  "QUIC_STREAM_INITIATOR_CLIENT = 0"

definition QUIC_STREAM_INITIATOR_SERVER :: u64 where
  "QUIC_STREAM_INITIATOR_SERVER = 1"

definition QUIC_STREAM_INITIATOR_MASK :: u64 where
  "QUIC_STREAM_INITIATOR_MASK = 1"

definition QUIC_STREAM_DIR_BIDI :: u64 where
  "QUIC_STREAM_DIR_BIDI = 0"

definition QUIC_STREAM_DIR_UNI :: u64 where
  "QUIC_STREAM_DIR_UNI = 2"

definition QUIC_STREAM_DIR_MASK :: u64 where
  "QUIC_STREAM_DIR_MASK = 2"

unbundle bit_operations_syntax

definition ossl_quic_stream_is_server_init :: "QUIC_STREAM \<Rightarrow> bool" where
  "ossl_quic_stream_is_server_init s = (qs_type s AND QUIC_STREAM_INITIATOR_MASK = QUIC_STREAM_INITIATOR_SERVER)"

definition ossl_quic_stream_is_bidi :: "QUIC_STREAM \<Rightarrow> bool" where
  "ossl_quic_stream_is_bidi s = (qs_type s AND QUIC_STREAM_DIR_MASK = QUIC_STREAM_DIR_BIDI)"

definition ossl_quic_stream_is_local_init :: "QUIC_STREAM \<Rightarrow> bool" where
  "ossl_quic_stream_is_local_init s = (ossl_quic_stream_is_server_init s = as_server s)"

definition ossl_quic_stream_has_send :: "QUIC_STREAM \<Rightarrow> bool" where
  "ossl_quic_stream_has_send s = (qs_send_state s \<noteq> SS_NONE)"

definition ossl_quic_stream_has_recv :: "QUIC_STREAM \<Rightarrow> bool" where
  "ossl_quic_stream_has_recv s = (qs_recv_state s \<noteq> RS_NONE)"

definition ossl_quic_stream_has_send_buffer :: "QUIC_STREAM \<Rightarrow> bool" where
  "ossl_quic_stream_has_send_buffer s =
     (case qs_send_state s of SS_READY \<Rightarrow> True | SS_SEND \<Rightarrow> True | SS_DATA_SENT \<Rightarrow> True | _ \<Rightarrow> False)"

definition ossl_quic_stream_send_is_reset :: "QUIC_STREAM \<Rightarrow> bool" where
  "ossl_quic_stream_send_is_reset s = (qs_send_state s = SS_RESET_SENT \<or> qs_send_state s = SS_RESET_RECVD)"

definition ossl_quic_stream_has_recv_buffer :: "QUIC_STREAM \<Rightarrow> bool" where
  "ossl_quic_stream_has_recv_buffer s =
     (case qs_recv_state s of RS_RECV \<Rightarrow> True | RS_SIZE_KNOWN \<Rightarrow> True | RS_DATA_RECVD \<Rightarrow> True | _ \<Rightarrow> False)"

definition ossl_quic_stream_recv_is_reset :: "QUIC_STREAM \<Rightarrow> bool" where
  "ossl_quic_stream_recv_is_reset s = (qs_recv_state s = RS_RESET_RECVD \<or> qs_recv_state s = RS_RESET_READ)"

text \<open>
  In the states in which the code follows \<open>s->sstream\<close> or \<open>s->rstream\<close> the buffer exists, which the invariant
  below shows; where it did not, the definitions give the negative answer.
\<close>

definition ossl_quic_stream_send_get_final_size :: "QUIC_STREAM \<Rightarrow> u64 option" where
  "ossl_quic_stream_send_get_final_size s =
     (case qs_send_state s of
        SS_SEND \<Rightarrow> (case qs_sstream s of None \<Rightarrow> None | Some ss \<Rightarrow> ossl_quic_sstream_get_final_size ss)
      | SS_DATA_SENT \<Rightarrow> Some (send_final_size s)
      | SS_DATA_RECVD \<Rightarrow> Some (send_final_size s)
      | SS_RESET_SENT \<Rightarrow> Some (send_final_size s)
      | SS_RESET_RECVD \<Rightarrow> Some (send_final_size s)
      | _ \<Rightarrow> None)"

definition ossl_quic_stream_recv_get_final_size :: "rxfc_store \<Rightarrow> QUIC_STREAM \<Rightarrow> u64 option" where
  "ossl_quic_stream_recv_get_final_size h s =
     (case qs_recv_state s of
        RS_NONE \<Rightarrow> None
      | RS_RECV \<Rightarrow> None
      | _ \<Rightarrow> ossl_quic_rxfc_get_final_size h (qs_fc s))"

definition ossl_quic_stream_recv_pending :: "QUIC_STREAM \<Rightarrow> bool \<Rightarrow> u64" where
  "ossl_quic_stream_recv_pending s include_fin =
     (if qs_recv_state s = RS_NONE then 0
      else if ossl_quic_stream_has_recv_buffer s then
        (case qs_rstream s of
           None \<Rightarrow> 0
         | Some rs \<Rightarrow> (case ossl_quic_rstream_available rs of (avail, fin) \<Rightarrow>
             if avail = 0 \<and> include_fin \<and> fin then 1 else avail))
      else if qs_recv_state s = RS_RESET_RECVD then (if include_fin then 1 else 0)
      else 0)"

section \<open>The map\<close>

text \<open>
  \<open>get_stream_limit_cb\<close> holds what the callback answers for unidirectional and bidirectional streams;
  \<open>flush_done\<close> counts the calls of \<open>ossl_quic_channel_notify_flush_done\<close>, and \<open>freed_rstreams\<close> keeps the
  receive buffers freed, with the packets they released.
\<close>

record QUIC_STREAM_MAP =
  qsm_map :: "(u64 \<times> QUIC_STREAM) list"
  qsm_is_server :: bool
  active_list :: "u64 list"
  accept_list :: "u64 list"
  ready_for_gc_list :: "u64 list"
  rr_stepping :: u64
  rr_counter :: u64
  num_accept_bidi :: u64
  num_accept_uni :: u64
  num_shutdown_flush :: u64
  rr_cur :: "u64 option"
  get_stream_limit_cb :: "(bool \<Rightarrow> u64) option"
  max_streams_bidi_rxfc :: "nat option"
  max_streams_uni_rxfc :: "nat option"
  tx_mem :: txfc_store
  rx_mem :: rxfc_store
  flush_done :: nat
  freed_rstreams :: "QUIC_RSTREAM list"

text \<open>The circular lists: insertion before the anchor, removal, and the next element after one of the list.\<close>

definition list_insert_tail :: "u64 list \<Rightarrow> u64 \<Rightarrow> u64 list" where
  "list_insert_tail l n = l @ [n]"

definition list_remove :: "u64 list \<Rightarrow> u64 \<Rightarrow> u64 list" where
  "list_remove l n = remove1 n l"

definition list_next :: "u64 list \<Rightarrow> u64 \<Rightarrow> u64 option" where
  "list_next l n =
     (case dropWhile (\<lambda>x. x \<noteq> n) l of
        [] \<Rightarrow> None
      | _ # y # _ \<Rightarrow> Some y
      | [_] \<Rightarrow> Some (hd l))"

definition list_head :: "u64 list \<Rightarrow> u64 option" where
  "list_head l = (case l of [] \<Rightarrow> None | x # _ \<Rightarrow> Some x)"

definition ossl_quic_stream_map_init ::
  "(bool \<Rightarrow> u64) option \<Rightarrow> nat option \<Rightarrow> nat option \<Rightarrow> bool \<Rightarrow> txfc_store \<Rightarrow> rxfc_store \<Rightarrow> QUIC_STREAM_MAP" where
  "ossl_quic_stream_map_init limit_cb bidi_rxfc uni_rxfc is_server tx rx =
     \<lparr>qsm_map = [], qsm_is_server = is_server, active_list = [], accept_list = [], ready_for_gc_list = [],
      rr_stepping = 1, rr_counter = 0, num_accept_bidi = 0, num_accept_uni = 0, num_shutdown_flush = 0,
      rr_cur = None, get_stream_limit_cb = limit_cb, max_streams_bidi_rxfc = bidi_rxfc,
      max_streams_uni_rxfc = uni_rxfc, tx_mem = tx, rx_mem = rx, flush_done = 0, freed_rstreams = []\<rparr>"

definition ossl_quic_stream_map_get_by_id :: "QUIC_STREAM_MAP \<Rightarrow> u64 \<Rightarrow> QUIC_STREAM option" where
  "ossl_quic_stream_map_get_by_id qsm stream_id = map_of (qsm_map qsm) stream_id"

text \<open>A write to the fields of a stream.\<close>

definition put_stream :: "QUIC_STREAM_MAP \<Rightarrow> QUIC_STREAM \<Rightarrow> QUIC_STREAM_MAP" where
  "put_stream qsm s = qsm\<lparr>qsm_map := AList.update (qs_id s) s (qsm_map qsm)\<rparr>"

text \<open>\<open>block\<close> is where \<open>OPENSSL_zalloc\<close> puts the stream; its controllers are zeroed with it.\<close>

definition ossl_quic_stream_map_alloc ::
  "nat option \<Rightarrow> QUIC_STREAM_MAP \<Rightarrow> u64 \<Rightarrow> u64 \<Rightarrow> QUIC_STREAM_MAP \<times> QUIC_STREAM option" where
  "ossl_quic_stream_map_alloc block qsm stream_id type =
     (if ossl_quic_stream_map_get_by_id qsm stream_id \<noteq> None then (qsm, None)
      else case block of
        None \<Rightarrow> (qsm, None)
      | Some fc \<Rightarrow>
          let s = \<lparr>qs_id = stream_id, stop_sending_aec = 0, reset_stream_aec = 0, peer_stop_sending_aec = 0,
                   peer_reset_stream_aec = 0, send_final_size = UINT64_MAX, qs_sstream = None, qs_rstream = None,
                   qs_fc = fc, qs_type = type, qs_send_state = SS_NONE, qs_recv_state = RS_NONE,
                   qs_active = False, as_server = qsm_is_server qsm, stop_sending = False,
                   peer_stop_sending = False, want_max_stream_data = False, want_stop_sending = False,
                   want_reset_stream = False, acked_stop_sending = False, qs_deleted = False,
                   ready_for_gc = False, shutdown_flush = False\<rparr>;
              s = s\<lparr>qs_send_state := if ossl_quic_stream_is_local_init s \<or> ossl_quic_stream_is_bidi s
                                    then SS_READY else SS_NONE,
                    qs_recv_state := if \<not> ossl_quic_stream_is_local_init s \<or> ossl_quic_stream_is_bidi s
                                    then RS_RECV else RS_NONE\<rparr>
          in (put_stream qsm s, Some s))"

definition ossl_quic_stream_map_release :: "QUIC_STREAM_MAP \<Rightarrow> u64 \<Rightarrow> QUIC_STREAM_MAP" where
  "ossl_quic_stream_map_release qsm stream =
     (case ossl_quic_stream_map_get_by_id qsm stream of
        None \<Rightarrow> qsm
      | Some s \<Rightarrow>
          qsm\<lparr>active_list := list_remove (active_list qsm) stream,
              accept_list := list_remove (accept_list qsm) stream,
              ready_for_gc_list := list_remove (ready_for_gc_list qsm) stream,
              freed_rstreams := (case qs_rstream s of None \<Rightarrow> freed_rstreams qsm
                                 | Some rs \<Rightarrow> freed_rstreams qsm @ [ossl_quic_rstream_free rs]),
              qsm_map := AList.delete stream (qsm_map qsm)\<rparr>)"

definition ossl_quic_stream_map_visit ::
  "(QUIC_STREAM_MAP \<Rightarrow> u64 \<Rightarrow> QUIC_STREAM_MAP) \<Rightarrow> QUIC_STREAM_MAP \<Rightarrow> QUIC_STREAM_MAP" where
  "ossl_quic_stream_map_visit visit_cb qsm = foldl visit_cb qsm (map fst (qsm_map qsm))"

definition ossl_quic_stream_map_cleanup :: "QUIC_STREAM_MAP \<Rightarrow> QUIC_STREAM_MAP" where
  "ossl_quic_stream_map_cleanup qsm = ossl_quic_stream_map_visit ossl_quic_stream_map_release qsm"

definition stream_map_mark_active :: "QUIC_STREAM_MAP \<Rightarrow> QUIC_STREAM \<Rightarrow> QUIC_STREAM_MAP" where
  "stream_map_mark_active qsm s =
     (if qs_active s then qsm
      else let qsm = qsm\<lparr>active_list := list_insert_tail (active_list qsm) (qs_id s)\<rparr>;
               qsm = (if rr_cur qsm = None then qsm\<lparr>rr_cur := Some (qs_id s)\<rparr> else qsm)
           in put_stream qsm (s\<lparr>qs_active := True\<rparr>))"

definition stream_map_mark_inactive :: "QUIC_STREAM_MAP \<Rightarrow> QUIC_STREAM \<Rightarrow> QUIC_STREAM_MAP" where
  "stream_map_mark_inactive qsm s =
     (if \<not> qs_active s then qsm
      else let qsm = (if rr_cur qsm = Some (qs_id s)
                      then qsm\<lparr>rr_cur := list_next (active_list qsm) (qs_id s)\<rparr> else qsm);
               qsm = (if rr_cur qsm = Some (qs_id s) then qsm\<lparr>rr_cur := None\<rparr> else qsm);
               qsm = qsm\<lparr>active_list := list_remove (active_list qsm) (qs_id s)\<rparr>
           in put_stream qsm (s\<lparr>qs_active := False\<rparr>))"

definition ossl_quic_stream_map_set_rr_stepping :: "QUIC_STREAM_MAP \<Rightarrow> u64 \<Rightarrow> QUIC_STREAM_MAP" where
  "ossl_quic_stream_map_set_rr_stepping qsm stepping = qsm\<lparr>rr_stepping := stepping, rr_counter := 0\<rparr>"

definition stream_has_data_to_send :: "txfc_store \<Rightarrow> QUIC_STREAM \<Rightarrow> bool" where
  "stream_has_data_to_send h s =
     (if \<not> ossl_quic_stream_has_send_buffer s then False
      else case qs_sstream s of
        None \<Rightarrow> False
      | Some ss \<Rightarrow>
          (case ossl_quic_sstream_get_stream_frame ss 0 2 of
             None \<Rightarrow> False
           | Some (shdr, iov) \<Rightarrow>
               let fc_credit = ossl_quic_txfc_get_credit h (qs_fc s) 0;
                   fc_swm = ossl_quic_txfc_get_swm h (qs_fc s);
                   fc_limit = fc_swm + fc_credit
               in (sh_is_fin shdr \<and> sh_len shdr = 0) \<or> sh_offset shdr < fc_limit))"

definition qsm_send_part_permits_gc :: "QUIC_STREAM \<Rightarrow> bool" where
  "qsm_send_part_permits_gc qs =
     (case qs_send_state qs of SS_NONE \<Rightarrow> True | SS_DATA_RECVD \<Rightarrow> True | SS_RESET_RECVD \<Rightarrow> True | _ \<Rightarrow> False)"

definition qsm_ready_for_gc :: "QUIC_STREAM \<Rightarrow> bool" where
  "qsm_ready_for_gc qs =
     (let recv_stream_fully_drained = False
      in qs_deleted qs \<and>
         (\<not> ossl_quic_stream_has_recv qs \<or> recv_stream_fully_drained \<or> acked_stop_sending qs) \<and>
         (\<not> ossl_quic_stream_has_send qs \<or> qs_send_state qs = SS_DATA_RECVD \<or> qs_send_state qs = SS_RESET_RECVD))"

definition ossl_quic_stream_map_is_local_allowed_by_stream_limit :: "QUIC_STREAM_MAP \<Rightarrow> u64 \<Rightarrow> bool \<Rightarrow> bool" where
  "ossl_quic_stream_map_is_local_allowed_by_stream_limit qsm stream_ordinal is_uni =
     (case get_stream_limit_cb qsm of None \<Rightarrow> True | Some cb \<Rightarrow> stream_ordinal < cb is_uni)"

definition shutdown_flush_done :: "QUIC_STREAM_MAP \<Rightarrow> u64 \<Rightarrow> QUIC_STREAM_MAP" where
  "shutdown_flush_done qsm id' =
     (case ossl_quic_stream_map_get_by_id qsm id' of
        None \<Rightarrow> qsm
      | Some qs \<Rightarrow>
          if \<not> shutdown_flush qs then qsm
          else let qsm = put_stream qsm (qs\<lparr>shutdown_flush := False\<rparr>);
                   qsm = qsm\<lparr>num_shutdown_flush := num_shutdown_flush qsm - 1\<rparr>
               in if num_shutdown_flush qsm = 0 then qsm\<lparr>flush_done := flush_done qsm + 1\<rparr> else qsm)"

definition ossl_quic_stream_map_notify_totally_acked :: "QUIC_STREAM_MAP \<Rightarrow> u64 \<Rightarrow> QUIC_STREAM_MAP \<times> bool" where
  "ossl_quic_stream_map_notify_totally_acked qsm id' =
     (case ossl_quic_stream_map_get_by_id qsm id' of
        None \<Rightarrow> (qsm, False)
      | Some qs \<Rightarrow>
          (case qs_send_state qs of
             SS_DATA_SENT \<Rightarrow>
               (shutdown_flush_done (put_stream qsm (qs\<lparr>qs_send_state := SS_DATA_RECVD, qs_sstream := None\<rparr>)) id', True)
           | _ \<Rightarrow> (qsm, False)))"

text \<open>The condition under which \<open>ossl_quic_stream_map_update_state\<close> makes a stream active.\<close>

definition should_be_active :: "QUIC_STREAM_MAP \<Rightarrow> QUIC_STREAM \<Rightarrow> bool" where
  "should_be_active qsm s =
     (let allowed_by_stream_limit =
            (if ossl_quic_stream_is_server_init s = qsm_is_server qsm
             then ossl_quic_stream_map_is_local_allowed_by_stream_limit qsm (drop_bit 2 (qs_id s)) (\<not> ossl_quic_stream_is_bidi s)
             else True)
      in allowed_by_stream_limit \<and> \<not> ready_for_gc s \<and>
         ((ossl_quic_stream_has_recv s \<and> \<not> ossl_quic_stream_recv_is_reset s \<and>
           (qs_recv_state s = RS_RECV \<and>
            (want_max_stream_data s \<or> snd (ossl_quic_rxfc_has_cwm_changed (rx_mem qsm) (qs_fc s) False)))) \<or>
          want_stop_sending s \<or> want_reset_stream s \<or>
          (\<not> peer_stop_sending s \<and> stream_has_data_to_send (tx_mem qsm) s)))"

definition sstream_totally_acked :: "QUIC_STREAM \<Rightarrow> bool" where
  "sstream_totally_acked s = (case qs_sstream s of None \<Rightarrow> False | Some ss \<Rightarrow> ossl_quic_sstream_is_totally_acked ss)"

text \<open>The first half of the function, up to the decision about deletion, and the whole.\<close>

definition update_flushed :: "QUIC_STREAM_MAP \<Rightarrow> QUIC_STREAM \<Rightarrow> QUIC_STREAM_MAP" where
  "update_flushed qsm s =
     (if qs_send_state s = SS_DATA_SENT \<and> sstream_totally_acked s
      then fst (ossl_quic_stream_map_notify_totally_acked qsm (qs_id s))
      else if shutdown_flush s \<and> qs_send_state s = SS_SEND \<and> sstream_totally_acked s
      then shutdown_flush_done qsm (qs_id s)
      else qsm)"

definition update_gc :: "QUIC_STREAM_MAP \<Rightarrow> QUIC_STREAM \<Rightarrow> QUIC_STREAM_MAP" where
  "update_gc qsm s =
     (if \<not> ready_for_gc s \<and> qsm_ready_for_gc s
      then put_stream (qsm\<lparr>ready_for_gc_list := list_insert_tail (ready_for_gc_list qsm) (qs_id s)\<rparr>) (s\<lparr>ready_for_gc := True\<rparr>)
      else qsm)"

definition update_active :: "QUIC_STREAM_MAP \<Rightarrow> QUIC_STREAM \<Rightarrow> QUIC_STREAM_MAP" where
  "update_active qsm s =
     (if should_be_active qsm s then stream_map_mark_active qsm s else stream_map_mark_inactive qsm s)"

definition on_stream :: "(QUIC_STREAM_MAP \<Rightarrow> QUIC_STREAM \<Rightarrow> QUIC_STREAM_MAP) \<Rightarrow> QUIC_STREAM_MAP \<Rightarrow> u64 \<Rightarrow> QUIC_STREAM_MAP" where
  "on_stream f qsm id' = (case ossl_quic_stream_map_get_by_id qsm id' of None \<Rightarrow> qsm | Some s \<Rightarrow> f qsm s)"

definition ossl_quic_stream_map_update_state :: "QUIC_STREAM_MAP \<Rightarrow> u64 \<Rightarrow> QUIC_STREAM_MAP" where
  "ossl_quic_stream_map_update_state qsm id' =
     on_stream update_active (on_stream update_gc (on_stream update_flushed qsm id') id') id'"

section \<open>The send part\<close>

definition ossl_quic_stream_map_ensure_send_part_id :: "QUIC_STREAM_MAP \<Rightarrow> u64 \<Rightarrow> QUIC_STREAM_MAP \<times> bool" where
  "ossl_quic_stream_map_ensure_send_part_id qsm id' =
     (case ossl_quic_stream_map_get_by_id qsm id' of
        None \<Rightarrow> (qsm, False)
      | Some qs \<Rightarrow>
          (case qs_send_state qs of
             SS_NONE \<Rightarrow> (qsm, False)
           | SS_READY \<Rightarrow> (put_stream qsm (qs\<lparr>qs_send_state := SS_SEND\<rparr>), True)
           | _ \<Rightarrow> (qsm, True)))"

definition ossl_quic_stream_map_notify_all_data_sent :: "QUIC_STREAM_MAP \<Rightarrow> u64 \<Rightarrow> QUIC_STREAM_MAP \<times> bool" where
  "ossl_quic_stream_map_notify_all_data_sent qsm id' =
     (case ossl_quic_stream_map_get_by_id qsm id' of
        None \<Rightarrow> (qsm, False)
      | Some qs \<Rightarrow>
          (case qs_send_state qs of
             SS_SEND \<Rightarrow>
               (case qs_sstream qs of
                  None \<Rightarrow> (qsm, False)
                | Some ss \<Rightarrow>
                    (case ossl_quic_sstream_get_final_size ss of
                       None \<Rightarrow> (qsm, False)
                     | Some n \<Rightarrow> (put_stream qsm (qs\<lparr>send_final_size := n, qs_send_state := SS_DATA_SENT\<rparr>), True)))
           | _ \<Rightarrow> (qsm, False)))"

text \<open>What is common to the three states from which a send part is reset.\<close>

definition reset_sent :: "QUIC_STREAM_MAP \<Rightarrow> QUIC_STREAM \<Rightarrow> u64 \<Rightarrow> QUIC_STREAM_MAP" where
  "reset_sent qsm qs aec =
     (let qsm = put_stream qsm (qs\<lparr>reset_stream_aec := aec, want_reset_stream := True, qs_send_state := SS_RESET_SENT,
                                   qs_sstream := None\<rparr>);
          qsm = shutdown_flush_done qsm (qs_id qs)
      in ossl_quic_stream_map_update_state qsm (qs_id qs))"

definition ossl_quic_stream_map_reset_stream_send_part :: "QUIC_STREAM_MAP \<Rightarrow> u64 \<Rightarrow> u64 \<Rightarrow> QUIC_STREAM_MAP \<times> bool" where
  "ossl_quic_stream_map_reset_stream_send_part qsm id' aec =
     (case ossl_quic_stream_map_get_by_id qsm id' of
        None \<Rightarrow> (qsm, False)
      | Some qs \<Rightarrow>
          (case qs_send_state qs of
             SS_NONE \<Rightarrow> (qsm, False)
           | SS_DATA_RECVD \<Rightarrow> (qsm, False)
           | SS_READY \<Rightarrow>
               (case ossl_quic_stream_map_ensure_send_part_id qsm id' of (qsm, ok) \<Rightarrow>
                  if \<not> ok then (qsm, False)
                  else case ossl_quic_stream_map_get_by_id qsm id' of
                    None \<Rightarrow> (qsm, False)
                  | Some qs \<Rightarrow>
                      (reset_sent qsm (qs\<lparr>send_final_size := ossl_quic_txfc_get_swm (tx_mem qsm) (qs_fc qs)\<rparr>) aec, True))
           | SS_SEND \<Rightarrow>
               (reset_sent qsm (qs\<lparr>send_final_size := ossl_quic_txfc_get_swm (tx_mem qsm) (qs_fc qs)\<rparr>) aec, True)
           | SS_DATA_SENT \<Rightarrow> (reset_sent qsm qs aec, True)
           | SS_RESET_SENT \<Rightarrow> (qsm, True)
           | SS_RESET_RECVD \<Rightarrow> (qsm, True)))"

definition ossl_quic_stream_map_notify_reset_stream_acked :: "QUIC_STREAM_MAP \<Rightarrow> u64 \<Rightarrow> QUIC_STREAM_MAP \<times> bool" where
  "ossl_quic_stream_map_notify_reset_stream_acked qsm id' =
     (case ossl_quic_stream_map_get_by_id qsm id' of
        None \<Rightarrow> (qsm, False)
      | Some qs \<Rightarrow>
          (case qs_send_state qs of
             SS_RESET_SENT \<Rightarrow> (put_stream qsm (qs\<lparr>qs_send_state := SS_RESET_RECVD\<rparr>), True)
           | SS_RESET_RECVD \<Rightarrow> (qsm, True)
           | _ \<Rightarrow> (qsm, False)))"

section \<open>The receive part\<close>

definition ossl_quic_stream_map_notify_size_known_recv_part :: "QUIC_STREAM_MAP \<Rightarrow> u64 \<Rightarrow> u64 \<Rightarrow> QUIC_STREAM_MAP \<times> bool" where
  "ossl_quic_stream_map_notify_size_known_recv_part qsm id' final_size =
     (case ossl_quic_stream_map_get_by_id qsm id' of
        None \<Rightarrow> (qsm, False)
      | Some qs \<Rightarrow>
          (case qs_recv_state qs of
             RS_RECV \<Rightarrow> (put_stream qsm (qs\<lparr>qs_recv_state := RS_SIZE_KNOWN\<rparr>), True)
           | _ \<Rightarrow> (qsm, False)))"

definition ossl_quic_stream_map_notify_totally_received :: "QUIC_STREAM_MAP \<Rightarrow> u64 \<Rightarrow> QUIC_STREAM_MAP \<times> bool" where
  "ossl_quic_stream_map_notify_totally_received qsm id' =
     (case ossl_quic_stream_map_get_by_id qsm id' of
        None \<Rightarrow> (qsm, False)
      | Some qs \<Rightarrow>
          (case qs_recv_state qs of
             RS_SIZE_KNOWN \<Rightarrow>
               (put_stream qsm (qs\<lparr>qs_recv_state := RS_DATA_RECVD, want_stop_sending := False\<rparr>), True)
           | _ \<Rightarrow> (qsm, False)))"

definition free_rstream :: "QUIC_STREAM_MAP \<Rightarrow> QUIC_STREAM \<Rightarrow> QUIC_STREAM_MAP" where
  "free_rstream qsm qs =
     (case qs_rstream qs of
        None \<Rightarrow> qsm
      | Some rs \<Rightarrow> qsm\<lparr>freed_rstreams := freed_rstreams qsm @ [ossl_quic_rstream_free rs]\<rparr>)"

definition ossl_quic_stream_map_notify_totally_read :: "QUIC_STREAM_MAP \<Rightarrow> u64 \<Rightarrow> QUIC_STREAM_MAP \<times> bool" where
  "ossl_quic_stream_map_notify_totally_read qsm id' =
     (case ossl_quic_stream_map_get_by_id qsm id' of
        None \<Rightarrow> (qsm, False)
      | Some qs \<Rightarrow>
          (case qs_recv_state qs of
             RS_DATA_RECVD \<Rightarrow>
               (put_stream (free_rstream qsm qs) (qs\<lparr>qs_recv_state := RS_DATA_READ, qs_rstream := None\<rparr>), True)
           | _ \<Rightarrow> (qsm, False)))"

definition ossl_quic_stream_map_notify_reset_recv_part ::
  "QUIC_STREAM_MAP \<Rightarrow> u64 \<Rightarrow> u64 \<Rightarrow> u64 \<Rightarrow> QUIC_STREAM_MAP \<times> bool" where
  "ossl_quic_stream_map_notify_reset_recv_part qsm id' app_error_code final_size =
     (case ossl_quic_stream_map_get_by_id qsm id' of
        None \<Rightarrow> (qsm, False)
      | Some qs \<Rightarrow>
          if qs_recv_state qs = RS_NONE then (qsm, False)
          else if ossl_quic_stream_has_recv_buffer qs then
            (if (case ossl_quic_stream_recv_get_final_size (rx_mem qsm) qs of
                   None \<Rightarrow> False | Some prev_final_size \<Rightarrow> prev_final_size \<noteq> final_size)
             then (qsm, False)
             else (ossl_quic_stream_map_update_state
                     (put_stream (free_rstream qsm qs)
                        (qs\<lparr>qs_recv_state := RS_RESET_RECVD, peer_reset_stream_aec := app_error_code,
                            want_stop_sending := False, qs_rstream := None\<rparr>)) id', True))
          else (qsm, True))"

definition ossl_quic_stream_map_notify_app_read_reset_recv_part :: "QUIC_STREAM_MAP \<Rightarrow> u64 \<Rightarrow> QUIC_STREAM_MAP \<times> bool" where
  "ossl_quic_stream_map_notify_app_read_reset_recv_part qsm id' =
     (case ossl_quic_stream_map_get_by_id qsm id' of
        None \<Rightarrow> (qsm, False)
      | Some qs \<Rightarrow>
          (case qs_recv_state qs of
             RS_RESET_RECVD \<Rightarrow> (put_stream qsm (qs\<lparr>qs_recv_state := RS_RESET_READ\<rparr>), True)
           | _ \<Rightarrow> (qsm, False)))"

definition ossl_quic_stream_map_schedule_stop_sending :: "QUIC_STREAM_MAP \<Rightarrow> u64 \<Rightarrow> QUIC_STREAM_MAP \<times> bool" where
  "ossl_quic_stream_map_schedule_stop_sending qsm id' =
     (case ossl_quic_stream_map_get_by_id qsm id' of
        None \<Rightarrow> (qsm, False)
      | Some qs \<Rightarrow>
          if \<not> stop_sending qs then (qsm, False)
          else if want_stop_sending qs then (qsm, True)
          else if qs_recv_state qs = RS_RECV \<or> qs_recv_state qs = RS_SIZE_KNOWN
          then (ossl_quic_stream_map_update_state (put_stream qsm (qs\<lparr>want_stop_sending := True\<rparr>)) id', True)
          else (qsm, True))"

definition ossl_quic_stream_map_stop_sending_recv_part :: "QUIC_STREAM_MAP \<Rightarrow> u64 \<Rightarrow> u64 \<Rightarrow> QUIC_STREAM_MAP \<times> bool" where
  "ossl_quic_stream_map_stop_sending_recv_part qsm id' aec =
     (case ossl_quic_stream_map_get_by_id qsm id' of
        None \<Rightarrow> (qsm, False)
      | Some qs \<Rightarrow>
          if stop_sending qs then (qsm, False)
          else if qs_recv_state qs = RS_RECV \<or> qs_recv_state qs = RS_SIZE_KNOWN
          then ossl_quic_stream_map_schedule_stop_sending
                 (put_stream qsm (qs\<lparr>stop_sending := True, stop_sending_aec := aec\<rparr>)) id'
          else (qsm, False))"

section \<open>The accept queue\<close>

definition ossl_quic_stream_map_peek_accept_queue :: "QUIC_STREAM_MAP \<Rightarrow> u64 option" where
  "ossl_quic_stream_map_peek_accept_queue qsm = list_head (accept_list qsm)"

definition ossl_quic_stream_map_get_accept_queue_len :: "QUIC_STREAM_MAP \<Rightarrow> bool \<Rightarrow> u64" where
  "ossl_quic_stream_map_get_accept_queue_len qsm is_uni = (if is_uni then num_accept_uni qsm else num_accept_bidi qsm)"

definition ossl_quic_stream_map_get_total_accept_queue_len :: "QUIC_STREAM_MAP \<Rightarrow> u64" where
  "ossl_quic_stream_map_get_total_accept_queue_len qsm =
     ossl_quic_stream_map_get_accept_queue_len qsm False + ossl_quic_stream_map_get_accept_queue_len qsm True"

definition id_is_bidi :: "QUIC_STREAM_MAP \<Rightarrow> u64 \<Rightarrow> bool" where
  "id_is_bidi qsm id' = (case ossl_quic_stream_map_get_by_id qsm id' of None \<Rightarrow> False | Some s \<Rightarrow> ossl_quic_stream_is_bidi s)"

text \<open>
  The walk of \<open>ossl_quic_stream_map_find_in_accept_queue\<close> through the circular list, from the element \<open>qs\<close>:
  \<open>accept_next\<close> of the last element is the first one again, so that the walk ends only at a match. \<open>n\<close>
  bounds the number of steps; \<open>None\<close> stands for a walk that has not ended by then.
\<close>

fun find_walk :: "nat \<Rightarrow> QUIC_STREAM_MAP \<Rightarrow> bool \<Rightarrow> u64 option \<Rightarrow> u64 option option" where
  "find_walk n qsm is_uni None = Some None"
| "find_walk 0 qsm is_uni (Some qs) = None"
| "find_walk (Suc n) qsm is_uni (Some qs) =
     (if is_uni \<and> \<not> id_is_bidi qsm qs \<or> \<not> is_uni \<and> id_is_bidi qsm qs then Some (Some qs)
      else find_walk n qsm is_uni (list_next (accept_list qsm) qs))"

definition ossl_quic_stream_map_find_in_accept_queue :: "nat \<Rightarrow> QUIC_STREAM_MAP \<Rightarrow> bool \<Rightarrow> u64 option option" where
  "ossl_quic_stream_map_find_in_accept_queue n qsm is_uni =
     (if ossl_quic_stream_map_get_accept_queue_len qsm is_uni = 0 then Some None
      else find_walk n qsm is_uni (ossl_quic_stream_map_peek_accept_queue qsm))"

definition ossl_quic_stream_map_push_accept_queue :: "QUIC_STREAM_MAP \<Rightarrow> QUIC_STREAM \<Rightarrow> QUIC_STREAM_MAP" where
  "ossl_quic_stream_map_push_accept_queue qsm s =
     (let qsm = qsm\<lparr>accept_list := list_insert_tail (accept_list qsm) (qs_id s)\<rparr>
      in if ossl_quic_stream_is_bidi s then qsm\<lparr>num_accept_bidi := num_accept_bidi qsm + 1\<rparr>
         else qsm\<lparr>num_accept_uni := num_accept_uni qsm + 1\<rparr>)"

definition qsm_get_max_streams_rxfc :: "QUIC_STREAM_MAP \<Rightarrow> QUIC_STREAM \<Rightarrow> nat option" where
  "qsm_get_max_streams_rxfc qsm s =
     (if ossl_quic_stream_is_bidi s then max_streams_bidi_rxfc qsm else max_streams_uni_rxfc qsm)"

definition ossl_quic_stream_map_remove_from_accept_queue ::
  "OSSL_TIME \<Rightarrow> QUIC_STREAM_MAP \<Rightarrow> QUIC_STREAM \<Rightarrow> OSSL_TIME \<Rightarrow> QUIC_STREAM_MAP" where
  "ossl_quic_stream_map_remove_from_accept_queue now qsm s rtt =
     (let qsm = qsm\<lparr>accept_list := list_remove (accept_list qsm) (qs_id s)\<rparr>;
          qsm = (if ossl_quic_stream_is_bidi s then qsm\<lparr>num_accept_bidi := num_accept_bidi qsm - 1\<rparr>
                 else qsm\<lparr>num_accept_uni := num_accept_uni qsm - 1\<rparr>)
      in case qsm_get_max_streams_rxfc qsm s of
           None \<Rightarrow> qsm
         | Some fc \<Rightarrow> qsm\<lparr>rx_mem := fst (ossl_quic_rxfc_on_retire now (rx_mem qsm) fc 1 rtt)\<rparr>)"

section \<open>Deletion and shutdown\<close>

text \<open>
  The loop of \<open>ossl_quic_stream_map_gc\<close>: it runs while \<open>qs\<close> is a stream other than the one it started from.
  \<open>n\<close> bounds the rounds as in \<open>find_walk\<close>.
\<close>

fun gc_loop :: "nat \<Rightarrow> QUIC_STREAM_MAP \<Rightarrow> u64 option \<Rightarrow> u64 option \<Rightarrow> QUIC_STREAM_MAP option" where
  "gc_loop n qsm qs_head None = Some qsm"
| "gc_loop 0 qsm qs_head (Some qs) = (if Some qs = qs_head then Some qsm else None)"
| "gc_loop (Suc n) qsm qs_head (Some qs) =
     (if Some qs = qs_head then Some qsm
      else let qsn = list_next (ready_for_gc_list qsm) qs
           in gc_loop n (ossl_quic_stream_map_release qsm qs) qs_head qsn)"

definition ossl_quic_stream_map_gc :: "nat \<Rightarrow> QUIC_STREAM_MAP \<Rightarrow> QUIC_STREAM_MAP option" where
  "ossl_quic_stream_map_gc n qsm =
     (let qs_head = list_head (ready_for_gc_list qsm) in gc_loop n qsm qs_head qs_head)"

definition eligible_for_shutdown_flush :: "QUIC_STREAM \<Rightarrow> bool" where
  "eligible_for_shutdown_flush qs =
     (case qs_send_state qs of
        SS_SEND \<Rightarrow> \<not> sstream_totally_acked qs
      | SS_DATA_SENT \<Rightarrow> \<not> sstream_totally_acked qs
      | _ \<Rightarrow> False)"

definition begin_shutdown_flush_each :: "QUIC_STREAM_MAP \<Rightarrow> u64 \<Rightarrow> QUIC_STREAM_MAP" where
  "begin_shutdown_flush_each qsm id' =
     (case ossl_quic_stream_map_get_by_id qsm id' of
        None \<Rightarrow> qsm
      | Some qs \<Rightarrow>
          if \<not> eligible_for_shutdown_flush qs \<or> shutdown_flush qs then qsm
          else put_stream (qsm\<lparr>num_shutdown_flush := num_shutdown_flush qsm + 1\<rparr>) (qs\<lparr>shutdown_flush := True\<rparr>))"

definition ossl_quic_stream_map_begin_shutdown_flush :: "QUIC_STREAM_MAP \<Rightarrow> QUIC_STREAM_MAP" where
  "ossl_quic_stream_map_begin_shutdown_flush qsm =
     ossl_quic_stream_map_visit begin_shutdown_flush_each (qsm\<lparr>num_shutdown_flush := 0\<rparr>)"

definition ossl_quic_stream_map_is_shutdown_flush_finished :: "QUIC_STREAM_MAP \<Rightarrow> bool" where
  "ossl_quic_stream_map_is_shutdown_flush_finished qsm = (num_shutdown_flush qsm = 0)"

section \<open>The iterator\<close>

record QUIC_STREAM_ITER =
  it_first_stream :: "u64 option"
  it_stream :: "u64 option"

definition ossl_quic_stream_iter_init :: "QUIC_STREAM_MAP \<Rightarrow> bool \<Rightarrow> QUIC_STREAM_MAP \<times> QUIC_STREAM_ITER" where
  "ossl_quic_stream_iter_init qsm advance_rr =
     (let it = \<lparr>it_first_stream = rr_cur qsm, it_stream = rr_cur qsm\<rparr>
      in case it_stream it of
           None \<Rightarrow> (qsm, it)
         | Some s \<Rightarrow>
             if \<not> advance_rr then (qsm, it)
             else let qsm = qsm\<lparr>rr_counter := rr_counter qsm + 1\<rparr>
                  in if rr_counter qsm \<ge> rr_stepping qsm
                     then (qsm\<lparr>rr_counter := 0, rr_cur := list_next (active_list qsm) s\<rparr>, it)
                     else (qsm, it))"

definition ossl_quic_stream_iter_next :: "QUIC_STREAM_MAP \<Rightarrow> QUIC_STREAM_ITER \<Rightarrow> QUIC_STREAM_ITER" where
  "ossl_quic_stream_iter_next qsm it =
     (case it_stream it of
        None \<Rightarrow> it
      | Some s \<Rightarrow>
          let it = it\<lparr>it_stream := list_next (active_list qsm) s\<rparr>
          in if it_stream it = it_first_stream it then it\<lparr>it_stream := None\<rparr> else it)"

end
