(* ===== verification/Stream_Inv.thy ===== *)
theory Stream_Inv
  imports Stream_Map
begin

text \<open>
  What every operation of the stream map keeps: the lists agree with the flags of the streams and the counters with
  the lists, a stream has its buffers exactly in the states in which the code follows them, and the send and receive
  parts move only along the transitions of the state machines of RFC 9000 s. 3.
\<close>

section \<open>The state machines\<close>

inductive send_edge :: "send_state \<Rightarrow> send_state \<Rightarrow> bool" where
  send_first: "send_edge SS_READY SS_SEND"
| send_all: "send_edge SS_SEND SS_DATA_SENT"
| send_acked: "send_edge SS_DATA_SENT SS_DATA_RECVD"
| send_reset: "send_edge SS_SEND SS_RESET_SENT"
| send_reset_late: "send_edge SS_DATA_SENT SS_RESET_SENT"
| send_reset_acked: "send_edge SS_RESET_SENT SS_RESET_RECVD"

inductive recv_edge :: "recv_state \<Rightarrow> recv_state \<Rightarrow> bool" where
  recv_fin: "recv_edge RS_RECV RS_SIZE_KNOWN"
| recv_all: "recv_edge RS_SIZE_KNOWN RS_DATA_RECVD"
| recv_read: "recv_edge RS_DATA_RECVD RS_DATA_READ"
| recv_reset: "recv_edge RS_RECV RS_RESET_RECVD"
| recv_reset_known: "recv_edge RS_SIZE_KNOWN RS_RESET_RECVD"
| recv_reset_recvd: "recv_edge RS_DATA_RECVD RS_RESET_RECVD"
| recv_reset_read: "recv_edge RS_RESET_RECVD RS_RESET_READ"

inductive_cases send_edge_from: "send_edge a b"
inductive_cases recv_edge_from: "recv_edge a b"

definition moves :: "QUIC_STREAM \<Rightarrow> QUIC_STREAM \<Rightarrow> bool" where
  "moves s s' \<longleftrightarrow> send_edge\<^sup>*\<^sup>* (qs_send_state s) (qs_send_state s') \<and> recv_edge\<^sup>*\<^sup>* (qs_recv_state s) (qs_recv_state s') \<and>
     qs_id s' = qs_id s \<and> qs_type s' = qs_type s \<and> as_server s' = as_server s"

lemma moves_refl [simp, intro]: "moves s s"
  unfolding moves_def by simp

lemma moves_trans: "moves a b \<Longrightarrow> moves b c \<Longrightarrow> moves a c"
  unfolding moves_def by (auto intro: rtranclp_trans)

lemma moves_quiet:
  "qs_id s' = qs_id s \<Longrightarrow> qs_type s' = qs_type s \<Longrightarrow> as_server s' = as_server s \<Longrightarrow>
   qs_send_state s' = qs_send_state s \<Longrightarrow> qs_recv_state s' = qs_recv_state s \<Longrightarrow> moves s s'"
  unfolding moves_def by simp

lemma moves_send:
  "send_edge (qs_send_state s) (qs_send_state s') \<Longrightarrow> qs_id s' = qs_id s \<Longrightarrow> qs_type s' = qs_type s \<Longrightarrow>
   as_server s' = as_server s \<Longrightarrow> qs_recv_state s' = qs_recv_state s \<Longrightarrow> moves s s'"
  unfolding moves_def by simp

lemma moves_recv:
  "recv_edge (qs_recv_state s) (qs_recv_state s') \<Longrightarrow> qs_id s' = qs_id s \<Longrightarrow> qs_type s' = qs_type s \<Longrightarrow>
   as_server s' = as_server s \<Longrightarrow> qs_send_state s' = qs_send_state s \<Longrightarrow> moves s s'"
  unfolding moves_def by simp

definition map_moves :: "QUIC_STREAM_MAP \<Rightarrow> QUIC_STREAM_MAP \<Rightarrow> bool" where
  "map_moves qsm qsm' \<longleftrightarrow>
     (\<forall>k s. ossl_quic_stream_map_get_by_id qsm k = Some s \<longrightarrow>
        (\<exists>s'. ossl_quic_stream_map_get_by_id qsm' k = Some s' \<and> moves s s'))"

lemma map_moves_refl [simp, intro]: "map_moves qsm qsm"
  unfolding map_moves_def by auto

lemma map_moves_trans: "map_moves a b \<Longrightarrow> map_moves b c \<Longrightarrow> map_moves a c"
  unfolding map_moves_def by (meson moves_trans)

lemma map_moves_D:
  assumes "map_moves qsm qsm'" "ossl_quic_stream_map_get_by_id qsm k = Some s"
  obtains s' where "ossl_quic_stream_map_get_by_id qsm' k = Some s'" "moves s s'"
  using assms unfolding map_moves_def by blast

section \<open>The map as a finite function\<close>

lemma get_put [simp]:
  "ossl_quic_stream_map_get_by_id (put_stream qsm s) k =
     (if k = qs_id s then Some s else ossl_quic_stream_map_get_by_id qsm k)"
  unfolding ossl_quic_stream_map_get_by_id_def put_stream_def by (auto simp: update_conv)

lemma put_frame [simp]:
  "active_list (put_stream qsm s) = active_list qsm"
  "accept_list (put_stream qsm s) = accept_list qsm"
  "ready_for_gc_list (put_stream qsm s) = ready_for_gc_list qsm"
  "rr_cur (put_stream qsm s) = rr_cur qsm"
  "num_accept_bidi (put_stream qsm s) = num_accept_bidi qsm"
  "num_accept_uni (put_stream qsm s) = num_accept_uni qsm"
  "num_shutdown_flush (put_stream qsm s) = num_shutdown_flush qsm"
  "tx_mem (put_stream qsm s) = tx_mem qsm"
  "rx_mem (put_stream qsm s) = rx_mem qsm"
  "qsm_is_server (put_stream qsm s) = qsm_is_server qsm"
  "get_stream_limit_cb (put_stream qsm s) = get_stream_limit_cb qsm"
  "flush_done (put_stream qsm s) = flush_done qsm"
  "freed_rstreams (put_stream qsm s) = freed_rstreams qsm"
  "max_streams_bidi_rxfc (put_stream qsm s) = max_streams_bidi_rxfc qsm"
  "max_streams_uni_rxfc (put_stream qsm s) = max_streams_uni_rxfc qsm"
  unfolding put_stream_def by simp_all

lemma get_frame [simp]:
  "ossl_quic_stream_map_get_by_id (qsm\<lparr>active_list := l\<rparr>) k = ossl_quic_stream_map_get_by_id qsm k"
  "ossl_quic_stream_map_get_by_id (qsm\<lparr>accept_list := l\<rparr>) k = ossl_quic_stream_map_get_by_id qsm k"
  "ossl_quic_stream_map_get_by_id (qsm\<lparr>ready_for_gc_list := l\<rparr>) k = ossl_quic_stream_map_get_by_id qsm k"
  "ossl_quic_stream_map_get_by_id (qsm\<lparr>rr_cur := c\<rparr>) k = ossl_quic_stream_map_get_by_id qsm k"
  "ossl_quic_stream_map_get_by_id (qsm\<lparr>rr_counter := n\<rparr>) k = ossl_quic_stream_map_get_by_id qsm k"
  "ossl_quic_stream_map_get_by_id (qsm\<lparr>rr_stepping := n\<rparr>) k = ossl_quic_stream_map_get_by_id qsm k"
  "ossl_quic_stream_map_get_by_id (qsm\<lparr>num_accept_bidi := n\<rparr>) k = ossl_quic_stream_map_get_by_id qsm k"
  "ossl_quic_stream_map_get_by_id (qsm\<lparr>num_accept_uni := n\<rparr>) k = ossl_quic_stream_map_get_by_id qsm k"
  "ossl_quic_stream_map_get_by_id (qsm\<lparr>num_shutdown_flush := n\<rparr>) k = ossl_quic_stream_map_get_by_id qsm k"
  "ossl_quic_stream_map_get_by_id (qsm\<lparr>tx_mem := tx\<rparr>) k = ossl_quic_stream_map_get_by_id qsm k"
  "ossl_quic_stream_map_get_by_id (qsm\<lparr>rx_mem := rx\<rparr>) k = ossl_quic_stream_map_get_by_id qsm k"
  "ossl_quic_stream_map_get_by_id (qsm\<lparr>flush_done := d\<rparr>) k = ossl_quic_stream_map_get_by_id qsm k"
  "ossl_quic_stream_map_get_by_id (qsm\<lparr>freed_rstreams := f\<rparr>) k = ossl_quic_stream_map_get_by_id qsm k"
  unfolding ossl_quic_stream_map_get_by_id_def by simp_all

lemma keys_put:
  assumes "ossl_quic_stream_map_get_by_id qsm (qs_id s) \<noteq> None"
  shows "map fst (qsm_map (put_stream qsm s)) = map fst (qsm_map qsm)"
  using assms map_of_eq_None_iff [of "qsm_map qsm" "qs_id s"]
  unfolding ossl_quic_stream_map_get_by_id_def put_stream_def by (simp add: update_keys)

lemma keys_put_new:
  assumes "ossl_quic_stream_map_get_by_id qsm (qs_id s) = None"
  shows "map fst (qsm_map (put_stream qsm s)) = map fst (qsm_map qsm) @ [qs_id s]"
  using assms map_of_eq_None_iff [of "qsm_map qsm" "qs_id s"]
  unfolding ossl_quic_stream_map_get_by_id_def put_stream_def by (simp add: update_keys)

text \<open>The ids of the streams with a property.\<close>

definition marked :: "(QUIC_STREAM \<Rightarrow> bool) \<Rightarrow> QUIC_STREAM_MAP \<Rightarrow> u64 set" where
  "marked P qsm = {k. case ossl_quic_stream_map_get_by_id qsm k of None \<Rightarrow> False | Some s \<Rightarrow> P s}"

lemma marked_iff: "k \<in> marked P qsm \<longleftrightarrow> (\<exists>s. ossl_quic_stream_map_get_by_id qsm k = Some s \<and> P s)"
  unfolding marked_def by (auto split: option.splits)

lemma marked_put:
  "marked P (put_stream qsm s) = (if P s then insert (qs_id s) (marked P qsm) else marked P qsm - {qs_id s})"
  by (auto simp: marked_iff split: if_splits)

lemma marked_put_same:
  assumes "ossl_quic_stream_map_get_by_id qsm (qs_id s') = Some s" "P s' = P s"
  shows "marked P (put_stream qsm s') = marked P qsm"
  using assms by (auto simp: marked_iff split: if_splits)

lemma marked_cong:
  "(\<And>k. ossl_quic_stream_map_get_by_id q k = ossl_quic_stream_map_get_by_id q' k) \<Longrightarrow> marked P q = marked P q'"
  unfolding marked_def by simp

lemma finite_marked [simp]: "finite (marked P qsm)"
proof (rule finite_subset)
  show "marked P qsm \<subseteq> dom (map_of (qsm_map qsm))"
    unfolding marked_def ossl_quic_stream_map_get_by_id_def by (auto split: option.splits)
qed (rule finite_dom_map_of)

section \<open>The invariant\<close>

definition stream_ok :: "QUIC_STREAM \<Rightarrow> bool" where
  "stream_ok s \<longleftrightarrow>
     (qs_sstream s \<noteq> None) = ossl_quic_stream_has_send_buffer s \<and>
     (qs_rstream s \<noteq> None) = ossl_quic_stream_has_recv_buffer s \<and>
     (qs_send_state s = SS_NONE) = (\<not> ossl_quic_stream_is_local_init s \<and> \<not> ossl_quic_stream_is_bidi s) \<and>
     (qs_recv_state s = RS_NONE) = (ossl_quic_stream_is_local_init s \<and> \<not> ossl_quic_stream_is_bidi s) \<and>
     (shutdown_flush s \<longrightarrow> qs_send_state s = SS_SEND \<or> qs_send_state s = SS_DATA_SENT) \<and>
     (ready_for_gc s \<longrightarrow> qsm_ready_for_gc s)"

definition queue_exact :: "(QUIC_STREAM \<Rightarrow> bool) \<Rightarrow> u64 list \<Rightarrow> QUIC_STREAM_MAP \<Rightarrow> bool" where
  "queue_exact P l qsm \<longleftrightarrow> distinct l \<and> set l = marked P qsm"

definition rr_ok :: "u64 option \<Rightarrow> u64 list \<Rightarrow> bool" where
  "rr_ok cur l \<longleftrightarrow> (case cur of None \<Rightarrow> l = [] | Some k \<Rightarrow> k \<in> set l)"

definition accept_ok :: "QUIC_STREAM_MAP \<Rightarrow> bool" where
  "accept_ok qsm \<longleftrightarrow> distinct (accept_list qsm) \<and> set (accept_list qsm) \<subseteq> marked (\<lambda>s. True) qsm \<and>
     num_accept_bidi qsm = of_nat (length (filter (id_is_bidi qsm) (accept_list qsm))) \<and>
     num_accept_uni qsm = of_nat (length (filter (\<lambda>k. \<not> id_is_bidi qsm k) (accept_list qsm)))"

definition sm_ok :: "QUIC_STREAM_MAP \<Rightarrow> bool" where
  "sm_ok qsm \<longleftrightarrow>
     distinct (map fst (qsm_map qsm)) \<and>
     (\<forall>k s. ossl_quic_stream_map_get_by_id qsm k = Some s \<longrightarrow>
        qs_id s = k \<and> as_server s = qsm_is_server qsm \<and> stream_ok s) \<and>
     queue_exact qs_active (active_list qsm) qsm \<and>
     queue_exact ready_for_gc (ready_for_gc_list qsm) qsm \<and>
     rr_ok (rr_cur qsm) (active_list qsm) \<and> accept_ok qsm \<and>
     num_shutdown_flush qsm = of_nat (card (marked shutdown_flush qsm))"

lemma sm_ok_get:
  assumes "sm_ok qsm" "ossl_quic_stream_map_get_by_id qsm k = Some s"
  shows "qs_id s = k" "as_server s = qsm_is_server qsm" "stream_ok s"
  using assms unfolding sm_ok_def by auto

text \<open>An operation is sound when it keeps the invariant and moves streams along the machines only.\<close>

definition sound :: "QUIC_STREAM_MAP \<Rightarrow> QUIC_STREAM_MAP \<Rightarrow> bool" where
  "sound qsm qsm' \<longleftrightarrow> (sm_ok qsm \<longrightarrow> sm_ok qsm' \<and> map_moves qsm qsm')"

lemma sound_refl [simp, intro]: "sound qsm qsm"
  unfolding sound_def by simp

lemma sound_trans [trans]: "sound a b \<Longrightarrow> sound b c \<Longrightarrow> sound a c"
  unfolding sound_def by (meson map_moves_trans)

lemma soundI: "(sm_ok qsm \<Longrightarrow> sm_ok qsm' \<and> map_moves qsm qsm') \<Longrightarrow> sound qsm qsm'"
  unfolding sound_def by simp

lemma id_is_bidi_same:
  assumes "ossl_quic_stream_map_get_by_id qsm (qs_id s') = Some s" "qs_type s' = qs_type s"
  shows "id_is_bidi (put_stream qsm s') = id_is_bidi qsm"
  using assms unfolding id_is_bidi_def by (auto simp: fun_eq_iff ossl_quic_stream_is_bidi_def)

lemma get_by_map:
  "qsm_map q' = qsm_map q \<Longrightarrow> ossl_quic_stream_map_get_by_id q' = ossl_quic_stream_map_get_by_id q"
  unfolding ossl_quic_stream_map_get_by_id_def by (simp add: fun_eq_iff)

lemma marked_by_map:
  assumes "qsm_map q' = qsm_map q"
  shows "marked P q' = marked P q"
  unfolding marked_def get_by_map [OF assms] by (rule refl)

lemma bidi_by_map:
  assumes "qsm_map q' = qsm_map q"
  shows "id_is_bidi q' = id_is_bidi q"
  unfolding id_is_bidi_def [abs_def] get_by_map [OF assms] by (rule refl)

section \<open>Writing one stream\<close>

text \<open>
  The one place where the invariant is established: the stream \<open>s\<close> becomes \<open>s'\<close>, and the lists, the cursor and the
  count of flushes of the new state \<open>q'\<close> follow its flags.
\<close>

definition follows :: "bool \<Rightarrow> u64 \<Rightarrow> u64 list \<Rightarrow> u64 list \<Rightarrow> bool" where
  "follows flag k l l' \<longleftrightarrow> distinct l' \<and> set l' = (if flag then insert k (set l) else set l - {k})"

lemma write_one_stream:
  assumes ok: "sm_ok qsm" and g: "ossl_quic_stream_map_get_by_id qsm (qs_id s') = Some s"
    and mv: "moves s s'" and so: "stream_ok s'"
    and q: "qsm_map q' = qsm_map (put_stream qsm s')" "accept_list q' = accept_list qsm"
      "num_accept_bidi q' = num_accept_bidi qsm" "num_accept_uni q' = num_accept_uni qsm"
      "qsm_is_server q' = qsm_is_server qsm"
    and act: "follows (qs_active s') (qs_id s') (active_list qsm) (active_list q')"
    and gc: "follows (ready_for_gc s') (qs_id s') (ready_for_gc_list qsm) (ready_for_gc_list q')"
    and rr: "rr_ok (rr_cur q') (active_list q')"
    and fl: "num_shutdown_flush q' = of_nat (card (marked shutdown_flush (put_stream qsm s')))"
  shows "sm_ok q' \<and> map_moves qsm q'"
proof -
  note by_map = get_by_map [OF q(1)] marked_by_map [OF q(1)] bidi_by_map [OF q(1)]
  have ty: "qs_type s' = qs_type s" and sv: "as_server s' = as_server s" using mv unfolding moves_def by auto
  have 1: "distinct (map fst (qsm_map q'))" using ok g by (simp add: q keys_put sm_ok_def)
  have 2: "\<forall>k s. ossl_quic_stream_map_get_by_id q' k = Some s \<longrightarrow>
      qs_id s = k \<and> as_server s = qsm_is_server q' \<and> stream_ok s"
    using ok so sm_ok_get [OF ok g] sv by (auto simp: by_map q sm_ok_def)
  have 3: "queue_exact qs_active (active_list q') q'" "queue_exact ready_for_gc (ready_for_gc_list q') q'"
    using ok act gc by (simp_all add: by_map sm_ok_def queue_exact_def follows_def marked_put)
  have "marked (\<lambda>s. True) q' = marked (\<lambda>s. True) qsm" by (simp add: by_map marked_put_same [OF g])
  then have 4: "accept_ok q'"
    using ok by (simp add: sm_ok_def accept_ok_def q by_map id_is_bidi_same [OF g ty])
  have 5: "map_moves qsm q'" using g mv by (auto simp: map_moves_def by_map)
  have 6: "num_shutdown_flush q' = of_nat (card (marked shutdown_flush q'))" unfolding fl by (simp only: by_map)
  show ?thesis unfolding sm_ok_def by (intro conjI) (fact 1 2 3 rr 4 6 5)+
qed

lemma follows_same:
  assumes "sm_ok qsm" "ossl_quic_stream_map_get_by_id qsm k = Some s"
  shows "qs_active s = a \<Longrightarrow> follows a k (active_list qsm) (active_list qsm)"
    "ready_for_gc s = r \<Longrightarrow> follows r k (ready_for_gc_list qsm) (ready_for_gc_list qsm)"
  using assms by (auto simp: sm_ok_def queue_exact_def follows_def marked_iff)

lemma rr_same: "sm_ok qsm \<Longrightarrow> rr_ok (rr_cur qsm) (active_list qsm)"
  unfolding sm_ok_def by simp

lemma flush_same:
  assumes "sm_ok qsm" "ossl_quic_stream_map_get_by_id qsm (qs_id s') = Some s" "shutdown_flush s' = shutdown_flush s"
  shows "num_shutdown_flush qsm = of_nat (card (marked shutdown_flush (put_stream qsm s')))"
  using assms by (simp add: sm_ok_def marked_put_same)

lemma flush_cleared:
  assumes ok: "sm_ok qsm" and g: "ossl_quic_stream_map_get_by_id qsm (qs_id s') = Some s"
    and "shutdown_flush s" "\<not> shutdown_flush s'"
  shows "num_shutdown_flush qsm - 1 = of_nat (card (marked shutdown_flush (put_stream qsm s')))"
proof -
  have m: "qs_id s' \<in> marked shutdown_flush qsm" using g assms(3) by (auto simp: marked_iff)
  then obtain n where n: "card (marked shutdown_flush qsm) = Suc n"
    by (metis card_Suc_Diff1 finite_marked)
  show ?thesis using ok m n assms(4) by (simp add: sm_ok_def marked_put)
qed

lemma flush_raised:
  assumes ok: "sm_ok qsm" and g: "ossl_quic_stream_map_get_by_id qsm (qs_id s') = Some s"
    and "\<not> shutdown_flush s" "shutdown_flush s'"
  shows "num_shutdown_flush qsm + 1 = of_nat (card (marked shutdown_flush (put_stream qsm s')))"
proof -
  have "qs_id s' \<notin> marked shutdown_flush qsm" using g assms(3) by (auto simp: marked_iff)
  then show ?thesis using ok assms(4) by (simp add: sm_ok_def marked_put add.commute)
qed

text \<open>A write that leaves the flags alone; what the memory of the controllers and the freed buffers hold is free.\<close>

lemma write_quiet:
  assumes ok: "sm_ok qsm" and g: "ossl_quic_stream_map_get_by_id qsm (qs_id s') = Some s"
    and mv: "moves s s'" and so: "stream_ok s'"
    and fl: "qs_active s' = qs_active s" "ready_for_gc s' = ready_for_gc s" "shutdown_flush s' = shutdown_flush s"
  shows "sm_ok (put_stream qsm s') \<and> map_moves qsm (put_stream qsm s')"
proof (rule write_one_stream [OF ok g mv so])
  show "num_shutdown_flush (put_stream qsm s') = of_nat (card (marked shutdown_flush (put_stream qsm s')))"
    using flush_same [OF ok g fl(3)] by simp
qed (use follows_same [OF ok g] rr_same [OF ok] fl in simp_all)

lemma free_fields:
  assumes "qsm_map q' = qsm_map qsm" "accept_list q' = accept_list qsm" "active_list q' = active_list qsm"
    "ready_for_gc_list q' = ready_for_gc_list qsm" "rr_cur q' = rr_cur qsm"
    "num_accept_bidi q' = num_accept_bidi qsm" "num_accept_uni q' = num_accept_uni qsm"
    "num_shutdown_flush q' = num_shutdown_flush qsm" "qsm_is_server q' = qsm_is_server qsm"
  shows "sound qsm q'" "sm_ok q' = sm_ok qsm"
proof -
  note by_map = get_by_map [OF assms(1)] marked_by_map [OF assms(1)] bidi_by_map [OF assms(1)]
  show ok: "sm_ok q' = sm_ok qsm"
    unfolding sm_ok_def accept_ok_def queue_exact_def by (simp add: assms by_map)
  have "map_moves qsm q'" unfolding map_moves_def by (auto simp: by_map)
  then show "sound qsm q'" unfolding sound_def by (simp add: ok)
qed

lemma alist_update_same: "map_of al k = Some v \<Longrightarrow> AList.update k v al = al"
  by (induction al) auto

lemma put_same [simp]: "ossl_quic_stream_map_get_by_id qsm (qs_id s) = Some s \<Longrightarrow> put_stream qsm s = qsm"
  unfolding ossl_quic_stream_map_get_by_id_def put_stream_def by (simp add: alist_update_same)

lemma put_put [simp]: "qs_id s' = qs_id s \<Longrightarrow> put_stream (put_stream qsm s) s' = put_stream qsm s'"
  unfolding put_stream_def by (simp add: update_last)

text \<open>The rules that decide \<open>stream_ok\<close> of a stream with updated fields.\<close>

lemmas stream_ok_defs = stream_ok_def ossl_quic_stream_has_send_buffer_def ossl_quic_stream_has_recv_buffer_def
  ossl_quic_stream_is_local_init_def ossl_quic_stream_is_server_init_def ossl_quic_stream_is_bidi_def
  qsm_ready_for_gc_def ossl_quic_stream_has_recv_def ossl_quic_stream_has_send_def

section \<open>Flushing at shutdown\<close>

lemma put_flush_done:
  assumes ok: "sm_ok qsm" and g: "ossl_quic_stream_map_get_by_id qsm (qs_id s') = Some s"
    and mv: "moves s s'" and so: "stream_ok (s'\<lparr>shutdown_flush := False\<rparr>)"
    and fl: "qs_active s' = qs_active s" "ready_for_gc s' = ready_for_gc s" "shutdown_flush s' = shutdown_flush s"
  defines "q' \<equiv> shutdown_flush_done (put_stream qsm s') (qs_id s')"
  shows "sm_ok q' \<and> map_moves qsm q'"
proof (cases "shutdown_flush s'")
  case False
  then have "s'\<lparr>shutdown_flush := False\<rparr> = s'" by (cases s') simp
  then have "stream_ok s'" using so by metis
  then show ?thesis using write_quiet [OF ok g mv _ fl] False by (simp add: q'_def shutdown_flush_done_def)
next
  case True
  let ?s = "s'\<lparr>shutdown_flush := False\<rparr>"
  have g': "ossl_quic_stream_map_get_by_id qsm (qs_id ?s) = Some s" using g by simp
  have mv': "moves s ?s" using mv by (simp add: moves_def)
  have q: "qsm_map q' = qsm_map (put_stream qsm ?s)" "num_shutdown_flush q' = num_shutdown_flush qsm - 1"
    "accept_list q' = accept_list qsm" "active_list q' = active_list qsm" "ready_for_gc_list q' = ready_for_gc_list qsm"
    "rr_cur q' = rr_cur qsm" "num_accept_bidi q' = num_accept_bidi qsm" "num_accept_uni q' = num_accept_uni qsm"
    "qsm_is_server q' = qsm_is_server qsm"
    using True by (simp_all add: q'_def shutdown_flush_done_def Let_def)
  show ?thesis
    by (rule write_one_stream [OF ok g' mv' so])
      (use follows_same [OF ok g] rr_same [OF ok] flush_cleared [OF ok g'] fl True in \<open>simp_all add: q\<close>)
qed

lemma flush_done_keeps:
  assumes "sm_ok qsm"
  shows "sm_ok (shutdown_flush_done qsm k) \<and> map_moves qsm (shutdown_flush_done qsm k)"
proof (cases "ossl_quic_stream_map_get_by_id qsm k")
  case None
  then show ?thesis using assms by (simp add: shutdown_flush_done_def)
next
  case (Some s)
  note s = sm_ok_get [OF assms Some]
  have "stream_ok (s\<lparr>shutdown_flush := False\<rparr>)" using s(3) by (auto simp: stream_ok_defs)
  then show ?thesis using put_flush_done [of qsm s s] assms Some s(1) by simp
qed

lemma flush_done_frame:
  "tx_mem (shutdown_flush_done qsm k) = tx_mem qsm" "rx_mem (shutdown_flush_done qsm k) = rx_mem qsm"
  "get_stream_limit_cb (shutdown_flush_done qsm k) = get_stream_limit_cb qsm"
  unfolding shutdown_flush_done_def by (simp_all add: Let_def split: option.split)

section \<open>Updating the state of a stream\<close>

lemma notify_totally_acked_keeps:
  assumes ok: "sm_ok qsm"
  shows "sm_ok (fst (ossl_quic_stream_map_notify_totally_acked qsm k)) \<and>
    map_moves qsm (fst (ossl_quic_stream_map_notify_totally_acked qsm k))"
proof (cases "ossl_quic_stream_map_get_by_id qsm k")
  case None
  then show ?thesis using ok by (simp add: ossl_quic_stream_map_notify_totally_acked_def)
next
  case (Some s)
  note s = sm_ok_get [OF ok Some]
  show ?thesis
  proof (cases "qs_send_state s = SS_DATA_SENT")
    case True
    let ?s = "s\<lparr>qs_send_state := SS_DATA_RECVD, qs_sstream := None\<rparr>"
    have mv: "moves s ?s" using True by (intro moves_send) (simp_all add: send_edge.intros)
    have so: "stream_ok (?s\<lparr>shutdown_flush := False\<rparr>)" using s(3) True by (auto simp: stream_ok_defs)
    have eq: "fst (ossl_quic_stream_map_notify_totally_acked qsm k) = shutdown_flush_done (put_stream qsm ?s) (qs_id ?s)"
      using Some True s(1) by (simp add: ossl_quic_stream_map_notify_totally_acked_def)
    show ?thesis unfolding eq by (rule put_flush_done [OF ok _ mv so]) (use Some s(1) in simp_all)
  next
    case False
    then show ?thesis using ok Some
      by (simp add: ossl_quic_stream_map_notify_totally_acked_def split: send_state.split)
  qed
qed

lemma update_flushed_keeps:
  assumes "sm_ok qsm" "ossl_quic_stream_map_get_by_id qsm k = Some s"
  shows "sm_ok (update_flushed qsm s) \<and> map_moves qsm (update_flushed qsm s)"
  using assms notify_totally_acked_keeps [OF assms(1)] flush_done_keeps [OF assms(1)] by (simp add: update_flushed_def)

lemma update_gc_keeps:
  assumes ok: "sm_ok qsm" and g: "ossl_quic_stream_map_get_by_id qsm k = Some s"
  shows "sm_ok (update_gc qsm s) \<and> map_moves qsm (update_gc qsm s)"
proof (cases "\<not> ready_for_gc s \<and> qsm_ready_for_gc s")
  case True
  let ?s = "s\<lparr>ready_for_gc := True\<rparr>"
  note s = sm_ok_get [OF ok g]
  have g': "ossl_quic_stream_map_get_by_id qsm (qs_id ?s) = Some s" using g s by simp
  have mv: "moves s ?s" by (rule moves_quiet) simp_all
  have so: "stream_ok ?s" using s(3) True by (auto simp: stream_ok_defs)
  have "qs_id s \<notin> set (ready_for_gc_list qsm)"
    using ok g s True by (auto simp: sm_ok_def queue_exact_def marked_iff)
  then have "follows True (qs_id s) (ready_for_gc_list qsm) (ready_for_gc_list qsm @ [qs_id s])"
    using ok by (auto simp: follows_def sm_ok_def queue_exact_def)
  then show ?thesis
    using write_one_stream [OF ok g' mv so, of "update_gc qsm s"] follows_same(1) [OF ok g] rr_same [OF ok]
      flush_same [OF ok g'] True s
    by (simp add: update_gc_def list_insert_tail_def put_stream_def)
next
  case False
  then show ?thesis using ok by (simp only: update_gc_def if_False simp_thms map_moves_refl)
qed

lemma list_next_split:
  assumes "x \<notin> set as"
  shows "list_next (as @ x # bs) x = Some (case bs of [] \<Rightarrow> hd (as @ [x]) | y # _ \<Rightarrow> y)"
proof -
  have "dropWhile (\<lambda>y. y \<noteq> x) (as @ x # bs) = x # bs" using assms by (induction as) auto
  then show ?thesis by (cases bs) (simp_all add: list_next_def)
qed

lemma list_next_mem:
  assumes "x \<in> set l"
  obtains y where "list_next l x = Some y" "y \<in> set l" "y = x \<longrightarrow> distinct l \<longrightarrow> l = [x]"
proof -
  obtain as bs where l: "l = as @ x # bs" "x \<notin> set as" using split_list_first [OF assms] by blast
  let ?y = "case bs of [] \<Rightarrow> hd (as @ [x]) | y # _ \<Rightarrow> y"
  have "list_next l x = Some ?y" using list_next_split [OF l(2)] l(1) by simp
  moreover have "?y \<in> set l" using l(1) by (cases bs; cases as) auto
  moreover have "?y = x \<longrightarrow> distinct l \<longrightarrow> l = [x]" using l by (cases bs; cases as) auto
  ultimately show thesis using that by blast
qed

lemma mark_active_keeps:
  assumes ok: "sm_ok qsm" and g: "ossl_quic_stream_map_get_by_id qsm k = Some s"
  shows "sm_ok (stream_map_mark_active qsm s) \<and> map_moves qsm (stream_map_mark_active qsm s)"
proof (cases "qs_active s")
  case False
  let ?s = "s\<lparr>qs_active := True\<rparr>" and ?q = "stream_map_mark_active qsm s"
  note s = sm_ok_get [OF ok g]
  have g': "ossl_quic_stream_map_get_by_id qsm (qs_id ?s) = Some s" using g s by simp
  have mv: "moves s ?s" by (rule moves_quiet) simp_all
  have so: "stream_ok ?s" using s(3) by (auto simp: stream_ok_defs)
  have q: "qsm_map ?q = qsm_map (put_stream qsm ?s)" "num_shutdown_flush ?q = num_shutdown_flush qsm"
    "accept_list ?q = accept_list qsm" "active_list ?q = active_list qsm @ [k]" "ready_for_gc_list ?q = ready_for_gc_list qsm"
    "rr_cur ?q = (if rr_cur qsm = None then Some k else rr_cur qsm)" "num_accept_bidi ?q = num_accept_bidi qsm"
    "num_accept_uni ?q = num_accept_uni qsm" "qsm_is_server ?q = qsm_is_server qsm"
    using False s by (simp_all add: stream_map_mark_active_def Let_def put_stream_def list_insert_tail_def)
  have "k \<notin> set (active_list qsm)" using ok g s False by (auto simp: sm_ok_def queue_exact_def marked_iff)
  then have "follows True k (active_list qsm) (active_list qsm @ [k])"
    using ok by (auto simp: follows_def sm_ok_def queue_exact_def)
  moreover have "rr_ok (if rr_cur qsm = None then Some k else rr_cur qsm) (active_list qsm @ [k])"
    using rr_same [OF ok] by (auto simp: rr_ok_def split: option.splits)
  ultimately show ?thesis
    by (intro write_one_stream [OF ok g' mv so])
      (use follows_same(2) [OF ok g] flush_same [OF ok g'] s(1) in \<open>simp_all add: q\<close>)
qed (use ok in \<open>simp add: stream_map_mark_active_def\<close>)

lemma rr_ok_remove:
  assumes rr: "rr_ok c l" and d: "distinct l" and k: "k \<in> set l"
  defines "c1 \<equiv> if c = Some k then list_next l k else c"
  shows "rr_ok (if c1 = Some k then None else c1) (remove1 k l)"
proof (cases "c = Some k")
  case True
  obtain y where y: "list_next l k = Some y" "y \<in> set l" "y = k \<longrightarrow> l = [k]" using list_next_mem [OF k] d by blast
  then show ?thesis using True d by (auto simp: c1_def rr_ok_def)
next
  case False
  then show ?thesis using rr d k by (cases c) (auto simp: c1_def rr_ok_def)
qed

lemma mark_inactive_keeps:
  assumes ok: "sm_ok qsm" and g: "ossl_quic_stream_map_get_by_id qsm k = Some s"
  shows "sm_ok (stream_map_mark_inactive qsm s) \<and> map_moves qsm (stream_map_mark_inactive qsm s)"
proof (cases "qs_active s")
  case True
  let ?s = "s\<lparr>qs_active := False\<rparr>" and ?q = "stream_map_mark_inactive qsm s"
  let ?c = "if rr_cur qsm = Some k then list_next (active_list qsm) k else rr_cur qsm"
  note s = sm_ok_get [OF ok g]
  have g': "ossl_quic_stream_map_get_by_id qsm (qs_id ?s) = Some s" using g s by simp
  have mv: "moves s ?s" by (rule moves_quiet) simp_all
  have so: "stream_ok ?s" using s(3) by (auto simp: stream_ok_defs)
  have q: "qsm_map ?q = qsm_map (put_stream qsm ?s)" "num_shutdown_flush ?q = num_shutdown_flush qsm"
    "accept_list ?q = accept_list qsm" "active_list ?q = remove1 k (active_list qsm)"
    "ready_for_gc_list ?q = ready_for_gc_list qsm"
    "rr_cur ?q = (if ?c = Some k then None else ?c)" "num_accept_bidi ?q = num_accept_bidi qsm"
    "num_accept_uni ?q = num_accept_uni qsm" "qsm_is_server ?q = qsm_is_server qsm"
    using True s by (simp_all add: stream_map_mark_inactive_def Let_def put_stream_def list_remove_def)
  have a: "distinct (active_list qsm)" "k \<in> set (active_list qsm)"
    using ok g True by (auto simp: sm_ok_def queue_exact_def marked_iff)
  then have "follows False k (active_list qsm) (remove1 k (active_list qsm))" by (auto simp: follows_def)
  then show ?thesis
    by (intro write_one_stream [OF ok g' mv so])
      (use follows_same(2) [OF ok g] flush_same [OF ok g'] s(1) rr_ok_remove [OF rr_same [OF ok] a] in \<open>simp_all only: q\<close>,
       simp_all)
qed (use ok in \<open>simp add: stream_map_mark_inactive_def\<close>)

lemma update_active_keeps:
  assumes "sm_ok qsm" "ossl_quic_stream_map_get_by_id qsm k = Some s"
  shows "sm_ok (update_active qsm s) \<and> map_moves qsm (update_active qsm s)"
  using mark_active_keeps [OF assms] mark_inactive_keeps [OF assms] by (simp add: update_active_def)

lemma on_stream_sound:
  assumes "\<And>qsm s. sm_ok qsm \<Longrightarrow> ossl_quic_stream_map_get_by_id qsm k = Some s \<Longrightarrow> sm_ok (f qsm s) \<and> map_moves qsm (f qsm s)"
  shows "sound qsm (on_stream f qsm k)"
  using assms unfolding sound_def on_stream_def by (auto split: option.split)

lemma update_state_sound: "sound qsm (ossl_quic_stream_map_update_state qsm k)"
proof -
  have "sound qsm (on_stream update_flushed qsm k)" for qsm by (rule on_stream_sound) (rule update_flushed_keeps)
  moreover have "sound qsm (on_stream update_gc qsm k)" for qsm by (rule on_stream_sound) (rule update_gc_keeps)
  moreover have "sound qsm (on_stream update_active qsm k)" for qsm by (rule on_stream_sound) (rule update_active_keeps)
  ultimately show ?thesis unfolding ossl_quic_stream_map_update_state_def by (meson sound_trans)
qed

section \<open>Every operation is sound\<close>

lemma on_id:
  assumes "\<And>s. ossl_quic_stream_map_get_by_id qsm k = Some s \<Longrightarrow> qs_id s = k \<Longrightarrow> stream_ok s \<Longrightarrow> sound qsm (fst (f s))"
  shows "sound qsm (fst (case ossl_quic_stream_map_get_by_id qsm k of None \<Rightarrow> (qsm, b) | Some s \<Rightarrow> f s))"
  using assms unfolding sound_def by (auto simp: sm_ok_get split: option.split)

lemma put_sound:
  assumes "ossl_quic_stream_map_get_by_id qsm (qs_id s') = Some s" "moves s s'" "stream_ok s'"
    "qs_active s' = qs_active s" "ready_for_gc s' = ready_for_gc s" "shutdown_flush s' = shutdown_flush s"
  shows "sound qsm (put_stream qsm s')"
  unfolding sound_def using write_quiet [OF _ assms] by blast

lemma put_free_sound:
  assumes "sound qsm (put_stream qsm s')"
  shows "sound qsm (put_stream (free_rstream qsm s) s')"
proof -
  have "sound (put_stream qsm s') (put_stream (free_rstream qsm s) s')"
    by (rule free_fields) (simp_all add: free_rstream_def put_stream_def split: option.split)
  with assms show ?thesis by (rule sound_trans)
qed

lemma ensure_send_part_sound: "sound qsm (fst (ossl_quic_stream_map_ensure_send_part_id qsm k))"
  unfolding ossl_quic_stream_map_ensure_send_part_id_def
proof (rule on_id, goal_cases)
  case (1 s)
  have "sound qsm (put_stream qsm (s\<lparr>qs_send_state := SS_SEND\<rparr>))" if "qs_send_state s = SS_READY"
    using that 1 by (intro put_sound [where s = s]) (auto simp: send_edge.intros moves_send stream_ok_defs)
  then show ?case by (cases "qs_send_state s") simp_all
qed

lemma notify_all_data_sent_sound: "sound qsm (fst (ossl_quic_stream_map_notify_all_data_sent qsm k))"
  unfolding ossl_quic_stream_map_notify_all_data_sent_def
proof (rule on_id, goal_cases)
  case (1 s)
  have "sound qsm (put_stream qsm (s\<lparr>send_final_size := n, qs_send_state := SS_DATA_SENT\<rparr>))"
    if "qs_send_state s = SS_SEND" for n
    using that 1 by (intro put_sound [where s = s]) (auto simp: send_edge.intros moves_send stream_ok_defs)
  then show ?case by (cases "qs_send_state s") (simp_all split: option.split)
qed

lemma notify_reset_stream_acked_sound: "sound qsm (fst (ossl_quic_stream_map_notify_reset_stream_acked qsm k))"
  unfolding ossl_quic_stream_map_notify_reset_stream_acked_def
proof (rule on_id, goal_cases)
  case (1 s)
  have "sound qsm (put_stream qsm (s\<lparr>qs_send_state := SS_RESET_RECVD\<rparr>))" if "qs_send_state s = SS_RESET_SENT"
    using that 1 by (intro put_sound [where s = s]) (auto simp: send_edge.intros moves_send stream_ok_defs)
  then show ?case by (cases "qs_send_state s") simp_all
qed

lemma notify_totally_acked_sound: "sound qsm (fst (ossl_quic_stream_map_notify_totally_acked qsm k))"
  unfolding sound_def using notify_totally_acked_keeps by blast

lemma reset_sent_sound:
  assumes g: "ossl_quic_stream_map_get_by_id qsm k = Some s"
    and st: "qs_send_state s = SS_SEND \<or> qs_send_state s = SS_DATA_SENT"
  shows "sound qsm (reset_sent qsm (s\<lparr>send_final_size := n\<rparr>) aec)"
proof -
  let ?s = "s\<lparr>send_final_size := n, reset_stream_aec := aec, want_reset_stream := True, qs_send_state := SS_RESET_SENT,
    qs_sstream := None\<rparr>"
  have "sound qsm (shutdown_flush_done (put_stream qsm ?s) (qs_id ?s))"
  proof (rule soundI, rule put_flush_done)
    assume ok: "sm_ok qsm"
    note s = sm_ok_get [OF ok g]
    show "ossl_quic_stream_map_get_by_id qsm (qs_id ?s) = Some s" using g s by simp
    show "moves s ?s" using st by (intro moves_send) (auto intro: send_edge.intros)
    show "stream_ok (?s\<lparr>shutdown_flush := False\<rparr>)" using s(3) st by (auto simp: stream_ok_defs)
  qed simp_all
  moreover have "qs_id ?s = qs_id s" by simp
  ultimately show ?thesis
    unfolding reset_sent_def Let_def by (auto intro: sound_trans update_state_sound)
qed

lemma reset_stream_send_part_sound: "sound qsm (fst (ossl_quic_stream_map_reset_stream_send_part qsm k aec))"
  unfolding ossl_quic_stream_map_reset_stream_send_part_def
proof (rule on_id, goal_cases)
  case (1 s)
  have same: "s\<lparr>send_final_size := send_final_size s\<rparr> = s" by simp
  have direct: "sound qsm (reset_sent qsm (s\<lparr>send_final_size := n\<rparr>) aec)"
    if "qs_send_state s = SS_SEND \<or> qs_send_state s = SS_DATA_SENT" for n
    using that 1 by (intro reset_sent_sound)
  have first: "sound qsm (reset_sent (put_stream qsm (s\<lparr>qs_send_state := SS_SEND\<rparr>))
      (s\<lparr>qs_send_state := SS_SEND, send_final_size := n\<rparr>) aec)" if "qs_send_state s = SS_READY" for n
  proof (rule sound_trans)
    show "sound qsm (put_stream qsm (s\<lparr>qs_send_state := SS_SEND\<rparr>))"
      using ensure_send_part_sound [of qsm k] 1 that by (simp add: ossl_quic_stream_map_ensure_send_part_id_def)
    show "sound (put_stream qsm (s\<lparr>qs_send_state := SS_SEND\<rparr>)) (reset_sent (put_stream qsm (s\<lparr>qs_send_state := SS_SEND\<rparr>))
      (s\<lparr>qs_send_state := SS_SEND, send_final_size := n\<rparr>) aec)"
      using 1 by (intro reset_sent_sound [where k = k]) simp_all
  qed
  show ?case
  proof (cases "qs_send_state s")
    case SS_READY
    show ?thesis by (simp add: SS_READY 1(1) 1(2) ossl_quic_stream_map_ensure_send_part_id_def first)
  next
    case SS_DATA_SENT
    then show ?thesis using direct [of "send_final_size s", unfolded same] by simp
  qed (simp_all add: direct)
qed

lemma notify_size_known_sound: "sound qsm (fst (ossl_quic_stream_map_notify_size_known_recv_part qsm k n))"
  unfolding ossl_quic_stream_map_notify_size_known_recv_part_def
proof (rule on_id, goal_cases)
  case (1 s)
  have "sound qsm (put_stream qsm (s\<lparr>qs_recv_state := RS_SIZE_KNOWN\<rparr>))" if "qs_recv_state s = RS_RECV"
    using that 1 by (intro put_sound [where s = s]) (auto simp: recv_edge.intros moves_recv stream_ok_defs)
  then show ?case by (cases "qs_recv_state s") simp_all
qed

lemma notify_totally_received_sound: "sound qsm (fst (ossl_quic_stream_map_notify_totally_received qsm k))"
  unfolding ossl_quic_stream_map_notify_totally_received_def
proof (rule on_id, goal_cases)
  case (1 s)
  have "sound qsm (put_stream qsm (s\<lparr>qs_recv_state := RS_DATA_RECVD, want_stop_sending := False\<rparr>))"
    if "qs_recv_state s = RS_SIZE_KNOWN"
    using that 1 by (intro put_sound [where s = s]) (auto simp: recv_edge.intros moves_recv stream_ok_defs)
  then show ?case by (cases "qs_recv_state s") simp_all
qed

lemma notify_totally_read_sound: "sound qsm (fst (ossl_quic_stream_map_notify_totally_read qsm k))"
  unfolding ossl_quic_stream_map_notify_totally_read_def
proof (rule on_id, goal_cases)
  case (1 s)
  have "sound qsm (put_stream (free_rstream qsm s) (s\<lparr>qs_recv_state := RS_DATA_READ, qs_rstream := None\<rparr>))"
    if "qs_recv_state s = RS_DATA_RECVD"
    using that 1 by (intro put_free_sound put_sound [where s = s]) (auto simp: recv_edge.intros moves_recv stream_ok_defs)
  then show ?case by (cases "qs_recv_state s") simp_all
qed

lemma notify_reset_recv_part_sound: "sound qsm (fst (ossl_quic_stream_map_notify_reset_recv_part qsm k aec n))"
  unfolding ossl_quic_stream_map_notify_reset_recv_part_def
proof (rule on_id, goal_cases)
  case (1 s)
  let ?s = "s\<lparr>qs_recv_state := RS_RESET_RECVD, peer_reset_stream_aec := aec, want_stop_sending := False,
    qs_rstream := None\<rparr>"
  have "sound qsm (ossl_quic_stream_map_update_state (put_stream (free_rstream qsm s) ?s) k)"
    if "ossl_quic_stream_has_recv_buffer s"
  proof (rule sound_trans [OF put_free_sound update_state_sound], rule put_sound)
    show "ossl_quic_stream_map_get_by_id qsm (qs_id ?s) = Some s" using 1 by simp
    show "moves s ?s"
      using that by (intro moves_recv) (auto simp: ossl_quic_stream_has_recv_buffer_def intro: recv_edge.intros split: recv_state.splits)
    show "stream_ok ?s" using that 1(3) by (auto simp: stream_ok_defs split: recv_state.splits)
  qed simp_all
  then show ?case by simp
qed

lemma notify_app_read_reset_sound: "sound qsm (fst (ossl_quic_stream_map_notify_app_read_reset_recv_part qsm k))"
  unfolding ossl_quic_stream_map_notify_app_read_reset_recv_part_def
proof (rule on_id, goal_cases)
  case (1 s)
  have "sound qsm (put_stream qsm (s\<lparr>qs_recv_state := RS_RESET_READ\<rparr>))" if "qs_recv_state s = RS_RESET_RECVD"
    using that 1 by (intro put_sound [where s = s]) (auto simp: recv_edge.intros moves_recv stream_ok_defs)
  then show ?case by (cases "qs_recv_state s") simp_all
qed

text \<open>A write that touches neither the states nor the buffers nor the flags of the bookkeeping.\<close>

definition inert :: "QUIC_STREAM \<Rightarrow> QUIC_STREAM \<Rightarrow> bool" where
  "inert s s' \<longleftrightarrow> qs_id s' = qs_id s \<and> qs_type s' = qs_type s \<and> as_server s' = as_server s \<and>
     qs_send_state s' = qs_send_state s \<and> qs_recv_state s' = qs_recv_state s \<and>
     (qs_sstream s' = None) = (qs_sstream s = None) \<and> (qs_rstream s' = None) = (qs_rstream s = None) \<and>
     qs_active s' = qs_active s \<and> ready_for_gc s' = ready_for_gc s \<and> shutdown_flush s' = shutdown_flush s \<and>
     (qs_deleted s \<longrightarrow> qs_deleted s') \<and> (acked_stop_sending s \<longrightarrow> acked_stop_sending s')"

lemma inert_stream_ok:
  assumes "inert s s'" "stream_ok s"
  shows "stream_ok s'"
  using assms unfolding inert_def stream_ok_defs by (elim conjE) (intro conjI; simp; blast?)

lemma put_inert_sound:
  assumes "ossl_quic_stream_map_get_by_id qsm k = Some s" "inert s s'" "qs_id s = k"
  shows "sound qsm (put_stream qsm s')"
proof (rule soundI, rule write_quiet)
  assume ok: "sm_ok qsm"
  show "ossl_quic_stream_map_get_by_id qsm (qs_id s') = Some s" using assms by (simp add: inert_def)
  show "stream_ok s'" using sm_ok_get(3) [OF ok assms(1)] inert_stream_ok [OF assms(2)] by blast
  show "moves s s'" using assms(2) by (intro moves_quiet) (simp_all add: inert_def)
qed (use assms(2) in \<open>simp_all add: inert_def\<close>)

lemma schedule_stop_sending_sound: "sound qsm (fst (ossl_quic_stream_map_schedule_stop_sending qsm k))"
  unfolding ossl_quic_stream_map_schedule_stop_sending_def
proof (rule on_id, goal_cases)
  case (1 s)
  have "sound qsm (put_stream qsm (s\<lparr>want_stop_sending := True\<rparr>))"
    using 1 by (intro put_inert_sound [of qsm k s]) (simp_all add: inert_def)
  then have "sound qsm (ossl_quic_stream_map_update_state (put_stream qsm (s\<lparr>want_stop_sending := True\<rparr>)) k)"
    by (rule sound_trans) (rule update_state_sound)
  then show ?case by simp
qed

lemma stop_sending_recv_part_sound: "sound qsm (fst (ossl_quic_stream_map_stop_sending_recv_part qsm k aec))"
  unfolding ossl_quic_stream_map_stop_sending_recv_part_def
proof (rule on_id, goal_cases)
  case (1 s)
  have "sound qsm (put_stream qsm (s\<lparr>stop_sending := True, stop_sending_aec := aec\<rparr>))"
    using 1 by (intro put_inert_sound [of qsm k s]) (simp_all add: inert_def)
  from sound_trans [OF this schedule_stop_sending_sound [of _ k]] show ?case by simp
qed

lemma foldl_sound: "(\<And>q k. sound q (f q k)) \<Longrightarrow> sound qsm (foldl f qsm ks)"
  by (induction ks arbitrary: qsm) (auto intro: sound_trans)

lemma visit_sound: "(\<And>q k. sound q (f q k)) \<Longrightarrow> sound qsm (ossl_quic_stream_map_visit f qsm)"
  unfolding ossl_quic_stream_map_visit_def by (rule foldl_sound)

text \<open>The lists and counters that no flag of a stream determines.\<close>

lemma rr_sound:
  assumes "sm_ok qsm \<Longrightarrow> rr_ok c (active_list qsm)"
  shows "sound qsm (qsm\<lparr>rr_counter := n, rr_cur := c\<rparr>)"
proof (rule soundI)
  let ?q = "qsm\<lparr>rr_counter := n, rr_cur := c\<rparr>"
  assume ok: "sm_ok qsm"
  have "qsm_map ?q = qsm_map qsm" by simp
  note by_map = get_by_map [OF this] marked_by_map [OF this] bidi_by_map [OF this]
  show "sm_ok ?q \<and> map_moves qsm ?q"
    using ok assms [OF ok] unfolding sm_ok_def accept_ok_def queue_exact_def map_moves_def by_map by auto
qed

lemma set_rr_stepping_sound: "sound qsm (ossl_quic_stream_map_set_rr_stepping qsm n)"
  unfolding ossl_quic_stream_map_set_rr_stepping_def by (rule free_fields) simp_all

lemma iter_init_sound: "sound qsm (fst (ossl_quic_stream_iter_init qsm adv))"
proof (cases "rr_cur qsm")
  case None
  then show ?thesis by (simp add: ossl_quic_stream_iter_init_def)
next
  case (Some k)
  have next_ok: "rr_ok (list_next (active_list qsm) k) (active_list qsm)" if "sm_ok qsm"
  proof -
    have "k \<in> set (active_list qsm)" using rr_same [OF that] Some by (simp add: rr_ok_def)
    then show ?thesis using list_next_mem by (metis rr_ok_def option.simps(5))
  qed
  have 1: "sound qsm (qsm\<lparr>rr_counter := n\<rparr>)" for n by (rule free_fields) simp_all
  show ?thesis using rr_sound [OF next_ok, of 0] Some 1 by (simp add: ossl_quic_stream_iter_init_def Let_def)
qed

lemma accept_sound:
  assumes "sm_ok qsm \<Longrightarrow> accept_ok (qsm\<lparr>accept_list := l, num_accept_bidi := b, num_accept_uni := u\<rparr>)"
  shows "sound qsm (qsm\<lparr>accept_list := l, num_accept_bidi := b, num_accept_uni := u\<rparr>)"
proof (rule soundI)
  let ?q = "qsm\<lparr>accept_list := l, num_accept_bidi := b, num_accept_uni := u\<rparr>"
  assume ok: "sm_ok qsm"
  have "qsm_map ?q = qsm_map qsm" by simp
  note by_map = get_by_map [OF this] marked_by_map [OF this]
  show "sm_ok ?q \<and> map_moves qsm ?q"
    using ok assms [OF ok] unfolding sm_ok_def queue_exact_def map_moves_def by_map by auto
qed

lemma push_accept_sound:
  assumes g: "ossl_quic_stream_map_get_by_id qsm (qs_id s) = Some s" and new: "qs_id s \<notin> set (accept_list qsm)"
  shows "sound qsm (ossl_quic_stream_map_push_accept_queue qsm s)"
proof -
  let ?l = "accept_list qsm @ [qs_id s]"
  have b: "id_is_bidi qsm (qs_id s) = ossl_quic_stream_is_bidi s" using g by (simp add: id_is_bidi_def)
  have m: "qs_id s \<in> marked (\<lambda>s. True) qsm" using g by (simp add: marked_iff)
  let ?b = "if ossl_quic_stream_is_bidi s then num_accept_bidi qsm + 1 else num_accept_bidi qsm"
  let ?u = "if ossl_quic_stream_is_bidi s then num_accept_uni qsm else num_accept_uni qsm + 1"
  let ?q = "qsm\<lparr>accept_list := ?l, num_accept_bidi := ?b, num_accept_uni := ?u\<rparr>"
  have "qsm_map ?q = qsm_map qsm" by simp
  note by_map = marked_by_map [OF this] bidi_by_map [OF this]
  have "sound qsm ?q"
    by (rule accept_sound) (use new b m in \<open>auto simp: sm_ok_def accept_ok_def by_map\<close>)
  then show ?thesis
    by (simp add: ossl_quic_stream_map_push_accept_queue_def list_insert_tail_def Let_def split: if_splits)
qed

lemma filter_remove1_length:
  "distinct l \<Longrightarrow> k \<in> set l \<Longrightarrow> P k \<Longrightarrow> length (filter P l) = Suc (length (filter P (remove1 k l)))"
  "\<not> P k \<Longrightarrow> filter P (remove1 k l) = filter P l"
  by (induction l) auto

lemma remove_accept_sound:
  assumes g: "ossl_quic_stream_map_get_by_id qsm (qs_id s) = Some s" and q: "qs_id s \<in> set (accept_list qsm)"
  shows "sound qsm (ossl_quic_stream_map_remove_from_accept_queue now qsm s rtt)"
proof -
  let ?l = "remove1 (qs_id s) (accept_list qsm)"
  have b: "id_is_bidi qsm (qs_id s) = ossl_quic_stream_is_bidi s" using g by (simp add: id_is_bidi_def)
  let ?b = "if ossl_quic_stream_is_bidi s then num_accept_bidi qsm - 1 else num_accept_bidi qsm"
  let ?u = "if ossl_quic_stream_is_bidi s then num_accept_uni qsm else num_accept_uni qsm - 1"
  let ?q = "qsm\<lparr>accept_list := ?l, num_accept_bidi := ?b, num_accept_uni := ?u\<rparr>"
  have "qsm_map ?q = qsm_map qsm" by simp
  note by_map = marked_by_map [OF this] bidi_by_map [OF this]
  have "accept_ok ?q" if "sm_ok qsm"
  proof -
    have d: "distinct (accept_list qsm)" using that by (simp add: sm_ok_def accept_ok_def)
    have len: "length (filter P (accept_list qsm)) =
        (if P (qs_id s) then Suc (length (filter P ?l)) else length (filter P ?l))" for P
      using filter_remove1_length(1) [OF d q] filter_remove1_length(2) [of P "qs_id s"] by simp
    show ?thesis
      using that len [of "id_is_bidi qsm"] len [of "\<lambda>k. \<not> id_is_bidi qsm k"] b
        set_remove1_subset [of "qs_id s" "accept_list qsm"]
      by (auto simp: sm_ok_def accept_ok_def by_map)
  qed
  then have "sound qsm ?q" by (rule accept_sound)
  also have "sound ?q (ossl_quic_stream_map_remove_from_accept_queue now qsm s rtt)"
    by (rule free_fields)
      (simp_all add: ossl_quic_stream_map_remove_from_accept_queue_def list_remove_def Let_def split: option.split)
  finally show ?thesis .
qed

lemma begin_shutdown_flush_each_sound: "sound qsm (begin_shutdown_flush_each qsm k)"
proof (rule soundI)
  assume ok: "sm_ok qsm"
  show "sm_ok (begin_shutdown_flush_each qsm k) \<and> map_moves qsm (begin_shutdown_flush_each qsm k)"
  proof (cases "ossl_quic_stream_map_get_by_id qsm k")
    case None
    then show ?thesis using ok by (simp add: begin_shutdown_flush_each_def)
  next
    case (Some s)
    let ?s = "s\<lparr>shutdown_flush := True\<rparr>" and ?q = "begin_shutdown_flush_each qsm k"
    note s = sm_ok_get [OF ok Some]
    show ?thesis
    proof (cases "\<not> eligible_for_shutdown_flush s \<or> shutdown_flush s")
      case True
      then show ?thesis using ok Some by (auto simp: begin_shutdown_flush_each_def)
    next
      case False
      have g: "ossl_quic_stream_map_get_by_id qsm (qs_id ?s) = Some s" using Some s by simp
      have mv: "moves s ?s" by (rule moves_quiet) simp_all
      have so: "stream_ok ?s"
        using s(3) False by (auto simp: stream_ok_defs eligible_for_shutdown_flush_def split: send_state.splits)
      have q: "?q = put_stream (qsm\<lparr>num_shutdown_flush := num_shutdown_flush qsm + 1\<rparr>) ?s"
        using Some False by (simp add: begin_shutdown_flush_each_def)
      show ?thesis unfolding q
        by (rule write_one_stream [OF ok g mv so])
          (use follows_same [OF ok Some] rr_same [OF ok] flush_raised [OF ok g] False s(1) in \<open>simp_all add: put_stream_def\<close>)
    qed
  qed
qed

lemma begin_shutdown_flush_sound:
  assumes "sm_ok qsm \<Longrightarrow> marked shutdown_flush qsm = {}"
  shows "sound qsm (ossl_quic_stream_map_begin_shutdown_flush qsm)"
proof -
  have "sound qsm (qsm\<lparr>num_shutdown_flush := 0\<rparr>)"
  proof (rule soundI)
    assume ok: "sm_ok qsm"
    then have "num_shutdown_flush qsm = 0" using assms [OF ok] unfolding sm_ok_def by simp
    then have "qsm\<lparr>num_shutdown_flush := 0\<rparr> = qsm" by (cases qsm) simp
    then show "sm_ok (qsm\<lparr>num_shutdown_flush := 0\<rparr>) \<and> map_moves qsm (qsm\<lparr>num_shutdown_flush := 0\<rparr>)" using ok by simp
  qed
  also have "sound (qsm\<lparr>num_shutdown_flush := 0\<rparr>) (ossl_quic_stream_map_begin_shutdown_flush qsm)"
    unfolding ossl_quic_stream_map_begin_shutdown_flush_def by (rule visit_sound) (rule begin_shutdown_flush_each_sound)
  finally show ?thesis .
qed

text \<open>A stream joins the map with its flags clear.\<close>

lemma new_stream_keeps:
  assumes ok: "sm_ok qsm" and g: "ossl_quic_stream_map_get_by_id qsm (qs_id s) = None" and so: "stream_ok s"
    and fl: "\<not> qs_active s" "\<not> ready_for_gc s" "\<not> shutdown_flush s" and sv: "as_server s = qsm_is_server qsm"
  shows "sm_ok (put_stream qsm s) \<and> map_moves qsm (put_stream qsm s)"
proof -
  let ?q = "put_stream qsm s"
  have not: "qs_id s \<notin> marked P qsm" for P using g by (simp add: marked_iff)
  then have m: "marked P ?q = (if P s then insert (qs_id s) (marked P qsm) else marked P qsm)" for P
    by (simp add: marked_put)
  have "id_is_bidi ?q j = id_is_bidi qsm j" if "j \<in> set (accept_list qsm)" for j
    using that not ok by (auto simp: id_is_bidi_def sm_ok_def accept_ok_def)
  then have "filter (id_is_bidi ?q) (accept_list qsm) = filter (id_is_bidi qsm) (accept_list qsm)"
    "filter (\<lambda>k. \<not> id_is_bidi ?q k) (accept_list qsm) = filter (\<lambda>k. \<not> id_is_bidi qsm k) (accept_list qsm)"
    by (auto cong: filter_cong)
  then have acc: "accept_ok ?q" using ok by (auto simp: sm_ok_def accept_ok_def m)
  have "qs_id s \<notin> set (map fst (qsm_map qsm))"
    using g by (simp add: ossl_quic_stream_map_get_by_id_def map_of_eq_None_iff)
  then have keys: "distinct (map fst (qsm_map ?q))" using ok by (simp add: keys_put_new [OF g] sm_ok_def)
  have each: "\<forall>k t. ossl_quic_stream_map_get_by_id ?q k = Some t \<longrightarrow>
      qs_id t = k \<and> as_server t = qsm_is_server ?q \<and> stream_ok t"
    using ok so sv by (auto simp: sm_ok_def)
  have mv: "map_moves qsm ?q" using g by (auto simp: map_moves_def)
  have q: "queue_exact qs_active (active_list ?q) ?q" "queue_exact ready_for_gc (ready_for_gc_list ?q) ?q"
    using ok fl by (simp_all add: sm_ok_def queue_exact_def m)
  have num: "num_shutdown_flush ?q = of_nat (card (marked shutdown_flush ?q))" using ok fl by (simp add: sm_ok_def m)
  have rr: "rr_ok (rr_cur ?q) (active_list ?q)" using rr_same [OF ok] by simp
  show ?thesis unfolding sm_ok_def by (intro conjI) (fact keys each q rr acc num mv)+
qed

end
