(* ===== verification/Stream_Sched.thy ===== *)
theory Stream_Sched
  imports Stream_Inv
begin

text \<open>
  What the packetiser and the application get from the map: which streams are active after an update, the order and
  the end of an iteration over the active streams (\<open>ossl_quic_stream_iter_init\<close> and \<open>ossl_quic_stream_iter_next\<close>, as
  the loop of \<open>txp_generate_stream_related\<close> in \<open>ssl/quic/quic_txp.c\<close> drives them), the end of the search through
  the circular accept queue, and the end of a shutdown flush.
\<close>

section \<open>Iteration\<close>

text \<open>
  The streams the loop over an iterator visits; \<open>n\<close> bounds the rounds, and \<open>None\<close> is a loop that has not ended by then.
\<close>

fun iter_walk :: "nat \<Rightarrow> QUIC_STREAM_MAP \<Rightarrow> QUIC_STREAM_ITER \<Rightarrow> u64 list option" where
  "iter_walk n qsm it =
     (case it_stream it of
        None \<Rightarrow> Some []
      | Some s \<Rightarrow>
          (case n of 0 \<Rightarrow> None | Suc m \<Rightarrow> map_option (Cons s) (iter_walk m qsm (ossl_quic_stream_iter_next qsm it))))"

declare iter_walk.simps [simp del]

fun iter_rounds :: "nat \<Rightarrow> QUIC_STREAM_MAP \<Rightarrow> QUIC_STREAM_MAP" where
  "iter_rounds 0 qsm = qsm"
| "iter_rounds (Suc n) qsm = iter_rounds n (fst (ossl_quic_stream_iter_init qsm True))"

lemma list_next_rotate1:
  assumes "distinct l" "y \<in> set l"
  shows "list_next (rotate1 l) y = list_next l y"
proof (cases l)
  case (Cons a m)
  show ?thesis
  proof (cases "y = a")
    case True
    then have "a \<notin> set m" using assms(1) Cons by simp
    then show ?thesis
      using list_next_split [of a "[]" m] list_next_split [of a m "[]"] True Cons by (cases m) auto
  next
    case False
    then obtain us vs where m: "m = us @ y # vs" using assms(2) Cons split_list [of y m] by auto
    have "y \<notin> set us" using assms(1) Cons m by auto
    then show ?thesis
      using list_next_split [of y us "vs @ [a]"] list_next_split [of y "a # us" vs] False Cons m by (cases vs) auto
  qed
qed simp

lemma list_next_rotate: "distinct l \<Longrightarrow> y \<in> set l \<Longrightarrow> list_next (rotate n l) y = list_next l y"
  by (induction n) (simp_all add: list_next_rotate1)

lemma iter_walk_from:
  assumes "distinct (us @ y # vs)" "rotate i (active_list qsm) = us @ y # vs"
    "it_stream it = Some y" "it_first_stream it = Some (hd (us @ [y]))"
  shows "iter_walk (Suc (length vs)) qsm it = Some (y # vs)"
  using assms
proof (induction vs arbitrary: us y it)
  case Nil
  have "list_next (active_list qsm) y = list_next (rotate i (active_list qsm)) y"
    by (rule list_next_rotate [symmetric]) (use Nil(1,2) in \<open>metis distinct_rotate, metis set_rotate in_set_conv_decomp\<close>)
  also have "\<dots> = Some (hd (us @ [y]))" using Nil(1,2) list_next_split [of y us "[]"] by simp
  finally show ?case using Nil(3,4) by (simp add: iter_walk.simps ossl_quic_stream_iter_next_def)
next
  case (Cons z vs)
  have "list_next (active_list qsm) y = list_next (rotate i (active_list qsm)) y"
    by (rule list_next_rotate [symmetric]) (use Cons(2,3) in \<open>metis distinct_rotate, metis set_rotate in_set_conv_decomp\<close>)
  also have "\<dots> = Some z" using Cons(2,3) list_next_split [of y us "z # vs"] by simp
  finally have n: "list_next (active_list qsm) y = Some z" .
  have "z \<noteq> hd (us @ [y])" using Cons(2) by (cases us) auto
  then have it: "ossl_quic_stream_iter_next qsm it = it\<lparr>it_stream := Some z\<rparr>"
    using Cons(4,5) n by (simp add: ossl_quic_stream_iter_next_def)
  have "hd ((us @ [y]) @ [z]) = hd (us @ [y])" by (cases us) auto
  then have "iter_walk (Suc (length vs)) qsm (it\<lparr>it_stream := Some z\<rparr>) = Some (z # vs)"
    using Cons(1) [of "us @ [y]" z "it\<lparr>it_stream := Some z\<rparr>"] Cons(2,3,5) by simp
  then show ?case using Cons(4) it iter_walk.simps [of "Suc (length (z # vs))" qsm it] by simp
qed

lemma iter_init_shape:
  "active_list (fst (ossl_quic_stream_iter_init qsm adv)) = active_list qsm"
  "snd (ossl_quic_stream_iter_init qsm adv) = \<lparr>it_first_stream = rr_cur qsm, it_stream = rr_cur qsm\<rparr>"
  unfolding ossl_quic_stream_iter_init_def Let_def by (simp_all split: option.split)

lemma rr_index:
  assumes "sm_ok qsm" "active_list qsm \<noteq> []"
  obtains i where "i < length (active_list qsm)" "rr_cur qsm = Some (active_list qsm ! i)"
  using assms rr_same [OF assms(1)] that by (auto simp: rr_ok_def in_set_conv_nth split: option.splits)

lemma iter_walk_rotates:
  assumes ok: "sm_ok qsm" and i: "i < length (active_list qsm)" "rr_cur qsm = Some (active_list qsm ! i)"
  shows "iter_walk (length (active_list qsm)) (fst (ossl_quic_stream_iter_init qsm adv))
           (snd (ossl_quic_stream_iter_init qsm adv)) = Some (rotate i (active_list qsm))"
proof -
  let ?l = "active_list qsm"
  have ne: "?l \<noteq> []" using i by auto
  then obtain y vs where r: "rotate i ?l = y # vs" by (cases "rotate i ?l") auto
  have "hd (rotate i ?l) = ?l ! i" using i ne by (simp add: hd_rotate_conv_nth)
  then have y: "y = ?l ! i" using r by simp
  have d: "distinct ([] @ y # vs)" using ok r by (metis append_Nil distinct_rotate sm_ok_def queue_exact_def)
  have "length ?l = Suc (length vs)" using r by (metis length_Cons length_rotate)
  then show ?thesis
    using iter_walk_from [OF d, of i "fst (ossl_quic_stream_iter_init qsm adv)"] r i(2) y
    by (simp add: iter_init_shape)
qed

lemma list_next_nth:
  assumes "distinct l" "i < length l"
  shows "list_next l (l ! i) = Some (l ! (Suc i mod length l))"
proof -
  have l: "l = take i l @ l ! i # drop (Suc i) l" using assms(2) by (rule id_take_nth_drop)
  have "l ! i \<notin> set (take i l)"
    using assms by (auto simp: in_set_conv_nth nth_eq_iff_index_eq)
  from list_next_split [OF this, of "drop (Suc i) l"] have n:
    "list_next l (l ! i) = Some (case drop (Suc i) l of [] \<Rightarrow> hd (take i l @ [l ! i]) | y # _ \<Rightarrow> y)"
    using l by simp
  show ?thesis
  proof (cases "Suc i < length l")
    case True
    then have "drop (Suc i) l = l ! Suc i # drop (Suc (Suc i)) l" by (simp add: Cons_nth_drop_Suc)
    then show ?thesis using n True by simp
  next
    case False
    then have "Suc i = length l" using assms(2) by simp
    moreover have "hd (take i l @ [l ! i]) = l ! 0" using assms(2) by (cases l; cases i) auto
    ultimately show ?thesis using n by simp
  qed
qed

lemma iter_round_steps:
  assumes "distinct (active_list qsm)" "i < length (active_list qsm)" "rr_cur qsm = Some (active_list qsm ! i)"
    "rr_stepping qsm \<le> 1" "rr_counter qsm = 0"
  shows "rr_cur (iter_rounds n qsm) = Some (active_list qsm ! ((i + n) mod length (active_list qsm)))"
  using assms
proof (induction n arbitrary: qsm i)
  case 0
  then show ?case by simp
next
  case (Suc n)
  let ?q = "fst (ossl_quic_stream_iter_init qsm True)" and ?j = "Suc i mod length (active_list qsm)"
  have "rr_cur ?q = Some (active_list qsm ! ?j)" "rr_stepping ?q = rr_stepping qsm" "rr_counter ?q = 0"
    using Suc.prems list_next_nth [OF Suc.prems(1,2)] by (simp_all add: ossl_quic_stream_iter_init_def Let_def)
  moreover have "?j < length (active_list qsm)" using Suc.prems(2) by (intro mod_less_divisor) linarith
  ultimately show ?case using Suc.IH [of ?q ?j] Suc.prems(1,4) by (simp add: iter_init_shape mod_simps)
qed

section \<open>The accept queue\<close>

definition accept_match :: "QUIC_STREAM_MAP \<Rightarrow> bool \<Rightarrow> u64 \<Rightarrow> bool" where
  "accept_match qsm is_uni k \<longleftrightarrow> is_uni \<noteq> id_is_bidi qsm k"

lemma find_walk_finds:
  assumes "accept_list qsm = us @ vs" "distinct (accept_list qsm)" "\<exists>k \<in> set vs. accept_match qsm is_uni k"
  shows "find_walk (length vs) qsm is_uni (list_head vs) = Some (find (accept_match qsm is_uni) vs)"
  using assms
proof (induction vs arbitrary: us)
  case (Cons y vs)
  show ?case
  proof (cases "accept_match qsm is_uni y")
    case True
    then show ?thesis by (auto simp: list_head_def accept_match_def)
  next
    case False
    then have ex: "\<exists>k \<in> set vs. accept_match qsm is_uni k" using Cons.prems(3) by simp
    then obtain z zs where vs: "vs = z # zs" by (cases vs) auto
    have "y \<notin> set us" using Cons.prems(1,2) by auto
    then have "list_next (accept_list qsm) y = list_head vs"
      using list_next_split [of y us vs] Cons.prems(1) vs by (simp add: list_head_def)
    moreover have "find_walk (length vs) qsm is_uni (list_head vs) = Some (find (accept_match qsm is_uni) vs)"
      using Cons.IH [of "us @ [y]"] Cons.prems ex by simp
    moreover have "\<not> (is_uni \<and> \<not> id_is_bidi qsm y \<or> \<not> is_uni \<and> id_is_bidi qsm y)"
      using False by (auto simp: accept_match_def)
    ultimately show ?thesis using False by (cases is_uni) (simp_all add: list_head_def)
  qed
qed simp

lemma accept_count:
  assumes "sm_ok qsm"
  shows "ossl_quic_stream_map_get_accept_queue_len qsm is_uni =
    of_nat (length (filter (accept_match qsm is_uni) (accept_list qsm)))"
proof -
  have "accept_match qsm True = (\<lambda>k. \<not> id_is_bidi qsm k)" "accept_match qsm False = id_is_bidi qsm"
    by (auto simp: accept_match_def fun_eq_iff)
  then show ?thesis
    using assms by (cases is_uni) (simp_all add: sm_ok_def accept_ok_def ossl_quic_stream_map_get_accept_queue_len_def)
qed

lemma find_exact:
  assumes ok: "sm_ok qsm" and n: "length (accept_list qsm) < 2 ^ 64"
  shows "ossl_quic_stream_map_find_in_accept_queue (length (accept_list qsm)) qsm is_uni =
    Some (find (accept_match qsm is_uni) (accept_list qsm))"
proof (cases "\<exists>k \<in> set (accept_list qsm). accept_match qsm is_uni k")
  case True
  let ?m = "length (filter (accept_match qsm is_uni) (accept_list qsm))"
  have "?m < 2 ^ 64" using n length_filter_le [of _ "accept_list qsm"] by (meson order.strict_trans1)
  then have "unat (of_nat ?m :: u64) = ?m" by (simp add: unat_u64_of_nat)
  moreover have "?m \<noteq> 0" using True by (auto simp: filter_empty_conv)
  ultimately have "(of_nat ?m :: u64) \<noteq> 0" by (metis unat_0)
  then show ?thesis
    using find_walk_finds [of qsm "[]" "accept_list qsm" is_uni] True ok
    by (simp add: ossl_quic_stream_map_find_in_accept_queue_def accept_count ossl_quic_stream_map_peek_accept_queue_def
        sm_ok_def accept_ok_def)
next
  case False
  then have "filter (accept_match qsm is_uni) (accept_list qsm) = []" "find (accept_match qsm is_uni) (accept_list qsm) = None"
    by (auto simp: filter_empty_conv find_None_iff)
  then show ?thesis using ok by (simp add: ossl_quic_stream_map_find_in_accept_queue_def accept_count)
qed

section \<open>Activity after an update\<close>

lemma active_flag_only:
  "qs_fc (s\<lparr>qs_active := b\<rparr>) = qs_fc s" "qs_sstream (s\<lparr>qs_active := b\<rparr>) = qs_sstream s"
  "qs_send_state (s\<lparr>qs_active := b\<rparr>) = qs_send_state s" "qs_recv_state (s\<lparr>qs_active := b\<rparr>) = qs_recv_state s"
  by simp_all

lemma has_data_flag: "stream_has_data_to_send h (s\<lparr>qs_active := b\<rparr>) = stream_has_data_to_send h s"
  unfolding stream_has_data_to_send_def ossl_quic_stream_has_send_buffer_def active_flag_only by (rule refl)

lemma should_be_active_cong:
  assumes "qsm_is_server q' = qsm_is_server q" "get_stream_limit_cb q' = get_stream_limit_cb q" "tx_mem q' = tx_mem q"
    "rx_mem q' = rx_mem q"
  shows "should_be_active q' s = should_be_active q s"
  unfolding should_be_active_def Let_def ossl_quic_stream_map_is_local_allowed_by_stream_limit_def assms by (rule refl)

lemma should_be_active_flag: "should_be_active q (s\<lparr>qs_active := b\<rparr>) = should_be_active q s"
  unfolding should_be_active_def Let_def
  by (simp add: ossl_quic_stream_is_server_init_def ossl_quic_stream_is_bidi_def ossl_quic_stream_has_recv_def
      ossl_quic_stream_recv_is_reset_def has_data_flag)

lemma mark_active_get:
  assumes "ossl_quic_stream_map_get_by_id qsm k = Some s" "qs_id s = k"
  shows "ossl_quic_stream_map_get_by_id (stream_map_mark_active qsm s) j =
    (if j = k then Some (s\<lparr>qs_active := True\<rparr>) else ossl_quic_stream_map_get_by_id qsm j)"
  using assms by (cases s) (auto simp: stream_map_mark_active_def Let_def)

lemma mark_inactive_get:
  assumes "ossl_quic_stream_map_get_by_id qsm k = Some s" "qs_id s = k"
  shows "ossl_quic_stream_map_get_by_id (stream_map_mark_inactive qsm s) j =
    (if j = k then Some (s\<lparr>qs_active := False\<rparr>) else ossl_quic_stream_map_get_by_id qsm j)"
  using assms by (cases s) (auto simp: stream_map_mark_inactive_def Let_def)

lemma mark_frame:
  "qsm_is_server (stream_map_mark_active qsm s) = qsm_is_server qsm" "tx_mem (stream_map_mark_active qsm s) = tx_mem qsm"
  "rx_mem (stream_map_mark_active qsm s) = rx_mem qsm"
  "get_stream_limit_cb (stream_map_mark_active qsm s) = get_stream_limit_cb qsm"
  "qsm_is_server (stream_map_mark_inactive qsm s) = qsm_is_server qsm"
  "tx_mem (stream_map_mark_inactive qsm s) = tx_mem qsm" "rx_mem (stream_map_mark_inactive qsm s) = rx_mem qsm"
  "get_stream_limit_cb (stream_map_mark_inactive qsm s) = get_stream_limit_cb qsm"
  unfolding stream_map_mark_active_def stream_map_mark_inactive_def Let_def by simp_all

lemma update_active_exact:
  assumes "ossl_quic_stream_map_get_by_id qsm k = Some s" "qs_id s = k"
  shows "ossl_quic_stream_map_get_by_id (update_active qsm s) k = Some (s\<lparr>qs_active := should_be_active qsm s\<rparr>)"
    "should_be_active (update_active qsm s) (s\<lparr>qs_active := b\<rparr>) = should_be_active qsm s"
proof -
  show "ossl_quic_stream_map_get_by_id (update_active qsm s) k = Some (s\<lparr>qs_active := should_be_active qsm s\<rparr>)"
    using mark_active_get [OF assms] mark_inactive_get [OF assms] by (simp add: update_active_def)
  have "should_be_active (update_active qsm s) s = should_be_active qsm s"
    by (rule should_be_active_cong) (simp_all add: update_active_def mark_frame)
  then show "should_be_active (update_active qsm s) (s\<lparr>qs_active := b\<rparr>) = should_be_active qsm s"
    by (simp add: should_be_active_flag)
qed

lemma update_state_active:
  assumes ok: "sm_ok qsm" and g: "ossl_quic_stream_map_get_by_id qsm k = Some s"
  obtains s' where "ossl_quic_stream_map_get_by_id (ossl_quic_stream_map_update_state qsm k) k = Some s'"
    "qs_active s' = should_be_active (ossl_quic_stream_map_update_state qsm k) s'"
proof -
  let ?q1 = "on_stream update_gc (on_stream update_flushed qsm k) k"
  have s1: "sound qsm (on_stream update_flushed qsm k)" by (rule on_stream_sound) (rule update_flushed_keeps)
  have "sound qsm ?q1" by (rule sound_trans [OF s1 on_stream_sound]) (rule update_gc_keeps)
  then have ok1: "sm_ok ?q1" and mv: "map_moves qsm ?q1" using ok by (auto simp: sound_def)
  obtain s1 where g1: "ossl_quic_stream_map_get_by_id ?q1 k = Some s1" using map_moves_D [OF mv g] by blast
  have q: "ossl_quic_stream_map_update_state qsm k = update_active ?q1 s1"
    by (simp add: ossl_quic_stream_map_update_state_def on_stream_def [of update_active] g1)
  note u = update_active_exact [OF g1 sm_ok_get(1) [OF ok1 g1]]
  show thesis by (rule that [OF u(1) [folded q]]) (simp only: u(2) q, simp)
qed

text \<open>An update of one stream leaves the others as they are.\<close>

lemma update_state_others:
  assumes ok: "sm_ok qsm" and jk: "j \<noteq> k"
  shows "ossl_quic_stream_map_get_by_id (ossl_quic_stream_map_update_state qsm k) j = ossl_quic_stream_map_get_by_id qsm j"
proof -
  have done': "ossl_quic_stream_map_get_by_id (shutdown_flush_done q k) j = ossl_quic_stream_map_get_by_id q j"
    if "sm_ok q \<or> (\<forall>s. ossl_quic_stream_map_get_by_id q k = Some s \<longrightarrow> qs_id s = k)" for q
    using that jk sm_ok_get(1) [of q k] by (auto simp: shutdown_flush_done_def Let_def split: option.split)
  have 1: "ossl_quic_stream_map_get_by_id (on_stream update_flushed q k) j = ossl_quic_stream_map_get_by_id q j" if "sm_ok q" for q
    using that jk sm_ok_get(1) [OF that] done'
    by (auto simp: on_stream_def update_flushed_def ossl_quic_stream_map_notify_totally_acked_def split: option.split)
  have 2: "ossl_quic_stream_map_get_by_id (on_stream update_gc q k) j = ossl_quic_stream_map_get_by_id q j" if "sm_ok q" for q
    using jk sm_ok_get(1) [OF that, of k] by (auto simp: on_stream_def update_gc_def split: option.split)
  have 3: "ossl_quic_stream_map_get_by_id (on_stream update_active q k) j = ossl_quic_stream_map_get_by_id q j" if "sm_ok q" for q
    using jk sm_ok_get(1) [OF that, of k] mark_active_get [of q k _ j] mark_inactive_get [of q k _ j]
    by (auto simp: on_stream_def update_active_def split: option.split)
  have s1: "sm_ok (on_stream update_flushed qsm k)"
    using on_stream_sound [of k update_flushed qsm] update_flushed_keeps ok by (auto simp: sound_def)
  have s2: "sm_ok (on_stream update_gc (on_stream update_flushed qsm k) k)"
    using on_stream_sound [of k update_gc "on_stream update_flushed qsm k"] update_gc_keeps s1 by (auto simp: sound_def)
  show ?thesis by (simp only: ossl_quic_stream_map_update_state_def 3 [OF s2] 2 [OF s1] 1 [OF ok])
qed

section \<open>Shutdown and deletion\<close>

lemma flush_finished_exact:
  assumes ok: "sm_ok qsm" and n: "length (qsm_map qsm) < 2 ^ 64"
  shows "ossl_quic_stream_map_is_shutdown_flush_finished qsm \<longleftrightarrow> marked shutdown_flush qsm = {}"
proof -
  have "marked shutdown_flush qsm \<subseteq> set (map fst (qsm_map qsm))"
    by (auto simp: marked_iff ossl_quic_stream_map_get_by_id_def dest!: map_of_SomeD) force
  then have "card (marked shutdown_flush qsm) \<le> length (qsm_map qsm)"
    by (metis card_length card_mono finite_set length_map order.trans)
  then have "unat (of_nat (card (marked shutdown_flush qsm)) :: u64) = card (marked shutdown_flush qsm)"
    using n by (intro unat_u64_of_nat) simp
  moreover have "num_shutdown_flush qsm = of_nat (card (marked shutdown_flush qsm))" using ok by (simp add: sm_ok_def)
  ultimately have "unat (num_shutdown_flush qsm) = card (marked shutdown_flush qsm)" by (simp only:)
  then have "num_shutdown_flush qsm = 0 \<longleftrightarrow> card (marked shutdown_flush qsm) = 0"
    by (simp only: flip: unat_eq_zero)
  then show ?thesis by (simp add: ossl_quic_stream_map_is_shutdown_flush_finished_def)
qed

text \<open>
  The loop of \<open>ossl_quic_stream_map_gc\<close> compares the stream with the head it starts from before its first round, so
  that it releases nothing, whatever waits in \<open>ready_for_gc_list\<close>.
\<close>

theorem gc_never_releases: "ossl_quic_stream_map_gc n qsm = Some qsm"
  unfolding ossl_quic_stream_map_gc_def Let_def by (cases "list_head (ready_for_gc_list qsm)"; cases n) simp_all

end
