(* ===== verification/Sstream_Run.thy ===== *)
theory Sstream_Run
  imports Quic_Sstream
begin

text \<open>
  Runs of a send stream: what holds after any sequence of appends, transmissions, losses, acknowledgements and
  resizes of one stream.
\<close>

section \<open>Runs of a sender\<close>

text \<open>
  The end of the stream is acknowledged only after a frame that carries it has been sent, and once it counts as
  sent it is acknowledged or in flight.
\<close>

definition fin_known :: "sender \<Rightarrow> bool" where
  "fin_known s \<longleftrightarrow>
     (acked_final_size (sd_qss s) \<or> list_ex ck_has_fin (flight s) \<longrightarrow> list_ex (\<lambda>(off, bs, fin). fin) (frames_out s)) \<and>
     (sent_final_size (sd_qss s) \<longrightarrow> acked_final_size (sd_qss s) \<or> list_ex ck_has_fin (flight s))"

lemma fin_final:
  assumes "sender_inv s" "fin_known s" "c \<in> set (flight s)" "ck_has_fin c"
  shows "have_final_size (sd_qss s)"
  using assms by (fastforce simp: fin_known_def sender_inv_def frames_ok_def list_ex_iff)

lemma commit_sent:
  "commit_chunk mem_ok qss c = Some (qss', ok) \<Longrightarrow> sent_final_size qss' \<Longrightarrow> sent_final_size qss \<or> ck_has_fin c"
  by (auto simp: commit_chunk_def ossl_quic_sstream_mark_transmitted_def ossl_quic_sstream_mark_transmitted_fin_def
      split: if_splits option.splits prod.splits)

lemma frames_ok_append:
  assumes "frames_ok A ended fs" "ended \<Longrightarrow> ended' \<and> B = []"
  shows "frames_ok (A @ B) ended' fs"
  using assms by (fastforce simp: frames_ok_def)

lemma frames_ok_snoc:
  "frames_ok A ended (fs @ [(off, bs, fin)]) \<longleftrightarrow> frames_ok A ended fs \<and> unat off + length bs \<le> length A \<and>
     bs = take (length bs) (drop (unat off) A) \<and> (fin \<longrightarrow> ended \<and> unat off + length bs = length A)"
  by (auto simp: frames_ok_def)

lemma append_step:
  assumes "sender_inv s" "fin_known s" "sender_step (Ss_Append mem_ok buf) s = Some s'"
  shows "sender_inv s' \<and> fin_known s'"
proof -
  obtain qss consumed ok where a: "ossl_quic_sstream_append mem_ok (sd_qss s) buf = (qss, consumed, ok)"
    by (cases "ossl_quic_sstream_append mem_ok (sd_qss s) buf") auto
  then have s': "s' = s\<lparr>sd_qss := qss, appended := appended s @ take consumed buf\<rparr>" using assms(3) by simp
  have inv: "ss_inv (appended s) (flight s) (sd_qss s)" using assms(1) by (simp add: sender_inv_def)
  note ai = append_inv [OF inv a]
  have "acked_final_size qss = acked_final_size (sd_qss s)" "sent_final_size qss = sent_final_size (sd_qss s)"
    using a by (auto simp: ossl_quic_sstream_append_def Let_def split: if_splits prod.splits)
  moreover have "frames_ok (appended s @ take consumed buf) (have_final_size qss) (frames_out s)"
    using assms(1) ai(2,3) by (intro frames_ok_append [where ended = "have_final_size (sd_qss s)"]) (auto simp: sender_inv_def)
  ultimately show ?thesis using ai(1) assms(2) s' by (simp add: sender_inv_def fin_known_def)
qed

lemma concat_adjusted:
  assumes "frame_spec A qss hdr iov" "len \<le> sh_len hdr" "length A \<le> 2 ^ 62"
  shows "concat (ossl_quic_sstream_adjust_iov len iov) = take (unat len) (drop (unat (sh_offset hdr)) A)"
    "length (concat (ossl_quic_sstream_adjust_iov len iov)) = unat len"
proof -
  have c: "concat iov = take (unat (sh_len hdr)) (drop (unat (sh_offset hdr)) A)"
    "unat (sh_offset hdr) + unat (sh_len hdr) \<le> length A" "unat len \<le> unat (sh_len hdr)"
    using assms by (auto simp: frame_spec_def u64_nat)
  have "length (concat iov) < 2 ^ 64" using c assms(3) by simp
  then show e: "concat (ossl_quic_sstream_adjust_iov len iov) = take (unat len) (drop (unat (sh_offset hdr)) A)"
    using adjust_iov_concat [of iov len] c by simp
  show "length (concat (ossl_quic_sstream_adjust_iov len iov)) = unat len"
    unfolding e using c by simp
qed

lemma send_step:
  assumes inv: "sender_inv s" "fin_known s"
  shows "\<exists>s'. sender_step (Ss_Send skip k mem_ok) s = Some s' \<and> sender_inv s' \<and> fin_known s'"
proof (cases "ossl_quic_sstream_get_stream_frame (sd_qss s) skip 2")
  case None
  then show ?thesis using inv by simp
next
  case (Some p)
  obtain hdr iov where g: "ossl_quic_sstream_get_stream_frame (sd_qss s) skip 2 = Some (hdr, iov)" using Some by (cases p) auto
  define q where "q = sd_qss s"
  define len where "len = (if k < sh_len hdr then k else sh_len hdr)"
  define fin where "fin = (sh_is_fin hdr \<and> \<not> len < sh_len hdr)"
  define c where "c = chunk_of hdr len fin"
  define bs where "bs = concat (ossl_quic_sstream_adjust_iov len iov)"
  have si: "ss_inv (appended s) (flight s) q" "ring_has (appended s) (ss_ring q)" "frames_ok (appended s) (have_final_size q) (frames_out s)"
    using inv by (auto simp: sender_inv_def ss_inv_def q_def)
  have len: "len \<le> sh_len hdr" "fin \<longleftrightarrow> sh_is_fin hdr \<and> len = sh_len hdr" by (auto simp: len_def fin_def)
  have step: "sender_step (Ss_Send skip k mem_ok) s =
      (if len = 0 \<and> \<not> fin then Some s
       else case commit_chunk mem_ok q c of
           None \<Rightarrow> None
         | Some (q', ok) \<Rightarrow> Some (s\<lparr>sd_qss := q', flight := flight s @ [c], frames_out := frames_out s @ [(sh_offset hdr, bs, fin)]\<rparr>))"
    by (simp only: sender_step.simps g option.case prod.case Let_def len_def fin_def c_def bs_def q_def)
  show ?thesis
  proof (cases "len = 0 \<and> \<not> fin")
    case True
    then show ?thesis using inv step by simp
  next
    case False
    then have nz: "len \<noteq> 0 \<or> fin" by blast
    obtain q' where q': "commit_chunk mem_ok q c = Some (q', True)" "ss_inv (appended s) (flight s @ [c]) q'"
      "have_final_size q' = have_final_size q" "acked_final_size q' = acked_final_size q"
      and fr: "frames_ok (appended s) (have_final_size q') (frames_out s @ [(sh_offset hdr, bs, fin)])"
    proof (cases "appended s = []")
      case True
      note ge = get_frame_empty [OF si(1) [unfolded True] g [folded q_def]]
      have h: "head_offset (ss_ring q) = 0"
        using si(2) True by (intro u64_unat_inj) (simp add: ring_has_def)
      have cc: "c = \<lparr>ck_start = 0, ck_end = UINT64_MAX, ck_has_fin = True\<rparr>" and b: "bs = []" "len = 0" fin
        using ge by (auto simp: c_def chunk_of_def len_def fin_def bs_def ossl_quic_sstream_adjust_iov_def)
      have "empty_tracked (flight s) q" using si(1) True by (simp add: ss_inv_def)
      then obtain q' where "commit_chunk mem_ok q c = Some (q', True)" "empty_tracked (flight s @ [c]) q'"
        "ss_ring q' = ss_ring q" "have_final_size q' = have_final_size q" "acked_final_size q' = acked_final_size q"
        using commit_empty [OF _ ge(3) h cc, of "flight s" mem_ok] by blast
      then show ?thesis using that si True ge b by (simp add: ss_inv_def frames_ok_snoc)
    next
      case False
      note fs = get_frame_spec [OF si(1) False g [folded q_def]]
      have t: "bytes_tracked (appended s) (flight s) q" using si(1) False by (simp add: ss_inv_def)
      obtain q' where q': "commit_chunk mem_ok q c = Some (q', True)" "bytes_tracked (appended s) (flight s @ [c]) q'"
        "ss_ring q' = ss_ring q" "have_final_size q' = have_final_size q" "acked_final_size q' = acked_final_size q"
        using commit_inv [OF si(2) t False fs len nz c_def, of mem_ok] by blast
      note ca = concat_adjusted [OF fs len(1) ring_has_bounds(3) [OF si(2)], folded bs_def]
      have "frames_ok (appended s) (have_final_size q') (frames_out s @ [(sh_offset hdr, bs, fin)])"
        using si(3) ca fs len q'(4) by (auto simp: frames_ok_snoc frame_spec_def u64_nat)
      then show ?thesis using that q' si(2) False by (simp add: ss_inv_def)
    qed
    have "sender_step (Ss_Send skip k mem_ok) s =
        Some (s\<lparr>sd_qss := q', flight := flight s @ [c], frames_out := frames_out s @ [(sh_offset hdr, bs, fin)]\<rparr>)"
      using False q'(1) unfolding step by auto
    moreover have "ck_has_fin c = fin" by (simp add: c_def chunk_of_def)
    ultimately show ?thesis
      using q' fr inv(2) commit_sent [OF q'(1)] by (auto simp: sender_inv_def fin_known_def q_def)
  qed
qed

lemma fin_taken:
  assumes "i < length fl"
  shows "list_ex ck_has_fin fl \<longleftrightarrow> list_ex ck_has_fin (remove_nth i fl) \<or> ck_has_fin (fl ! i)"
  using remove_nth_parts(2) [OF assms] by (auto simp: list_ex_iff)

lemma mark_acked_flags:
  "ossl_quic_sstream_mark_acked mem_ok qss a b = (q, ok) \<Longrightarrow>
   acked_final_size q = acked_final_size qss \<and> sent_final_size q = sent_final_size qss \<and> have_final_size q = have_final_size qss"
  by (auto simp: ossl_quic_sstream_mark_acked_def Let_def split: prod.splits if_splits)

lemma ack_flags:
  assumes "ack_chunk mem_ok qss c = (qss', ok)"
  shows "sent_final_size qss' = sent_final_size qss"
    "acked_final_size qss' \<longleftrightarrow> acked_final_size qss \<or> ck_has_fin c \<and> have_final_size qss"
  using assms by (auto simp: ack_chunk_def ossl_quic_sstream_mark_acked_fin_def split: prod.splits if_splits dest: mark_acked_flags)

lemma lose_flags:
  assumes "lose_chunk mem_ok qss c = (qss', ok)"
  shows "acked_final_size qss' = acked_final_size qss"
    "sent_final_size qss' \<longleftrightarrow> sent_final_size qss \<and> (\<not> ck_has_fin c \<or> acked_final_size qss)"
  using assms by (auto simp: lose_chunk_def ossl_quic_sstream_mark_lost_def ossl_quic_sstream_mark_lost_fin_def
      split: prod.splits if_splits)

lemma ack_step:
  assumes inv: "sender_inv s" "fin_known s" and s': "sender_step (Ss_Ack i mem_ok) s = Some s'"
  shows "sender_inv s' \<and> fin_known s'"
proof (cases "i < length (flight s)")
  case True
  obtain q ok where a: "ack_chunk mem_ok (sd_qss s) (flight s ! i) = (q, ok)" by fastforce
  have si: "ss_inv (appended s) (flight s) (sd_qss s)" using inv(1) by (simp add: sender_inv_def)
  note ai = ack_inv [OF si True a] and af = ack_flags [OF a]
  let ?fl = "if ok then remove_nth i (flight s) else flight s"
  have e: "s' = s\<lparr>sd_qss := q, flight := ?fl\<rparr>" using s' a True by simp
  have hf: "ck_has_fin (flight s ! i) \<Longrightarrow> have_final_size (sd_qss s)"
    using fin_final [OF inv nth_mem [OF True]] .
  have "fin_known s'"
    using inv(2) hf af unfolding fin_known_def e by (auto simp: fin_taken [OF True])
  then show ?thesis using e ai inv(1) by (simp add: sender_inv_def)
next
  case False
  then show ?thesis using assms by simp
qed

lemma lose_step:
  assumes inv: "sender_inv s" "fin_known s" and s': "sender_step (Ss_Lose i mem_ok) s = Some s'"
  shows "sender_inv s' \<and> fin_known s'"
proof (cases "i < length (flight s)")
  case True
  obtain q ok where a: "lose_chunk mem_ok (sd_qss s) (flight s ! i) = (q, ok)" by fastforce
  have si: "ss_inv (appended s) (flight s) (sd_qss s)" using inv(1) by (simp add: sender_inv_def)
  note ai = lose_inv [OF si True a] and af = lose_flags [OF a]
  let ?fl = "if ok then remove_nth i (flight s) else flight s"
  have e: "s' = s\<lparr>sd_qss := q, flight := ?fl\<rparr>" using s' a True by simp
  have "fin_known s'"
    using inv(2) af unfolding fin_known_def e by (auto simp: fin_taken [OF True])
  then show ?thesis using e ai inv(1) by (simp add: sender_inv_def)
next
  case False
  then show ?thesis using assms by simp
qed

lemma resize_step:
  assumes inv: "sender_inv s" "fin_known s" and ok: "sender_op_ok (Ss_Resize block n)" and s': "sender_step (Ss_Resize block n) s = Some s'"
  shows "sender_inv s' \<and> fin_known s'"
proof -
  obtain r res where rs: "ring_buf_resize block (ss_ring (sd_qss s)) n = (r, res)" by fastforce
  then have e: "s' = s\<lparr>sd_qss := (sd_qss s)\<lparr>ss_ring := r\<rparr>\<rparr>" using s' by (simp add: ossl_quic_sstream_set_buffer_size_def)
  have si: "ss_inv (appended s) (flight s) (sd_qss s)" using inv(1) by (simp add: sender_inv_def)
  then have rh: "ring_has (appended s) (ss_ring (sd_qss s))" by (simp add: ss_inv_def)
  note b = ring_has_bounds [OF rh]
  have m: "block = Some m \<Longrightarrow> length m = unat n" for m using ok by simp
  have n: "unat n \<le> 2 ^ 62" using ok by simp
  note rc = resize_correct [OF b(1,4) m n rs]
  have "ring_has (appended s) r" using rc by (intro ring_has_frame [OF rh]) auto
  then have "ss_inv (appended s) (flight s) ((sd_qss s)\<lparr>ss_ring := r\<rparr>)" using rc(2) by (intro ss_inv_ring [OF si]) auto
  then show ?thesis using inv e by (simp add: sender_inv_def fin_known_def)
qed

lemma fin_step:
  assumes inv: "sender_inv s" "fin_known s" and s': "sender_step Ss_Fin s = Some s'"
  shows "sender_inv s' \<and> fin_known s'"
proof (cases "have_final_size (sd_qss s)")
  case True
  then show ?thesis using assms by (simp add: ossl_quic_sstream_fin_def)
next
  case False
  then have e: "s' = s\<lparr>sd_qss := (sd_qss s)\<lparr>have_final_size := True\<rparr>\<rparr>" using s' by (simp add: ossl_quic_sstream_fin_def)
  have "ss_inv (appended s) (flight s) ((sd_qss s)\<lparr>have_final_size := True\<rparr>)"
    using inv(1) by (auto simp: sender_inv_def intro: ss_inv_frame)
  moreover have "frames_ok (appended s) True (frames_out s)"
    using inv(1) by (auto simp: sender_inv_def frames_ok_def)
  ultimately show ?thesis using inv(2) e by (simp add: sender_inv_def fin_known_def)
qed

lemma cleanse_step:
  assumes "sender_inv s" "fin_known s" "sender_step (Ss_Cleanse c) s = Some s'"
  shows "sender_inv s' \<and> fin_known s'"
proof -
  have "ss_inv (appended s) (flight s) (ossl_quic_sstream_set_cleanse (sd_qss s) c)"
    using assms(1) by (auto simp: sender_inv_def ossl_quic_sstream_set_cleanse_def intro: ss_inv_frame)
  moreover have "s' = s\<lparr>sd_qss := (sd_qss s)\<lparr>ss_cleanse := c\<rparr>\<rparr>"
    using assms(3) by (simp add: ossl_quic_sstream_set_cleanse_def)
  ultimately show ?thesis
    using assms(1,2) by (simp add: sender_inv_def fin_known_def ossl_quic_sstream_set_cleanse_def)
qed

lemmas sender_steps = append_step fin_step send_step ack_step lose_step resize_step cleanse_step

lemma sender_step_inv:
  assumes "sender_inv s" "fin_known s" "sender_op_ok x"
  shows "\<exists>s'. sender_step x s = Some s' \<and> sender_inv s' \<and> fin_known s'"
proof (cases x)
  case (Ss_Send skip k mem_ok)
  then show ?thesis using send_step [OF assms(1,2)] by simp
next
  case (Ss_Append m buf)
  then show ?thesis using append_step [OF assms(1,2), of m buf] by (auto split: prod.splits)
next
  case Ss_Fin
  then show ?thesis using fin_step [OF assms(1,2)] by simp
next
  case (Ss_Ack i m)
  then show ?thesis using ack_step [OF assms(1,2), of i m] by (auto split: prod.splits)
next
  case (Ss_Lose i m)
  then show ?thesis using lose_step [OF assms(1,2), of i m] by (auto split: prod.splits)
next
  case (Ss_Resize block n)
  then show ?thesis using resize_step [OF assms(1,2), of block n] assms(3) by simp
next
  case (Ss_Cleanse c)
  then show ?thesis using cleanse_step [OF assms(1,2)] by simp
qed

lemma sender_exec_inv:
  "sender_inv s \<Longrightarrow> fin_known s \<Longrightarrow> list_all sender_op_ok ops \<Longrightarrow>
   \<exists>s'. sender_exec ops s = Some s' \<and> sender_inv s' \<and> fin_known s'"
proof (induction ops arbitrary: s)
  case (Cons x ops)
  obtain s1 where "sender_step x s = Some s1" "sender_inv s1" "fin_known s1"
    using sender_step_inv [OF Cons.prems(1,2)] Cons.prems(3) by auto
  then show ?case using Cons.IH [of s1] Cons.prems(3) by simp
qed simp

lemma new_sender_inv:
  assumes new: "ossl_quic_sstream_new mem_ok block n = Some qss"
    and ok: "sender_op_ok (Ss_Resize block n)"
  shows "sender_inv (sender_begin qss)" "fin_known (sender_begin qss)"
proof -
  obtain r where r: "ring_buf_resize block ring_buf_init n = (r, True)" and q: "qss = \<lparr>ss_ring = r, new_set = ossl_uint_set_init,
      acked_set = ossl_uint_set_init, have_final_size = False, sent_final_size = False, acked_final_size = False, ss_cleanse = False\<rparr>"
    using new by (auto simp: ossl_quic_sstream_new_def split: if_splits prod.splits)
  have rh: "ring_has [] ring_buf_init" by (simp add: ring_has_def rb_ok_def ring_buf_init_def)
  note b = ring_has_bounds [OF rh]
  have m: "block = Some m \<Longrightarrow> length m = unat n" for m using ok by simp
  have n: "unat n \<le> 2 ^ 62" using ok by simp
  note rc = resize_correct [OF b(1,4) m n r]
  have "ring_has [] r" using rc by (intro ring_has_frame [OF rh]) auto
  then show "sender_inv (sender_begin qss)" "fin_known (sender_begin qss)"
    using q rc(2) by (auto simp: sender_inv_def sender_begin_def fin_known_def ss_inv_def empty_tracked_def
        frames_ok_def ossl_uint_set_init_def ring_buf_init_def)
qed

lemma flight_count:
  assumes "sorted_wrt (\<lambda>c d. chunk_range c \<inter> chunk_range d = {}) fl"
  shows "length (filter (\<lambda>c. ck_start c \<le> v \<and> v \<le> ck_end c) fl) = of_bool (\<exists>c\<in>set fl. v \<in> chunk_range c)"
  using assms
proof (induction fl)
  case (Cons c fl)
  then show ?case by (cases "v \<in> chunk_range c") (auto simp: chunk_range_def)
qed simp

lemma tracked_count:
  assumes t: "bytes_tracked A fl qss" and v: "unat v < length A"
  shows "of_bool (ossl_uint_set_query (new_set qss) v) + of_bool (ossl_uint_set_query (acked_set qss) v) +
    length (filter (\<lambda>c. ck_start c \<le> v \<and> v \<le> ck_end c) fl) = 1"
proof -
  have u: "v \<in> uint_set_members (new_set qss) \<union> uint_set_members (acked_set qss) \<union> \<Union> (chunk_range ` set fl)"
    using t v by (simp add: bytes_tracked_def)
  have i: "uint_set_inv (new_set qss)" "uint_set_inv (acked_set qss)"
    "sorted_wrt (\<lambda>c d. chunk_range c \<inter> chunk_range d = {}) fl"
    "uint_set_members (new_set qss) \<inter> uint_set_members (acked_set qss) = {}"
    "\<forall>c\<in>set fl. chunk_range c \<inter> (uint_set_members (new_set qss) \<union> uint_set_members (acked_set qss)) = {}"
    using t by (auto simp: bytes_tracked_def)
  show ?thesis
    unfolding flight_count [OF i(3)] query_members [OF i(1)] query_members [OF i(2)]
    using u i(4,5) by (auto simp: of_bool_def)
qed

lemma has_pending_iff:
  assumes inv: "ss_inv A fl qss"
  shows "ossl_quic_sstream_has_pending qss \<longleftrightarrow> new_set qss \<noteq> [] \<or> have_final_size qss \<and> \<not> sent_final_size qss"
proof (cases "new_set qss = []")
  case True
  then show ?thesis by (simp add: ossl_quic_sstream_has_pending_def ossl_quic_sstream_get_stream_frame_def)
next
  case False
  show ?thesis
  proof (cases "A = []")
    case True
    then have "new_set qss = [full_range]" using inv False by (auto simp: ss_inv_def empty_tracked_def)
    then show ?thesis
      by (simp add: ossl_quic_sstream_has_pending_def ossl_quic_sstream_get_stream_frame_def full_range_def iov_done)
  next
    case bytes: False
    then show ?thesis
      using range_frame [of A qss fl 0] inv False by (auto simp: ss_inv_def ossl_quic_sstream_has_pending_def)
  qed
qed

lemma acked_all:
  assumes t: "bytes_tracked A fl qss" "unat ho = length A" "A \<noteq> []"
    and all: "\<And>v. unat v < length A \<Longrightarrow> v \<in> uint_set_members (acked_set qss)"
  shows "\<exists>r. acked_set qss = [r] \<and> r_start r = 0 \<and> r_end r + 1 = ho"
proof -
  have inv: "uint_set_inv (acked_set qss)" "uint_set_gaps (acked_set qss)" using t(1) by (auto simp: bytes_tracked_def)
  have z: "0 \<in> uint_set_members (acked_set qss)" using all [of 0] t(3) by simp
  then obtain h rest where a: "acked_set qss = h # rest" by (cases "acked_set qss") auto
  note he = acked_head_end [OF t(1,2) a]
  have s0: "r_start h = 0" using z inv(1) a by (auto simp: in_uint_set_members in_range_set)
  have "ho \<noteq> 0" using t(2,3) by (auto simp: u64_nat)
  then have p: "unat (ho - 1) = unat ho - 1" "0 < unat ho" using unat_u64_pred [of ho] by (auto simp: word_gt_0 unat_gt_0)
  have "unat v < length A" if "v \<le> ho - 1" for v
  proof -
    have "unat v \<le> unat (ho - 1)" using that by (simp add: u64_nat)
    then show ?thesis using p t(2) by linarith
  qed
  then have "{r_start h..ho - 1} \<subseteq> uint_set_members (h # rest)"
    using all unfolding a by (meson atLeastAtMost_iff subsetI)
  then have "ho - 1 \<le> r_end h"
    using inv a s0 by (intro first_range_maximal [of h rest]) auto
  then have e: "unat (r_end h) = unat ho - 1" using he(1) p by (simp add: u64_nat)
  have "rest = []"
  proof (rule ccontr)
    assume "rest \<noteq> []"
    then obtain x where x: "x \<in> set rest" by (cases rest) auto
    then have o: "r_end h < r_start x" "r_start x \<le> r_end x" using inv(1) a by (auto simp: uint_set_inv_def list_all_iff)
    then have "r_start x \<in> uint_set_members (acked_set qss)" using x a by (auto simp: in_uint_set_members)
    then have "unat (r_start x) < length A" using tracked_below [OF t(1)] by blast
    then show False using o(1) e t(2) by (simp add: u64_nat)
  qed
  moreover have "r_end h + 1 = ho" using he(2) e p(2) by (intro u64_unat_inj) simp
  ultimately show ?thesis using a s0 by simp
qed

lemma totally_acked_iff:
  assumes inv: "ss_inv A fl qss"
  shows "ossl_quic_sstream_is_totally_acked qss \<longleftrightarrow> (have_final_size qss \<longrightarrow> acked_final_size qss) \<and>
    (\<forall>v. unat v < length A \<longrightarrow> ossl_uint_set_query (acked_set qss) v)"
proof -
  have r: "ring_has A (ss_ring qss)" using inv by (simp add: ss_inv_def)
  note b = ring_has_bounds [OF r]
  show ?thesis
  proof (cases "A = []")
    case True
    then have "head_offset (ss_ring qss) = 0" using b(2) by (intro u64_unat_inj) simp
    then show ?thesis using True by (simp add: ossl_quic_sstream_is_totally_acked_def ossl_quic_sstream_get_cur_size_def)
  next
    case False
    then have t: "bytes_tracked A fl qss" using inv by (simp add: ss_inv_def)
    then have iv: "uint_set_inv (acked_set qss)" by (simp add: bytes_tracked_def)
    have h: "head_offset (ss_ring qss) \<noteq> 0" using False b(2) by (auto simp: u64_nat)
    have "(case acked_set qss of [r] \<Rightarrow> r_start r = 0 \<and> r_end r + 1 = head_offset (ss_ring qss) | _ \<Rightarrow> False) \<longleftrightarrow>
        (\<forall>v. unat v < length A \<longrightarrow> v \<in> uint_set_members (acked_set qss))" (is "?l \<longleftrightarrow> ?r")
    proof
      assume ?l
      then obtain r where r: "acked_set qss = [r]" "r_start r = 0" "r_end r + 1 = head_offset (ss_ring qss)"
        by (auto split: list.splits)
      then show ?r using acked_head_end(2) [OF t b(2) r(1)] b(2) by (auto simp: in_range_set u64_nat)
    next
      assume ?r
      then show ?l using acked_all [OF t b(2) False] by auto
    qed
    then show ?thesis
      using h query_members [OF iv]
      by (simp add: ossl_quic_sstream_is_totally_acked_def ossl_quic_sstream_get_cur_size_def)
  qed
qed

section \<open>Properties\<close>

text \<open>
  C9: Whatever the application appends and in whatever order frames are taken, cut short, lost and
  acknowledged, with the buffer resized and allocations failing at any point, the send stream reports no
  internal error and every frame handed out carries the bytes the application appended at its offset; a frame is
  marked final only after the stream has been finished and only if it ends at the final size.
\<close>
theorem sstream_frames_carry_stream:
  assumes "ossl_quic_sstream_new mem_ok block n = Some qss" "list_all sender_op_ok (Ss_Resize block n # ops)"
  shows "\<exists>s. sender_exec ops (sender_begin qss) = Some s \<and>
    (\<forall>(off, bs, fin)\<in>set (frames_out s). unat off + length bs \<le> length (appended s) \<and>
       bs = take (length bs) (drop (unat off) (appended s)) \<and>
       (fin \<longrightarrow> have_final_size (sd_qss s) \<and> unat off + length bs = length (appended s)))"
proof -
  have ok: "sender_op_ok (Ss_Resize block n)" "list_all sender_op_ok ops" using assms(2) by simp_all
  obtain s where "sender_exec ops (sender_begin qss) = Some s" "sender_inv s"
    using sender_exec_inv [OF new_sender_inv [OF assms(1) ok(1)] ok(2)] by blast
  then show ?thesis by (auto simp: sender_inv_def frames_ok_def)
qed

definition demo_sends :: "sender_op list" where
  "demo_sends = [Ss_Append True [65, 66, 67], Ss_Send 0 2 True, Ss_Send 0 9 True, Ss_Ack 0 True,
     Ss_Append True [68, 69], Ss_Fin, Ss_Send 0 9 True, Ss_Lose 0 True, Ss_Send 0 9 True]"

definition demo_sstream :: QUIC_SSTREAM where
  "demo_sstream = the (ossl_quic_sstream_new True (Some [0, 0, 0, 0]) 4)"

definition demo_sender :: sender where
  "demo_sender = the (sender_exec demo_sends (sender_begin demo_sstream))"

lemma demo_sstream: "ossl_quic_sstream_new True (Some [0, 0, 0, 0]) 4 = Some demo_sstream"
  by code_simp

lemma demo_sends_ok: "list_all sender_op_ok (Ss_Resize (Some [0, 0, 0, 0]) 4 # demo_sends)"
  by (simp add: demo_sends_def)

lemma demo_sender: "sender_exec demo_sends (sender_begin demo_sstream) = Some demo_sender"
  by code_simp

lemma demo_sender_frames: "frames_out demo_sender = [(0, [65, 66], False), (2, [67], False), (3, [68, 69], True), (2, [67], False)]"
  by code_simp

theorem sstream_frames_carry_stream_witness:
  "list_all sender_op_ok (Ss_Resize (Some [0, 0, 0, 0]) 4 # demo_sends) \<and>
   sender_exec demo_sends (sender_begin demo_sstream) = Some demo_sender \<and>
   frames_out demo_sender = [(0, [65, 66], False), (2, [67], False), (3, [68, 69], True), (2, [67], False)] \<and>
   have_final_size (sd_qss demo_sender) \<and> [68, 69] = take 2 (drop 3 (appended demo_sender)) \<and> length (appended demo_sender) = 5"
  using sstream_frames_carry_stream [OF demo_sstream demo_sends_ok] demo_sends_ok demo_sender demo_sender_frames
  by auto


lemma demo_sender_byte:
  "unat (2 :: u64) < length (appended demo_sender)" "\<not> ossl_uint_set_query (acked_set (sd_qss demo_sender)) 2"
  "\<not> ossl_uint_set_query (new_set (sd_qss demo_sender)) 2" "\<not> ossl_quic_sstream_has_pending (sd_qss demo_sender)"
  by code_simp+


text \<open>
  C13: The stream reports itself totally acknowledged exactly if every appended byte has been acknowledged and,
  if it has been finished, its end as well; the end counts as acknowledged only if a frame with it was sent.
\<close>
theorem sstream_totally_acked_exact:
  assumes "ossl_quic_sstream_new mem_ok block n = Some qss" "list_all sender_op_ok (Ss_Resize block n # ops)"
    and "sender_exec ops (sender_begin qss) = Some s" and q: "q = sd_qss s"
  shows "(ossl_quic_sstream_is_totally_acked q \<longleftrightarrow> (have_final_size q \<longrightarrow> acked_final_size q) \<and>
      (\<forall>v. unat v < length (appended s) \<longrightarrow> ossl_uint_set_query (acked_set q) v)) \<and>
    (acked_final_size q \<longrightarrow> list_ex (\<lambda>(off, bs, fin). fin \<and> unat off + length bs = length (appended s)) (frames_out s))"
proof -
  have ok: "sender_op_ok (Ss_Resize block n)" "list_all sender_op_ok ops" using assms(2) by simp_all
  have i: "sender_inv s" "fin_known s"
    using sender_exec_inv [OF new_sender_inv [OF assms(1) ok(1)] ok(2)] assms(3) by auto
  have "list_ex (\<lambda>(off, bs, fin). fin \<and> unat off + length bs = length (appended s)) (frames_out s)" if ack: "acked_final_size q"
  proof -
    obtain off bs where f: "(off, bs, True) \<in> set (frames_out s)"
      using ack i(2) by (auto simp: fin_known_def list_ex_iff q)
    then have "unat off + length bs = length (appended s)" using i(1) by (auto simp: sender_inv_def frames_ok_def)
    then show ?thesis using f by (auto simp: list_ex_iff)
  qed
  moreover have "ss_inv (appended s) (flight s) q" using i(1) by (simp add: sender_inv_def q)
  ultimately show ?thesis using totally_acked_iff [of "appended s" "flight s" q] by simp
qed

definition demo_acks :: "sender_op list" where
  "demo_acks = demo_sends @ [Ss_Ack 1 True, Ss_Ack 0 True]"

definition demo_acked :: sender where
  "demo_acked = the (sender_exec demo_acks (sender_begin demo_sstream))"

lemma demo_acks_ok: "list_all sender_op_ok (Ss_Resize (Some [0, 0, 0, 0]) 4 # demo_acks)"
  by (simp add: demo_acks_def demo_sends_def)

lemma demo_acked: "sender_exec demo_acks (sender_begin demo_sstream) = Some demo_acked"
  by code_simp

lemma demo_acked_total: "ossl_quic_sstream_is_totally_acked (sd_qss demo_acked)" "have_final_size (sd_qss demo_acked)"
  "unat (4 :: u64) < length (appended demo_acked)"
  by code_simp+

theorem sstream_totally_acked_exact_witness:
  "sender_exec demo_acks (sender_begin demo_sstream) = Some demo_acked \<and> acked_final_size (sd_qss demo_acked) \<and>
   ossl_uint_set_query (acked_set (sd_qss demo_acked)) 4"
  using sstream_totally_acked_exact [OF demo_sstream demo_acks_ok demo_acked refl] demo_acked demo_acked_total
  by blast

end
