(* ===== verification/Spec2Isabelle.thy ===== *)
theory Spec2Isabelle
  imports Quic_Fc Ackm_Timer Wire_Props Stream_Sched Sstream_Run
begin

text \<open>
  A verification library for the QUIC transport of PAPQUIC (OpenSSL 3.6.0, \<open>ssl/quic\<close>, with the
  framework's changes to the packetiser).
\<close>

end
